(* ===== verification/Prelude.thy ===== *)
theory Prelude
  imports Main "HOL-Library.Word"
begin

text \<open>
  Shared vocabulary of the development.  Machine integers are words of the width the C code
  gives them.  A kernel routine is a function from the state to a \<open>kresult\<close>: it returns a value
  and the new state, it calls \<open>panic\<close> (the machine stops with a message), it would have to
  sleep on a channel that only another process can signal, or it would spin on a lock that
  only another CPU can release, or it dereferences a null pointer or runs over
  an array (\<open>BadAccess\<close>), or a loop over a
  linked list never ends (\<open>Diverges\<close>).  \<open>bindE\<close> sequences such routines.
  The rest are generic facts on searching tables, on association of writes, and on the
  little-endian layout of 16 and 32 bit integers in byte arrays.
\<close>

unbundle bit_operations_syntax

section \<open>Machine integers\<close>

type_synonym u8 = "8 word"
type_synonym u16 = "16 word"
type_synonym u32 = "32 word"

section \<open>Names of spin locks and of sleep channels\<close>

text \<open>The C code identifies a spin lock and a sleep channel by the address of an object.
  Each constructor stands for the address of one such object of the kernel.\<close>

datatype lockid =
    PtableLock | KmemLock | BcacheLock | LogLock | IcacheLock | FtableLock
  | IdeLock | TicksLock | ConsLock | PipeLock u32 | BufLk nat | InodeLk nat

datatype chan =
    ChLog | ChTicks | ChInput | ChBufLock nat | ChInodeLock nat | ChBuf nat
  | ChProc nat | ChNread u32 | ChNwrite u32

section \<open>Results of kernel routines\<close>

datatype kerror =
    Panic string
  | Blocked chan
  | Spins lockid
  | BadAccess
  | Diverges

type_synonym ('a, 's) kresult = "kerror + 'a \<times> 's"

definition bindE :: "('a, 's) kresult \<Rightarrow> ('a \<Rightarrow> 's \<Rightarrow> ('b, 't) kresult) \<Rightarrow> ('b, 't) kresult" where
  "bindE r f = (case r of Inl e \<Rightarrow> Inl e | Inr (a, s) \<Rightarrow> f a s)"

lemma bindE_Inl [simp]: "bindE (Inl e) f = Inl e"
  by (simp add: bindE_def)

lemma bindE_Inr [simp]: "bindE (Inr (a, s)) f = f a s"
  by (simp add: bindE_def)

lemma bindE_eq_Inr: "bindE r f = Inr y \<longleftrightarrow> (\<exists>a s. r = Inr (a, s) \<and> f a s = Inr y)"
  by (auto simp: bindE_def split: sum.splits prod.splits)

lemma bindE_InrE [elim!]:
  assumes "bindE r f = Inr y"
  obtains a s where "r = Inr (a, s)" and "f a s = Inr y"
  using assms by (auto simp: bindE_eq_Inr)

lemma bindE_assoc: "bindE (bindE r f) g = bindE r (\<lambda>a s. bindE (f a s) g)"
  by (auto simp: bindE_def split: sum.splits prod.splits)

lemma bindE_cong [fundef_cong]:
  assumes "r = r'" and "\<And>a s. r' = Inr (a, s) \<Longrightarrow> f a s = f' a s"
  shows "bindE r f = bindE r' f'"
  using assms by (auto simp: bindE_def split: sum.splits prod.splits)

section \<open>Searching a table\<close>

text \<open>The index of the first entry that satisfies a test: the shape of every
  \<open>for(p = tab; p < &tab[N]; p++) if(...) goto found;\<close> loop.\<close>

fun first_index :: "('a \<Rightarrow> bool) \<Rightarrow> 'a list \<Rightarrow> nat option" where
  "first_index P [] = None"
| "first_index P (x # xs) = (if P x then Some 0 else map_option Suc (first_index P xs))"

lemma first_index_SomeD:
  "first_index P xs = Some i \<Longrightarrow> i < length xs \<and> P (xs ! i) \<and> (\<forall>j < i. \<not> P (xs ! j))"
proof (induction xs arbitrary: i)
  case (Cons x xs)
  show ?case
  proof (cases "P x")
    case False
    with Cons.prems obtain k where k: "first_index P xs = Some k" "i = Suc k" by auto
    from Cons.IH [OF k(1)] False k(2) show ?thesis by (auto simp: less_Suc_eq_0_disj)
  qed (use Cons.prems in auto)
qed simp

lemma first_index_None_iff: "first_index P xs = None \<longleftrightarrow> (\<forall>x \<in> set xs. \<not> P x)"
  by (induction xs) auto

lemma first_index_eqI:
  assumes "i < length xs" and "P (xs ! i)" and "\<And>j. j < i \<Longrightarrow> \<not> P (xs ! j)"
  shows "first_index P xs = Some i"
proof -
  have "first_index P xs \<noteq> None"
    using assms(1,2) by (auto simp: first_index_None_iff)
  then obtain k where k: "first_index P xs = Some k" by auto
  note K = first_index_SomeD [OF k]
  have "k = i" using K assms by (meson linorder_neqE_nat)
  with k show ?thesis by simp
qed

lemma first_index_ex: "i < length xs \<Longrightarrow> P (xs ! i) \<Longrightarrow> \<exists>k \<le> i. first_index P xs = Some k"
proof -
  assume i: "i < length xs" "P (xs ! i)"
  then have "first_index P xs \<noteq> None" by (auto simp: first_index_None_iff)
  then obtain k where k: "first_index P xs = Some k" by auto
  note first_index_SomeD [OF k]
  with i have "k \<le> i" by (meson not_le)
  with k show ?thesis by blast
qed

section \<open>Little-endian integers in bytes\<close>

definition le32 :: "u8 \<Rightarrow> u8 \<Rightarrow> u8 \<Rightarrow> u8 \<Rightarrow> u32" where
  "le32 b0 b1 b2 b3 =
     ucast b0 OR push_bit 8 (ucast b1) OR push_bit 16 (ucast b2) OR push_bit 24 (ucast b3)"

definition byte_of :: "nat \<Rightarrow> u32 \<Rightarrow> u8" where
  "byte_of k w = ucast (drop_bit (8 * k) w)"

lemma le32_byte_of [simp]:
  "le32 (byte_of 0 w) (byte_of (Suc 0) w) (byte_of 2 w) (byte_of 3 w) = w"
proof (rule bit_word_eqI)
  fix n assume "n < LENGTH(32)"
  then consider "n < 8" | "8 \<le> n" "n < 16" | "16 \<le> n" "n < 24" | "24 \<le> n" "n < 32"
    by fastforce
  then show "bit (le32 (byte_of 0 w) (byte_of (Suc 0) w) (byte_of 2 w) (byte_of 3 w)) n = bit w n"
    by cases (auto simp: le32_def byte_of_def bit_simps)
qed

lemma byte_of_le32 [simp]:
  "byte_of 0 (le32 a b c d) = a" "byte_of (Suc 0) (le32 a b c d) = b"
  "byte_of 2 (le32 a b c d) = c" "byte_of 3 (le32 a b c d) = d"
  by (rule bit_word_eqI; auto simp: le32_def byte_of_def bit_simps dest: bit_imp_le_length)+

lemma le32_inj:
  "le32 a b c d = le32 a' b' c' d' \<longleftrightarrow> a = a' \<and> b = b' \<and> c = c' \<and> d = d'"
  by (metis byte_of_le32)

definition le16 :: "u8 \<Rightarrow> u8 \<Rightarrow> u16" where
  "le16 b0 b1 = ucast b0 OR push_bit 8 (ucast b1)"

definition byte16 :: "nat \<Rightarrow> u16 \<Rightarrow> u8" where
  "byte16 k w = ucast (drop_bit (8 * k) w)"

lemma le16_byte16 [simp]: "le16 (byte16 0 w) (byte16 (Suc 0) w) = w"
proof (rule bit_word_eqI)
  fix n assume "n < LENGTH(16)"
  then consider "n < 8" | "8 \<le> n" "n < 16" by fastforce
  then show "bit (le16 (byte16 0 w) (byte16 (Suc 0) w)) n = bit w n"
    by cases (auto simp: le16_def byte16_def bit_simps)
qed

section \<open>Blocks of bytes\<close>

text \<open>A disk block, like every C array, is a function from its index; the routines only use
  the indices below \<open>BSIZE\<close>.\<close>

type_synonym block = "nat \<Rightarrow> u8"

definition rd32 :: "block \<Rightarrow> nat \<Rightarrow> u32" where
  "rd32 b o1 = le32 (b o1) (b (o1 + 1)) (b (o1 + 2)) (b (o1 + 3))"

definition wr32 :: "block \<Rightarrow> nat \<Rightarrow> u32 \<Rightarrow> block" where
  "wr32 b o1 w = b(o1 := byte_of 0 w, o1 + 1 := byte_of 1 w,
                   o1 + 2 := byte_of 2 w, o1 + 3 := byte_of 3 w)"

definition rd16 :: "block \<Rightarrow> nat \<Rightarrow> u16" where
  "rd16 b o1 = le16 (b o1) (b (o1 + 1))"

definition wr16 :: "block \<Rightarrow> nat \<Rightarrow> u16 \<Rightarrow> block" where
  "wr16 b o1 w = b(o1 := byte16 0 w, o1 + 1 := byte16 1 w)"

lemma rd32_wr32_same [simp]: "rd32 (wr32 b i w) i = w"
  by (simp add: rd32_def wr32_def)

lemma rd32_wr32_other: "i + 4 \<le> j \<or> j + 4 \<le> i \<Longrightarrow> rd32 (wr32 b i w) j = rd32 b j"
  by (auto simp: rd32_def wr32_def)

lemma wr32_outside: "j < i \<or> i + 4 \<le> j \<Longrightarrow> wr32 b i w j = b j"
  by (auto simp: wr32_def)

lemma rd16_wr16_same [simp]: "rd16 (wr16 b i w) i = w"
  by (simp add: rd16_def wr16_def)

lemma rd16_wr16_other: "i + 2 \<le> j \<or> j + 2 \<le> i \<Longrightarrow> rd16 (wr16 b i w) j = rd16 b j"
  by (auto simp: rd16_def wr16_def)

lemma wr16_outside: "j < i \<or> i + 2 \<le> j \<Longrightarrow> wr16 b i w j = b j"
  by (auto simp: wr16_def)

end
