(* ===== verification/Spinlock.thy ===== *)
theory Spinlock
  imports Prelude
begin

text \<open>
  Spin locks (\<open>spinlock.c\<close>, \<open>mycpu\<close> of \<open>proc.c\<close>, \<open>xchg\<close> of \<open>x86.h\<close>) on a multiprocessor: the
  per-CPU interrupt bookkeeping of \<open>pushcli\<close>/\<open>popcli\<close>, the lock word, and \<open>acquire\<close>/\<open>release\<close>
  both as sequential routines and, cut at their atomic actions, as a step relation of all
  CPUs.  The second half abstracts one CPU's locks to the set of locks it holds; the other
  components of the kernel use that set (\<open>lk_acquire\<close>, \<open>lk_release\<close>), and the simulation lemmas
  show that the detailed routines implement it.
\<close>

section \<open>Data\<close>

record spinlock =
  sl_locked :: u32
  sl_cpu :: "nat option"
  sl_pcs :: "u32 list"

record cpu =
  apicid :: u8
  ncli :: int
  intena :: bool

text \<open>\<open>hw_if\<close> is the interrupt flag of each processor's EFLAGS, \<open>hw_apicid\<close> what its local APIC
  answers (\<open>lapicid\<close>), \<open>smem\<close> the words of kernel memory that the frame chain runs through.\<close>

record mpstate =
  cpus :: "cpu list"
  locks :: "lockid \<Rightarrow> spinlock"
  hw_if :: "nat \<Rightarrow> bool"
  hw_apicid :: "nat \<Rightarrow> u8"
  smem :: "u32 \<Rightarrow> u32"

definition set_cpu :: "nat \<Rightarrow> (cpu \<Rightarrow> cpu) \<Rightarrow> mpstate \<Rightarrow> mpstate" where
  "set_cpu c f s = s\<lparr>cpus := (cpus s)[c := f (cpus s ! c)]\<rparr>"

definition set_lock :: "lockid \<Rightarrow> (spinlock \<Rightarrow> spinlock) \<Rightarrow> mpstate \<Rightarrow> mpstate" where
  "set_lock l f s = s\<lparr>locks := (locks s)(l := f (locks s l))\<rparr>"

section \<open>Operations\<close>

definition cli :: "nat \<Rightarrow> mpstate \<Rightarrow> mpstate" where
  "cli me s = s\<lparr>hw_if := (hw_if s)(me := False)\<rparr>"

definition sti :: "nat \<Rightarrow> mpstate \<Rightarrow> mpstate" where
  "sti me s = s\<lparr>hw_if := (hw_if s)(me := True)\<rparr>"

definition mycpu :: "nat \<Rightarrow> mpstate \<Rightarrow> (nat, mpstate) kresult" where
  "mycpu me s =
     (if hw_if s me then Inl (Panic (''mycpu called with interrupts enabled'' @ [CHR 0x0A]))
      else case first_index (\<lambda>c. apicid c = hw_apicid s me) (cpus s) of
             Some i \<Rightarrow> Inr (i, s)
           | None \<Rightarrow> Inl (Panic (''unknown apicid'' @ [CHR 0x0A])))"

definition pushcli :: "nat \<Rightarrow> mpstate \<Rightarrow> (unit, mpstate) kresult" where
  "pushcli me s =
     (let eflags = hw_if s me; s = cli me s in
      bindE (mycpu me s) (\<lambda>c s.
        let s = (if ncli (cpus s ! c) = 0 then set_cpu c (\<lambda>x. x\<lparr>intena := eflags\<rparr>) s else s)
        in Inr ((), set_cpu c (\<lambda>x. x\<lparr>ncli := ncli x + 1\<rparr>) s)))"

definition popcli :: "nat \<Rightarrow> mpstate \<Rightarrow> (unit, mpstate) kresult" where
  "popcli me s =
     (if hw_if s me then Inl (Panic ''popcli - interruptible'')
      else bindE (mycpu me s) (\<lambda>c s.
        let s = set_cpu c (\<lambda>x. x\<lparr>ncli := ncli x - 1\<rparr>) s in
        if ncli (cpus s ! c) < 0 then Inl (Panic ''popcli'')
        else if ncli (cpus s ! c) = 0 \<and> intena (cpus s ! c) then Inr ((), sti me s)
        else Inr ((), s)))"

definition holding :: "nat \<Rightarrow> lockid \<Rightarrow> mpstate \<Rightarrow> (bool, mpstate) kresult" where
  "holding me l s =
     (if sl_locked (locks s l) = 0 then Inr (False, s)
      else bindE (mycpu me s) (\<lambda>c s. Inr (sl_cpu (locks s l) = Some c, s)))"

definition initlock :: "lockid \<Rightarrow> mpstate \<Rightarrow> mpstate" where
  "initlock l s = set_lock l (\<lambda>k. k\<lparr>sl_locked := 0, sl_cpu := None\<rparr>) s"

definition xchg :: "lockid \<Rightarrow> u32 \<Rightarrow> mpstate \<Rightarrow> u32 \<times> mpstate" where
  "xchg l v s = (sl_locked (locks s l), set_lock l (\<lambda>k. k\<lparr>sl_locked := v\<rparr>) s)"

text \<open>The frame chain: \<open>i\<close> entries are still to be filled.\<close>

definition KERNBASE :: u32 where "KERNBASE = 0x80000000"

fun callerpcs :: "(u32 \<Rightarrow> u32) \<Rightarrow> nat \<Rightarrow> u32 \<Rightarrow> u32 list" where
  "callerpcs m 0 ebp = []"
| "callerpcs m (Suc i) ebp =
     (if ebp = 0 \<or> ebp < KERNBASE \<or> ebp = 0xffffffff then replicate (Suc i) 0
      else m (ebp + 4) # callerpcs m i (m ebp))"

definition getcallerpcs :: "u32 \<Rightarrow> mpstate \<Rightarrow> u32 list" where
  "getcallerpcs v s = callerpcs (smem s) 10 (v - 8)"

text \<open>The part of \<open>acquire\<close> before the spin, and the part after it.\<close>

definition acquire_enter :: "nat \<Rightarrow> lockid \<Rightarrow> mpstate \<Rightarrow> (unit, mpstate) kresult" where
  "acquire_enter me l s =
     bindE (pushcli me s) (\<lambda>_ s.
     bindE (holding me l s) (\<lambda>h s.
       if h then Inl (Panic ''acquire'') else Inr ((), s)))"

definition acquire_exit :: "u32 \<Rightarrow> nat \<Rightarrow> lockid \<Rightarrow> mpstate \<Rightarrow> (unit, mpstate) kresult" where
  "acquire_exit frame me l s =
     bindE (mycpu me s) (\<lambda>c s.
       Inr ((), set_lock l (\<lambda>k. k\<lparr>sl_cpu := Some c, sl_pcs := getcallerpcs frame s\<rparr>) s))"

text \<open>The whole of \<open>acquire\<close> run on one CPU: a lock that another CPU holds keeps the
  \<open>xchg\<close> loop where it is.\<close>

definition acquire :: "u32 \<Rightarrow> nat \<Rightarrow> lockid \<Rightarrow> mpstate \<Rightarrow> (unit, mpstate) kresult" where
  "acquire frame me l s =
     bindE (acquire_enter me l s) (\<lambda>_ s.
       case xchg l 1 s of (old, s) \<Rightarrow>
         if old \<noteq> 0 then Inl (Spins l) else acquire_exit frame me l s)"

definition release_begin :: "nat \<Rightarrow> lockid \<Rightarrow> mpstate \<Rightarrow> (unit, mpstate) kresult" where
  "release_begin me l s =
     bindE (holding me l s) (\<lambda>h s.
       if \<not> h then Inl (Panic ''release'')
       else Inr ((), set_lock l (\<lambda>k. k\<lparr>sl_pcs := (sl_pcs k)[0 := 0], sl_cpu := None\<rparr>) s))"

definition release_clear :: "lockid \<Rightarrow> mpstate \<Rightarrow> mpstate" where
  "release_clear l s = set_lock l (\<lambda>k. k\<lparr>sl_locked := 0\<rparr>) s"

definition release :: "nat \<Rightarrow> lockid \<Rightarrow> mpstate \<Rightarrow> (unit, mpstate) kresult" where
  "release me l s =
     bindE (release_begin me l s) (\<lambda>_ s. popcli me (release_clear l s))"

section \<open>All CPUs: one step is one atomic action\<close>

datatype lpc = Outside | Spinning | Taken | Inside | Leaving | Cleared

type_synonym mpconf = "(nat \<Rightarrow> lockid \<Rightarrow> lpc) \<times> mpstate"

definition at_pc :: "(nat \<Rightarrow> lockid \<Rightarrow> lpc) \<Rightarrow> nat \<Rightarrow> lockid \<Rightarrow> lpc \<Rightarrow> (nat \<Rightarrow> lockid \<Rightarrow> lpc)" where
  "at_pc pc i l p = pc(i := (pc i)(l := p))"

inductive lock_step :: "mpconf \<Rightarrow> mpconf \<Rightarrow> bool" where
  step_enter: "pc i l = Outside \<Longrightarrow> acquire_enter i l s = Inr ((), s') \<Longrightarrow>
    lock_step (pc, s) (at_pc pc i l Spinning, s')"
| step_spin: "pc i l = Spinning \<Longrightarrow> xchg l 1 s = (old, s') \<Longrightarrow> old \<noteq> 0 \<Longrightarrow>
    lock_step (pc, s) (pc, s')"
| step_take: "pc i l = Spinning \<Longrightarrow> xchg l 1 s = (0, s') \<Longrightarrow>
    lock_step (pc, s) (at_pc pc i l Taken, s')"
| step_record: "pc i l = Taken \<Longrightarrow> acquire_exit frame i l s = Inr ((), s') \<Longrightarrow>
    lock_step (pc, s) (at_pc pc i l Inside, s')"
| step_leave: "pc i l = Inside \<Longrightarrow> release_begin i l s = Inr ((), s') \<Longrightarrow>
    lock_step (pc, s) (at_pc pc i l Leaving, s')"
| step_clear: "pc i l = Leaving \<Longrightarrow>
    lock_step (pc, s) (at_pc pc i l Cleared, release_clear l s)"
| step_pop: "pc i l = Cleared \<Longrightarrow> popcli i s = Inr ((), s') \<Longrightarrow>
    lock_step (pc, s) (at_pc pc i l Outside, s')"

inductive lock_reach :: "mpconf \<Rightarrow> bool" where
  reach_init: "(\<And>l. sl_locked (locks s l) = 0) \<Longrightarrow> (\<And>l. sl_cpu (locks s l) = None) \<Longrightarrow>
    lock_reach (\<lambda>_ _. Outside, s)"
| reach_step: "lock_reach c \<Longrightarrow> lock_step c c' \<Longrightarrow> lock_reach c'"

section \<open>The set of locks held, as the other components see it\<close>

record kbase =
  klk :: "lockid set"

definition lk_acquire :: "lockid \<Rightarrow> 'a kbase_scheme \<Rightarrow> (unit, 'a kbase_scheme) kresult" where
  "lk_acquire l s =
     (if l \<in> klk s then Inl (Panic ''acquire'') else Inr ((), s\<lparr>klk := insert l (klk s)\<rparr>))"

definition lk_release :: "lockid \<Rightarrow> 'a kbase_scheme \<Rightarrow> (unit, 'a kbase_scheme) kresult" where
  "lk_release l s =
     (if l \<notin> klk s then Inl (Panic ''release'') else Inr ((), s\<lparr>klk := klk s - {l}\<rparr>))"

lemma lk_acquire_free [simp]:
  "l \<notin> klk s \<Longrightarrow> lk_acquire l s = Inr ((), s\<lparr>klk := insert l (klk s)\<rparr>)"
  by (simp add: lk_acquire_def)

lemma lk_release_held [simp]:
  "l \<in> klk s \<Longrightarrow> lk_release l s = Inr ((), s\<lparr>klk := klk s - {l}\<rparr>)"
  by (simp add: lk_release_def)

section \<open>Mutual exclusion over all interleavings\<close>

definition owns :: "lpc \<Rightarrow> bool" where
  "owns p \<longleftrightarrow> p = Taken \<or> p = Inside \<or> p = Leaving"

definition lock_inv :: "mpconf \<Rightarrow> bool" where
  "lock_inv c \<longleftrightarrow> (\<forall>l. (sl_locked (locks (snd c) l) \<noteq> 0 \<longleftrightarrow> (\<exists>i. owns (fst c i l))) \<and>
     (\<forall>i j. owns (fst c i l) \<longrightarrow> owns (fst c j l) \<longrightarrow> i = j))"

lemma at_pc_apply [simp]: "at_pc pc i l p j k = (if j = i \<and> k = l then p else pc j k)"
  by (simp add: at_pc_def)

lemma locks_set_cpu [simp]: "locks (set_cpu c f s) = locks s"
  by (simp add: set_cpu_def)

lemma locks_cli_sti [simp]: "locks (cli me s) = locks s" "locks (sti me s) = locks s"
  by (simp_all add: cli_def sti_def)

lemma mycpu_InrD: "mycpu me s = Inr (c, s') \<Longrightarrow>
  s' = s \<and> c < length (cpus s) \<and> apicid (cpus s ! c) = hw_apicid s me \<and> \<not> hw_if s me"
  by (auto simp: mycpu_def split: if_splits option.splits dest: first_index_SomeD)

lemma locks_pushcli: "pushcli me s = Inr (u, s') \<Longrightarrow> locks s' = locks s"
  by (auto simp: pushcli_def Let_def split: if_splits dest!: mycpu_InrD)

lemma locks_popcli: "popcli me s = Inr (u, s') \<Longrightarrow> locks s' = locks s"
  by (auto simp: popcli_def Let_def split: if_splits dest!: mycpu_InrD)

lemma holding_InrD: "holding me l s = Inr (h, s') \<Longrightarrow> s' = s"
  by (auto simp: holding_def split: if_splits dest!: mycpu_InrD)

lemma locks_acquire_enter: "acquire_enter me l s = Inr (u, s') \<Longrightarrow> locks s' = locks s"
  by (auto simp: acquire_enter_def split: if_splits dest!: locks_pushcli holding_InrD)

lemma locked_acquire_exit:
  "acquire_exit f me l s = Inr (u, s') \<Longrightarrow> sl_locked (locks s' k) = sl_locked (locks s k)"
  by (auto simp: acquire_exit_def set_lock_def dest!: mycpu_InrD)

lemma locked_release_begin:
  "release_begin me l s = Inr (u, s') \<Longrightarrow> sl_locked (locks s' k) = sl_locked (locks s k)"
  by (auto simp: release_begin_def set_lock_def split: if_splits dest!: holding_InrD)

lemma lock_inv_move:
  assumes "lock_inv (pc, s)" and "owns p = owns (pc i l)"
    and "\<And>k. sl_locked (locks s' k) = sl_locked (locks s k)"
  shows "lock_inv (at_pc pc i l p, s')"
proof -
  have "owns (at_pc pc i l p j k) = owns (pc j k)" for j k
    using assms(2) by simp
  with assms(1,3) show ?thesis by (simp add: lock_inv_def)
qed

lemma lock_step_inv: "lock_step c c' \<Longrightarrow> lock_inv c \<Longrightarrow> lock_inv c'"
proof (induction rule: lock_step.induct)
  case (step_enter pc i l s s')
  then show ?case by (intro lock_inv_move [of pc s]) (auto simp: owns_def dest: locks_acquire_enter)
next
  case (step_spin pc i l s old s')
  then have s': "s' = set_lock l (\<lambda>k. k\<lparr>sl_locked := 1\<rparr>) s" and "sl_locked (locks s l) \<noteq> 0"
    by (auto simp: xchg_def)
  then have "(sl_locked (locks s' k) = 0) = (sl_locked (locks s k) = 0)" for k
    by (simp add: set_lock_def)
  with step_spin.prems show ?case by (simp add: lock_inv_def)
next
  case (step_take pc i l s s')
  then have "sl_locked (locks s l) = 0" and s': "s' = set_lock l (\<lambda>k. k\<lparr>sl_locked := 1\<rparr>) s"
    by (auto simp: xchg_def)
  with step_take.prems have free: "\<not> owns (pc j l)" for j
    by (auto simp: lock_inv_def)
  have "owns (at_pc pc i l Taken j k) = (if k = l then j = i else owns (pc j k))" for j k
    using free by (simp add: owns_def)
  with step_take.prems s' show ?case
    by (simp add: lock_inv_def set_lock_def)
next
  case (step_record pc i l frame s s')
  then show ?case by (intro lock_inv_move [of pc s]) (auto simp: owns_def dest: locked_acquire_exit)
next
  case (step_leave pc i l s s')
  then show ?case by (intro lock_inv_move [of pc s]) (auto simp: owns_def dest: locked_release_begin)
next
  case (step_clear pc i l s)
  have "j = i" if "owns (pc j l)" for j
    using that step_clear unfolding lock_inv_def owns_def by (metis fst_conv)
  then have "owns (at_pc pc i l Cleared j k) = (k \<noteq> l \<and> owns (pc j k))" for j k
    by (auto simp: owns_def)
  then show ?case
    using step_clear.prems by (simp add: lock_inv_def release_clear_def set_lock_def)
next
  case (step_pop pc i l s s')
  then show ?case by (intro lock_inv_move [of pc s]) (auto simp: owns_def dest: locks_popcli)
qed

lemma lock_reach_inv: "lock_reach c \<Longrightarrow> lock_inv c"
proof (induction rule: lock_reach.induct)
  case (reach_init s)
  then show ?case by (simp add: lock_inv_def owns_def)
next
  case (reach_step c c')
  then show ?case by (blast intro: lock_step_inv)
qed

text \<open>C5. Mutual exclusion.  However the CPUs interleave the atomic actions of \<open>acquire\<close> and
  \<open>release\<close>, at most one CPU owns a spin lock, that is, is between the exchange of \<open>acquire\<close> that took
  it and the store of \<open>release\<close> that clears it, the critical section included; and the lock word is
  set exactly while some CPU owns the lock.\<close>

theorem spinlock_mutual_exclusion:
  assumes "lock_reach (pc, s)"
  shows "(pc i l \<in> {Taken, Inside, Leaving} \<and> pc j l \<in> {Taken, Inside, Leaving} \<longrightarrow> i = j) \<and>
    (sl_locked (locks s l) \<noteq> 0 \<longleftrightarrow> (\<exists>k. pc k l \<in> {Taken, Inside, Leaving}))"
proof -
  have o: "p \<in> {Taken, Inside, Leaving} \<longleftrightarrow> owns p" for p by (auto simp: owns_def)
  show ?thesis using lock_reach_inv [OF assms] unfolding o lock_inv_def fst_conv snd_conv by blast
qed

definition up_state :: mpstate where
  "up_state = \<lparr>cpus = [\<lparr>apicid = 0, ncli = 0, intena = False\<rparr>],
     locks = (\<lambda>_. \<lparr>sl_locked = 0, sl_cpu = None, sl_pcs = []\<rparr>),
     hw_if = (\<lambda>_. True), hw_apicid = (\<lambda>i. of_nat i), smem = (\<lambda>_. 0)\<rparr>"

lemma up_state_acquires:
  "\<exists>s1 s2 s3. acquire_enter 0 PtableLock up_state = Inr ((), s1) \<and>
     xchg PtableLock 1 s1 = (0, s2) \<and> acquire_exit 0 0 PtableLock s2 = Inr ((), s3)"
  by (simp add: up_state_def acquire_enter_def pushcli_def cli_def mycpu_def set_cpu_def Let_def
      holding_def xchg_def set_lock_def acquire_exit_def)

lemma reach_inside:
  "\<exists>pc s. lock_reach (pc, s) \<and> pc 0 PtableLock = Inside"
proof -
  obtain s1 s2 s3 where s: "acquire_enter 0 PtableLock up_state = Inr ((), s1)"
     "xchg PtableLock 1 s1 = (0, s2)" "acquire_exit 0 0 PtableLock s2 = Inr ((), s3)"
    using up_state_acquires by blast
  have "lock_reach (\<lambda>_ _. Outside, up_state)"
    by (rule reach_init) (simp_all add: up_state_def)
  then have "lock_reach (at_pc (\<lambda>_ _. Outside) 0 PtableLock Spinning, s1)"
    by (rule reach_step) (rule step_enter, simp_all add: s)
  then have "lock_reach (at_pc (at_pc (\<lambda>_ _. Outside) 0 PtableLock Spinning) 0 PtableLock Taken, s2)"
    by (rule reach_step) (rule step_take, simp_all add: s)
  then have "lock_reach (at_pc (at_pc (at_pc (\<lambda>_ _. Outside) 0 PtableLock Spinning)
      0 PtableLock Taken) 0 PtableLock Inside, s3)"
    by (rule reach_step) (rule step_record [where frame = 0], simp_all add: s)
  then show ?thesis by (metis at_pc_apply)
qed

theorem spinlock_mutual_exclusion_witness:
  "\<exists>pc s. lock_reach (pc, s) \<and> pc 0 PtableLock = Inside \<and> sl_locked (locks s PtableLock) \<noteq> 0 \<and>
     pc 1 PtableLock \<notin> {Taken, Inside, Leaving}"
proof -
  obtain pc s where r: "lock_reach (pc, s)" "pc 0 PtableLock = Inside" using reach_inside by blast
  then show ?thesis
    using spinlock_mutual_exclusion [OF r(1), of 0 PtableLock 1]
    by (intro exI [of _ pc] exI [of _ s]) auto
qed

section \<open>The detailed routines implement the set of held locks\<close>

definition held :: "nat \<Rightarrow> mpstate \<Rightarrow> lockid set" where
  "held me s = {l. sl_locked (locks s l) \<noteq> 0 \<and> sl_cpu (locks s l) = Some me}"

text \<open>The CPU \<open>me\<close> is the one its APIC id names, no other CPU holds a lock, and the nesting
  depth counts the locks held; \<open>if0\<close> is the interrupt flag the outermost \<open>pushcli\<close> saved.\<close>

definition cpu_inv :: "bool \<Rightarrow> nat \<Rightarrow> mpstate \<Rightarrow> bool" where
  "cpu_inv if0 me s \<longleftrightarrow>
     first_index (\<lambda>c. apicid c = hw_apicid s me) (cpus s) = Some me \<and>
     (\<forall>l. sl_locked (locks s l) \<noteq> 0 \<longrightarrow> sl_cpu (locks s l) = Some me) \<and>
     finite (held me s) \<and> ncli (cpus s ! me) = int (card (held me s)) \<and>
     (if held me s = {} then hw_if s me = if0 else \<not> hw_if s me \<and> intena (cpus s ! me) = if0)"

lemma mycpu_me:
  "first_index (\<lambda>c. apicid c = hw_apicid s me) (cpus s) = Some me \<Longrightarrow> \<not> hw_if s me \<Longrightarrow>
     mycpu me s = Inr (me, s)"
  by (simp add: mycpu_def)

lemma first_index_upd_apicid:
  assumes "apicid c' = apicid (cs ! i)"
  shows "first_index (\<lambda>c. apicid c = a) (cs[i := c']) = first_index (\<lambda>c. apicid c = a) cs"
  using assms by (induction cs arbitrary: i) (auto split: nat.split)

lemma pushcli_me:
  assumes "first_index (\<lambda>c. apicid c = hw_apicid s me) (cpus s) = Some me"
  shows "pushcli me s = Inr ((), s\<lparr>hw_if := (hw_if s)(me := False),
     cpus := (cpus s)[me := (cpus s ! me)\<lparr>
       intena := (if ncli (cpus s ! me) = 0 then hw_if s me else intena (cpus s ! me)),
       ncli := ncli (cpus s ! me) + 1\<rparr>]\<rparr>)"
proof -
  have "me < length (cpus s)" using first_index_SomeD [OF assms] by simp
  then show ?thesis
    by (simp add: pushcli_def Let_def cli_def mycpu_def assms set_cpu_def)
qed

lemma acquire_enter_me:
  assumes inv: "cpu_inv if0 me s"
  shows "acquire_enter me l s =
     (if l \<in> held me s then Inl (Panic ''acquire'') else pushcli me s)"
proof -
  let ?s = "s\<lparr>hw_if := (hw_if s)(me := False),
     cpus := (cpus s)[me := (cpus s ! me)\<lparr>
       intena := (if ncli (cpus s ! me) = 0 then hw_if s me else intena (cpus s ! me)),
       ncli := ncli (cpus s ! me) + 1\<rparr>]\<rparr>"
  have me: "first_index (\<lambda>c. apicid c = hw_apicid s me) (cpus s) = Some me"
    using inv by (simp add: cpu_inv_def)
  have "mycpu me ?s = Inr (me, ?s)"
    by (rule mycpu_me) (simp_all add: first_index_upd_apicid me)
  then have "holding me l ?s = Inr (l \<in> held me s, ?s)"
    by (simp add: holding_def held_def)
  then show ?thesis
    by (simp add: acquire_enter_def pushcli_me [OF me])
qed

lemma acquire_held:
  assumes "cpu_inv if0 me s" and "l \<in> held me s"
  shows "acquire frame me l s = Inl (Panic ''acquire'')"
  using assms by (simp add: acquire_def acquire_enter_me)

lemma acquire_free:
  assumes inv: "cpu_inv if0 me s" and free: "l \<notin> held me s"
  shows "\<exists>s'. acquire frame me l s = Inr ((), s') \<and> cpu_inv if0 me s' \<and>
           held me s' = insert l (held me s)"
proof -
  have me: "first_index (\<lambda>c. apicid c = hw_apicid s me) (cpus s) = Some me"
    using inv by (simp add: cpu_inv_def)
  then have len: "me < length (cpus s)" by (auto dest: first_index_SomeD)
  have unlocked: "sl_locked (locks s l) = 0"
    using inv free by (auto simp: cpu_inv_def held_def)
  let ?c = "(cpus s ! me)\<lparr>
       intena := (if ncli (cpus s ! me) = 0 then hw_if s me else intena (cpus s ! me)),
       ncli := ncli (cpus s ! me) + 1\<rparr>"
  let ?s = "s\<lparr>hw_if := (hw_if s)(me := False), cpus := (cpus s)[me := ?c]\<rparr>"
  let ?s1 = "set_lock l (\<lambda>k. k\<lparr>sl_locked := 1\<rparr>) ?s"
  let ?s2 = "set_lock l (\<lambda>k. k\<lparr>sl_cpu := Some me, sl_pcs := getcallerpcs frame ?s1\<rparr>) ?s1"
  have "mycpu me ?s1 = Inr (me, ?s1)"
    by (rule mycpu_me) (simp_all add: set_lock_def first_index_upd_apicid me)
  then have acq: "acquire frame me l s = Inr ((), ?s2)"
    using unlocked
    by (simp add: acquire_def acquire_enter_me [OF inv] free pushcli_me [OF me] xchg_def
        acquire_exit_def)
  have held: "held me ?s2 = insert l (held me s)"
    by (auto simp: held_def set_lock_def)
  have "cpu_inv if0 me ?s2"
    using inv held free len me
    by (auto simp: cpu_inv_def set_lock_def first_index_upd_apicid card_insert_if
        split: if_splits)
  with acq held show ?thesis by blast
qed

lemma release_not_held:
  assumes "cpu_inv if0 me s" and "l \<notin> held me s"
  shows "release me l s = Inl (Panic ''release'')"
proof -
  have "sl_locked (locks s l) = 0" using assms by (auto simp: cpu_inv_def held_def)
  then show ?thesis by (simp add: release_def release_begin_def holding_def)
qed

lemma release_held:
  assumes inv: "cpu_inv if0 me s" and held: "l \<in> held me s"
  shows "\<exists>s'. release me l s = Inr ((), s') \<and> cpu_inv if0 me s' \<and>
           held me s' = held me s - {l}"
proof -
  have me: "first_index (\<lambda>c. apicid c = hw_apicid s me) (cpus s) = Some me" and
       off: "\<not> hw_if s me" and fin: "finite (held me s)"
    using inv held by (auto simp: cpu_inv_def split: if_splits)
  then have len: "me < length (cpus s)" by (auto dest: first_index_SomeD)
  let ?s1 = "set_lock l (\<lambda>k. k\<lparr>sl_pcs := (sl_pcs k)[0 := 0], sl_cpu := None\<rparr>) s"
  let ?s2 = "release_clear l ?s1"
  let ?s3 = "set_cpu me (\<lambda>x. x\<lparr>ncli := ncli x - 1\<rparr>) ?s2"
  have "holding me l s = Inr (True, s)"
    using held by (simp add: holding_def held_def mycpu_me [OF me off])
  then have "release me l s = popcli me ?s2"
    by (simp add: release_def release_begin_def)
  moreover have "mycpu me ?s2 = Inr (me, ?s2)"
    by (rule mycpu_me) (simp_all add: release_clear_def set_lock_def me off)
  moreover have n: "ncli (cpus ?s3 ! me) = int (card (held me s - {l}))"
  proof -
    have "card (held me s) = Suc (card (held me s - {l}))"
      using held fin by (metis card_Suc_Diff1)
    then show ?thesis
      using inv len by (simp add: cpu_inv_def set_cpu_def release_clear_def set_lock_def)
  qed
  moreover have "(int (card (held me s - {l})) = 0) = (held me s - {l} = {})"
    using fin by (simp only: of_nat_eq_0_iff card_eq_0_iff finite_Diff) simp
  moreover have i: "intena (cpus ?s3 ! me) = if0"
    using inv held len
    by (auto simp: cpu_inv_def set_cpu_def release_clear_def set_lock_def split: if_splits)
  moreover have "\<not> hw_if ?s2 me" using off by (simp add: release_clear_def set_lock_def)
  ultimately have rel: "release me l s =
      Inr ((), if held me s - {l} = {} \<and> if0 then sti me ?s3 else ?s3)"
    by (simp only: popcli_def Let_def bindE_Inr if_False) simp
  have h3: "held me ?s3 = held me s - {l}"
    by (auto simp: held_def set_cpu_def release_clear_def set_lock_def)
  have "held me (if held me s - {l} = {} \<and> if0 then sti me ?s3 else ?s3) = held me s - {l}"
    using h3 by (simp add: held_def)
  moreover have "cpu_inv if0 me (if held me s - {l} = {} \<and> if0 then sti me ?s3 else ?s3)"
    using inv h3 n i off me fin
    by (auto simp: cpu_inv_def held_def sti_def set_cpu_def release_clear_def set_lock_def
        first_index_upd_apicid)
  ultimately show ?thesis using rel by blast
qed

lemma cpu_inv_flag: "cpu_inv if0 me s \<Longrightarrow> held me s = {} \<Longrightarrow> hw_if s me = if0"
  by (simp add: cpu_inv_def)

text \<open>C6. Refinement.  On a CPU whose bookkeeping is consistent, \<open>acquire\<close> and \<open>release\<close> with
  their interrupt counting and lock words do exactly what the set-of-held-locks operations
  do, including the two panics, and keep the bookkeeping consistent; in particular the
  interrupt flag is again \<open>if0\<close> as soon as no lock is held.\<close>

theorem spinlock_refines_lock_set:
  assumes "cpu_inv if0 me s" and "klk t = held me s"
  shows "(case lk_acquire l t of
            Inl e \<Rightarrow> acquire frame me l s = Inl e
          | Inr (_, t') \<Rightarrow> \<exists>s'. acquire frame me l s = Inr ((), s') \<and> cpu_inv if0 me s' \<and>
              klk t' = held me s') \<and>
         (case lk_release l t of
            Inl e \<Rightarrow> release me l s = Inl e
          | Inr (_, t') \<Rightarrow> \<exists>s'. release me l s = Inr ((), s') \<and> cpu_inv if0 me s' \<and>
              klk t' = held me s' \<and> (held me s' = {} \<longrightarrow> hw_if s' me = if0))"
proof
  show "case lk_acquire l t of
           Inl e \<Rightarrow> acquire frame me l s = Inl e
         | Inr (_, t') \<Rightarrow> \<exists>s'. acquire frame me l s = Inr ((), s') \<and> cpu_inv if0 me s' \<and>
             klk t' = held me s'"
    using acquire_held [OF assms(1), of l frame] acquire_free [OF assms(1), of l frame] assms(2)
    by (auto simp: lk_acquire_def)
  show "case lk_release l t of
           Inl e \<Rightarrow> release me l s = Inl e
         | Inr (_, t') \<Rightarrow> \<exists>s'. release me l s = Inr ((), s') \<and> cpu_inv if0 me s' \<and>
             klk t' = held me s' \<and> (held me s' = {} \<longrightarrow> hw_if s' me = if0)"
  proof (cases "l \<in> held me s")
    case True
    from release_held [OF assms(1) True] True assms(2) show ?thesis
      using cpu_inv_flag by (fastforce simp: lk_release_def)
  qed (use release_not_held [OF assms(1)] assms(2) in \<open>simp add: lk_release_def\<close>)
qed

theorem spinlock_refines_lock_set_witness:
  "\<exists>s'. acquire 0 0 PtableLock up_state = Inr ((), s') \<and> held 0 s' = {PtableLock} \<and>
     cpu_inv True 0 s'"
proof -
  have "cpu_inv True 0 up_state" "klk \<lparr>klk = {}\<rparr> = held 0 up_state"
    by (simp_all add: cpu_inv_def up_state_def held_def)
  from spinlock_refines_lock_set [OF this, where l = PtableLock and frame = 0] show ?thesis
    by (auto simp: lk_acquire_def)
qed

end
