(* ===== verification/Ptable.thy ===== *)
theory Ptable
  imports Spinlock
begin

text \<open>
  The process table (\<open>proc.h\<close>, and the part of \<open>proc.c\<close> that only touches it): process states,
  the scheduler's switch into and out of a process, \<open>sleep\<close>, \<open>wakeup\<close>, \<open>yield\<close> and \<open>kill\<close>.  The
  operations that create and destroy processes are in theory \<open>Proc\<close>, on top of the memory
  and file components.  A pointer to a process is its index in the table.  \<open>cur\<close> is the process
  field of the CPU that executes; \<open>sleep\<close> is cut where it calls \<open>sched\<close>: \<open>sleep_enter\<close> gives up
  the CPU and \<open>sleep_return\<close> is what runs when the process is scheduled again.
\<close>

section \<open>Data\<close>

definition NPROC :: nat where "NPROC = 64"
definition NOFILE :: nat where "NOFILE = 16"
definition KSTACKSIZE :: u32 where "KSTACKSIZE = 4096"

datatype procstate = UNUSED | EMBRYO | SLEEPING | RUNNABLE | RUNNING | ZOMBIE

record proc =
  p_sz :: u32
  p_pgdir :: u32
  p_kstack :: u32
  p_state :: procstate
  p_pid :: u32
  p_parent :: "nat option"
  p_tf :: u32
  p_context :: u32
  p_chan :: "chan option"
  p_killed :: bool
  p_ofile :: "nat option list"
  p_cwd :: "nat option"
  p_name :: "u8 list"

text \<open>\<open>ts_esp0\<close>, \<open>ts_ss0\<close> and \<open>ts_iomb\<close> are the fields of the CPU's task state segment that the
  kernel writes, \<open>cr3\<close> the page-table register, \<open>kpgdir\<close> the kernel-only page table.\<close>

record ptab = kbase +
  ptable :: "proc list"
  nextpid :: u32
  initproc :: "nat option"
  cur :: "nat option"
  ts_esp0 :: u32
  ts_ss0 :: u16
  ts_iomb :: u16
  cr3 :: u32
  kpgdir :: u32

definition set_proc :: "nat \<Rightarrow> (proc \<Rightarrow> proc) \<Rightarrow> 'a ptab_scheme \<Rightarrow> 'a ptab_scheme" where
  "set_proc i f s = s\<lparr>ptable := (ptable s)[i := f (ptable s ! i)]\<rparr>"

section \<open>Address-space switches\<close>

definition V2P :: "u32 \<Rightarrow> u32" where "V2P a = a - KERNBASE"
definition P2V :: "u32 \<Rightarrow> u32" where "P2V a = a + KERNBASE"

definition SEG_KDATA :: u16 where "SEG_KDATA = 2"

definition switchkvm :: "'a ptab_scheme \<Rightarrow> 'a ptab_scheme" where
  "switchkvm s = s\<lparr>cr3 := V2P (kpgdir s)\<rparr>"

definition switchuvm :: "nat option \<Rightarrow> 'a ptab_scheme \<Rightarrow> (unit, 'a ptab_scheme) kresult" where
  "switchuvm po s =
     (case po of
        None \<Rightarrow> Inl (Panic ''switchuvm: no process'')
      | Some p \<Rightarrow>
          if p_kstack (ptable s ! p) = 0 then Inl (Panic ''switchuvm: no kstack'')
          else if p_pgdir (ptable s ! p) = 0 then Inl (Panic ''switchuvm: no pgdir'')
          else Inr ((), s\<lparr>ts_ss0 := push_bit 3 SEG_KDATA,
                 ts_esp0 := p_kstack (ptable s ! p) + KSTACKSIZE,
                 ts_iomb := 0xFFFF,
                 cr3 := V2P (p_pgdir (ptable s ! p))\<rparr>))"

section \<open>Scheduling\<close>

text \<open>\<open>sched\<close> gives the CPU back to the scheduler, which clears \<open>c->proc\<close>.  Its fourth test,
  that interrupts are off, cannot fail here: they are off while a spin lock is held.\<close>

definition sched :: "'a ptab_scheme \<Rightarrow> (unit, 'a ptab_scheme) kresult" where
  "sched s =
     (if PtableLock \<notin> klk s then Inl (Panic ''sched ptable.lock'')
      else if klk s \<noteq> {PtableLock} then Inl (Panic ''sched locks'')
      else case cur s of
             None \<Rightarrow> Inl BadAccess
           | Some p \<Rightarrow>
               if p_state (ptable s ! p) = RUNNING then Inl (Panic ''sched running'')
               else Inr ((), (switchkvm s)\<lparr>cur := None\<rparr>))"

definition yield_enter :: "'a ptab_scheme \<Rightarrow> (unit, 'a ptab_scheme) kresult" where
  "yield_enter s =
     bindE (lk_acquire PtableLock s) (\<lambda>_ s.
       case cur s of
         None \<Rightarrow> Inl BadAccess
       | Some p \<Rightarrow> sched (set_proc p (\<lambda>x. x\<lparr>p_state := RUNNABLE\<rparr>) s))"

definition yield_return :: "'a ptab_scheme \<Rightarrow> (unit, 'a ptab_scheme) kresult" where
  "yield_return s = lk_release PtableLock s"

definition sleep_enter ::
  "chan \<Rightarrow> lockid option \<Rightarrow> 'a ptab_scheme \<Rightarrow> (unit, 'a ptab_scheme) kresult" where
  "sleep_enter chan lk s =
     (case cur s of
        None \<Rightarrow> Inl (Panic ''sleep'')
      | Some p \<Rightarrow>
          (case lk of
             None \<Rightarrow> Inl (Panic ''sleep without lk'')
           | Some l \<Rightarrow>
               bindE (if l \<noteq> PtableLock
                      then bindE (lk_acquire PtableLock s) (\<lambda>_ s. lk_release l s)
                      else Inr ((), s)) (\<lambda>_ s.
               sched (set_proc p (\<lambda>x. x\<lparr>p_chan := Some chan, p_state := SLEEPING\<rparr>) s))))"

definition sleep_return :: "nat \<Rightarrow> lockid \<Rightarrow> 'a ptab_scheme \<Rightarrow> (unit, 'a ptab_scheme) kresult" where
  "sleep_return p l s =
     (let s = set_proc p (\<lambda>x. x\<lparr>p_chan := None\<rparr>) s in
      if l \<noteq> PtableLock
      then bindE (lk_release PtableLock s) (\<lambda>_ s. lk_acquire l s)
      else Inr ((), s))"

lemma sleep_enter_eq:
  assumes "klk s = {l}" and "l \<noteq> PtableLock" and "cur s = Some i" and "i < length (ptable s)"
  shows "sleep_enter c (Some l) s =
    Inr ((), (switchkvm (set_proc i (\<lambda>x. x\<lparr>p_chan := Some c, p_state := SLEEPING\<rparr>) (s\<lparr>klk := {PtableLock}\<rparr>)))\<lparr>cur := None\<rparr>)"
proof -
  have "insert PtableLock {l} - {l} = {PtableLock}" using assms(2) by auto
  then show ?thesis using assms by (simp add: sleep_enter_def sched_def set_proc_def)
qed

text \<open>The scheduler's pass over the table.  \<open>run p\<close> stands for what process \<open>p\<close> does from the
  moment it is switched to until it calls \<open>sched\<close>.\<close>

definition dispatch :: "nat \<Rightarrow> 'a ptab_scheme \<Rightarrow> (unit, 'a ptab_scheme) kresult" where
  "dispatch p s =
     bindE (switchuvm (Some p) (s\<lparr>cur := Some p\<rparr>)) (\<lambda>_ s.
       Inr ((), set_proc p (\<lambda>x. x\<lparr>p_state := RUNNING\<rparr>) s))"

fun scheduler_loop ::
  "(nat \<Rightarrow> 'a ptab_scheme \<Rightarrow> (unit, 'a ptab_scheme) kresult) \<Rightarrow> nat list \<Rightarrow> 'a ptab_scheme \<Rightarrow>
     (unit, 'a ptab_scheme) kresult" where
  "scheduler_loop run [] s = Inr ((), s)"
| "scheduler_loop run (p # ps) s =
     (if p_state (ptable s ! p) \<noteq> RUNNABLE then scheduler_loop run ps s
      else bindE (dispatch p s) (\<lambda>_ s.
           bindE (run p s) (\<lambda>_ s. scheduler_loop run ps ((switchkvm s)\<lparr>cur := None\<rparr>))))"

definition scheduler_pass ::
  "(nat \<Rightarrow> 'a ptab_scheme \<Rightarrow> (unit, 'a ptab_scheme) kresult) \<Rightarrow> 'a ptab_scheme \<Rightarrow>
     (unit, 'a ptab_scheme) kresult" where
  "scheduler_pass run s =
     bindE (lk_acquire PtableLock s) (\<lambda>_ s.
     bindE (scheduler_loop run [0..<NPROC] s) (\<lambda>_ s. lk_release PtableLock s))"

section \<open>Wakeup and kill\<close>

definition wake_proc :: "chan option \<Rightarrow> proc \<Rightarrow> proc" where
  "wake_proc chan p =
     (if p_state p = SLEEPING \<and> p_chan p = chan then p\<lparr>p_state := RUNNABLE\<rparr> else p)"

definition wakeup1 :: "chan option \<Rightarrow> 'a ptab_scheme \<Rightarrow> 'a ptab_scheme" where
  "wakeup1 chan s = s\<lparr>ptable := map (wake_proc chan) (ptable s)\<rparr>"

definition wakeup :: "chan \<Rightarrow> 'a ptab_scheme \<Rightarrow> (unit, 'a ptab_scheme) kresult" where
  "wakeup chan s =
     bindE (lk_acquire PtableLock s) (\<lambda>_ s. lk_release PtableLock (wakeup1 (Some chan) s))"

definition kill :: "u32 \<Rightarrow> 'a ptab_scheme \<Rightarrow> (int, 'a ptab_scheme) kresult" where
  "kill pid s =
     bindE (lk_acquire PtableLock s) (\<lambda>_ s.
       case first_index (\<lambda>p. p_pid p = pid) (ptable s) of
         Some i \<Rightarrow>
           (let s = set_proc i (\<lambda>p. p\<lparr>p_killed := True,
                      p_state := (if p_state p = SLEEPING then RUNNABLE else p_state p)\<rparr>) s
            in bindE (lk_release PtableLock s) (\<lambda>_ s. Inr (0, s)))
       | None \<Rightarrow> bindE (lk_release PtableLock s) (\<lambda>_ s. Inr (-1, s)))"

section \<open>Closed forms used by the other components\<close>

lemma klk_wakeup1 [simp]: "klk (wakeup1 c s) = klk s"
  by (simp add: wakeup1_def)

lemma length_ptable_wakeup1 [simp]: "length (ptable (wakeup1 c s)) = length (ptable s)"
  by (simp add: wakeup1_def)

lemma wakeup_eq [simp]: "PtableLock \<notin> klk s \<Longrightarrow> wakeup c s = Inr ((), wakeup1 (Some c) s)"
  by (simp add: wakeup_def wakeup1_def)

lemma wake_proc_fields [simp]:
  "p_pid (wake_proc c p) = p_pid p" "p_parent (wake_proc c p) = p_parent p"
  "p_killed (wake_proc c p) = p_killed p" "p_ofile (wake_proc c p) = p_ofile p"
  "p_cwd (wake_proc c p) = p_cwd p" "p_sz (wake_proc c p) = p_sz p"
  "p_pgdir (wake_proc c p) = p_pgdir p" "p_kstack (wake_proc c p) = p_kstack p"
  "p_tf (wake_proc c p) = p_tf p" "p_chan (wake_proc c p) = p_chan p"
  by (simp_all add: wake_proc_def)

text \<open>Waking processes changes nothing but \<open>SLEEPING\<close> to \<open>RUNNABLE\<close>.\<close>

definition wakes :: "proc \<Rightarrow> proc \<Rightarrow> bool" where
  "wakes p q \<longleftrightarrow> q = p \<or> p_state p = SLEEPING \<and> q = p\<lparr>p_state := RUNNABLE\<rparr>"

definition woken :: "proc list \<Rightarrow> proc list \<Rightarrow> bool" where
  "woken T T' \<longleftrightarrow> list_all2 wakes T T'"

lemma wakes_trans: "wakes p q \<Longrightarrow> wakes q r \<Longrightarrow> wakes p r"
  by (auto simp: wakes_def)

lemma woken_refl [simp]: "woken T T"
  by (simp add: woken_def list_all2_refl wakes_def)

lemma woken_trans: "woken T T' \<Longrightarrow> woken T' T'' \<Longrightarrow> woken T T''"
  unfolding woken_def using list_all2_trans [of wakes wakes wakes T T' T''] wakes_trans by blast

lemma woken_wakeup1: "woken (ptable s) (ptable (wakeup1 c s))"
  by (auto simp: woken_def wakeup1_def list_all2_conv_all_nth wake_proc_def wakes_def)

end
