(* ===== verification/Cstring.thy ===== *)
theory Cstring
  imports Prelude
begin

text \<open>
  The kernel's C library (\<open>string.c\<close>).  The block routines \<open>memset\<close>, \<open>memmove\<close> and \<open>memcmp\<close> work
  on a byte memory indexed by 32 bit addresses, so that overlap and address wrap-around are in
  the model.  The string routines work on character arrays (functions from the index, a C
  pointer seen from where it points) and are translated loop by loop.
\<close>

type_synonym memory = "u32 \<Rightarrow> u8"

section \<open>Block routines\<close>

fun stosb :: "memory \<Rightarrow> u32 \<Rightarrow> u8 \<Rightarrow> nat \<Rightarrow> memory" where
  "stosb m a c 0 = m"
| "stosb m a c (Suc n) = stosb (m(a := c)) (a + 1) c n"

definition put32 :: "memory \<Rightarrow> u32 \<Rightarrow> u32 \<Rightarrow> memory" where
  "put32 m a w = m(a := byte_of 0 w, a + 1 := byte_of 1 w, a + 2 := byte_of 2 w,
                   a + 3 := byte_of 3 w)"

definition get32 :: "memory \<Rightarrow> u32 \<Rightarrow> u32" where
  "get32 m a = le32 (m a) (m (a + 1)) (m (a + 2)) (m (a + 3))"

fun stosl :: "memory \<Rightarrow> u32 \<Rightarrow> u32 \<Rightarrow> nat \<Rightarrow> memory" where
  "stosl m a w 0 = m"
| "stosl m a w (Suc n) = stosl (put32 m a w) (a + 4) w n"

definition memset :: "memory \<Rightarrow> u32 \<Rightarrow> u32 \<Rightarrow> u32 \<Rightarrow> memory" where
  "memset m dst c n =
     (if dst mod 4 = 0 \<and> n mod 4 = 0
      then (let c = c AND 0xFF in
            stosl m dst (push_bit 24 c OR push_bit 16 c OR push_bit 8 c OR c) (unat (n div 4)))
      else stosb m dst (ucast c) (unat n))"

fun copy_up :: "memory \<Rightarrow> u32 \<Rightarrow> u32 \<Rightarrow> nat \<Rightarrow> memory" where
  "copy_up m d s 0 = m"
| "copy_up m d s (Suc n) = copy_up (m(d := m s)) (d + 1) (s + 1) n"

fun copy_down :: "memory \<Rightarrow> u32 \<Rightarrow> u32 \<Rightarrow> nat \<Rightarrow> memory" where
  "copy_down m d s 0 = m"
| "copy_down m d s (Suc n) = copy_down (m(d - 1 := m (s - 1))) (d - 1) (s - 1) n"

definition memmove :: "memory \<Rightarrow> u32 \<Rightarrow> u32 \<Rightarrow> u32 \<Rightarrow> memory" where
  "memmove m dst src n =
     (if src < dst \<and> src + n > dst
      then copy_down m (dst + n) (src + n) (unat n)
      else copy_up m dst src (unat n))"

definition memcpy :: "memory \<Rightarrow> u32 \<Rightarrow> u32 \<Rightarrow> u32 \<Rightarrow> memory" where
  "memcpy m dst src n = memmove m dst src n"

fun memcmp :: "memory \<Rightarrow> u32 \<Rightarrow> u32 \<Rightarrow> nat \<Rightarrow> int" where
  "memcmp m s1 s2 0 = 0"
| "memcmp m s1 s2 (Suc n) =
     (if m s1 \<noteq> m s2 then uint (m s1) - uint (m s2) else memcmp m (s1 + 1) (s2 + 1) n)"

section \<open>String routines\<close>

fun strncmp_at :: "block \<Rightarrow> block \<Rightarrow> nat \<Rightarrow> nat \<Rightarrow> int" where
  "strncmp_at p q i 0 = 0"
| "strncmp_at p q i (Suc n) =
     (if p i \<noteq> 0 \<and> p i = q i then strncmp_at p q (Suc i) n else uint (p i) - uint (q i))"

definition strncmp :: "block \<Rightarrow> block \<Rightarrow> nat \<Rightarrow> int" where
  "strncmp p q n = strncmp_at p q 0 n"

fun fill_zero :: "block \<Rightarrow> nat \<Rightarrow> nat \<Rightarrow> block" where
  "fill_zero s i 0 = s"
| "fill_zero s i (Suc n) = fill_zero (s(i := 0)) (Suc i) n"

fun strncpy_at :: "block \<Rightarrow> block \<Rightarrow> nat \<Rightarrow> nat \<Rightarrow> block" where
  "strncpy_at s t i 0 = s"
| "strncpy_at s t i (Suc n) =
     (let s = s(i := t i) in
      if t i \<noteq> 0 then strncpy_at s t (Suc i) n else fill_zero s (Suc i) n)"

definition strncpy :: "block \<Rightarrow> block \<Rightarrow> nat \<Rightarrow> block" where
  "strncpy s t n = strncpy_at s t 0 n"

text \<open>\<open>safestrcpy\<close>: the argument of the loop is the value of \<open>n\<close> after the decrement.\<close>

fun safestrcpy_at :: "block \<Rightarrow> block \<Rightarrow> nat \<Rightarrow> nat \<Rightarrow> block" where
  "safestrcpy_at s t i 0 = s(i := 0)"
| "safestrcpy_at s t i (Suc n) =
     (let s = s(i := t i) in
      if t i \<noteq> 0 then safestrcpy_at s t (Suc i) n else s(Suc i := 0))"

definition safestrcpy :: "block \<Rightarrow> block \<Rightarrow> int \<Rightarrow> block" where
  "safestrcpy s t n = (if n \<le> 0 then s else safestrcpy_at s t 0 (nat n - 1))"

partial_function (option) strlen_from :: "block \<Rightarrow> nat \<Rightarrow> nat option" where
  "strlen_from s n = (if s n = 0 then Some n else strlen_from s (Suc n))"

definition strlen :: "block \<Rightarrow> nat option" where
  "strlen s = strlen_from s 0"


lemma unat_m1: "unat (- 1 :: u32) = 4294967295"
  by (simp add: unsigned_minus_1_eq_mask mask_eq_exp_minus_1)

lemma unat_dec: "d \<noteq> 0 \<Longrightarrow> unat d = Suc (unat (d - 1 :: u32))"
  by (simp add: unat_minus_one unat_gt_0)

lemma stosb_at:
  "n \<le> 2 ^ 32 \<Longrightarrow> stosb m a c n (a + d) = (if unat d < n then c else m (a + d))"
proof (induction n arbitrary: m a d)
  case (Suc n)
  have "stosb m a c (Suc n) (a + d) = stosb (m(a := c)) (a + 1) c n ((a + 1) + (d - 1))"
    by simp
  also have "\<dots> = (if unat (d - 1) < n then c else (m(a := c)) (a + d))"
    using Suc.prems by (subst Suc.IH) simp_all
  also have "\<dots> = (if unat d < Suc n then c else m (a + d))"
    using Suc.prems by (cases "d = 0") (simp_all add: unat_dec [of d] unat_m1)
  finally show ?case .
qed simp

lemma less4_cases:
  assumes "unat (d :: u32) < 4"
  obtains "d = 0" | "d = 1" | "d = 2" | "d = 3"
proof -
  from assms consider "unat d = 0" | "unat d = 1" | "unat d = 2" | "unat d = 3" by linarith
  then show ?thesis by cases (rule that; simp add: word_unat_eq_iff; fail)+
qed

lemma put32_at: "put32 m a w (a + d) = (if unat d < 4 then byte_of (unat d) w else m (a + d))"
proof (cases "unat d < 4")
  case True
  then show ?thesis by (cases rule: less4_cases) (simp_all add: put32_def)
next
  case False
  then have "d \<noteq> 0" "d \<noteq> 1" "d \<noteq> 2" "d \<noteq> 3" by auto
  with False show ?thesis by (simp add: put32_def)
qed

lemma get32_put32_same [simp]: "get32 (put32 m a w) a = w"
  by (simp add: get32_def put32_def)

lemma unat_sub4:
  fixes d :: u32
  shows "unat (d - 4) = (if unat d < 4 then unat d + 4294967292 else unat d - 4)"
  by (simp add: unat_sub_if_size word_size word_le_nat_alt)

lemma stosl_at:
  "4 * n \<le> 2 ^ 32 \<Longrightarrow>
   stosl m a w n (a + d) = (if unat d < 4 * n then byte_of (unat d mod 4) w else m (a + d))"
proof (induction n arbitrary: m a d)
  case (Suc n)
  have "stosl m a w (Suc n) (a + d) = stosl (put32 m a w) (a + 4) w n ((a + 4) + (d - 4))"
    by simp
  also have "\<dots> = (if unat (d - 4) < 4 * n then byte_of (unat (d - 4) mod 4) w
                    else put32 m a w (a + d))"
    using Suc.prems by (subst Suc.IH) simp_all
  also have "\<dots> = (if unat d < 4 * Suc n then byte_of (unat d mod 4) w else m (a + d))"
  proof (cases "unat d < 4")
    case True
    with Suc.prems show ?thesis by (simp add: put32_at unat_sub4)
  next
    case False
    then have "(unat d - 4) mod 4 = unat d mod 4" by presburger
    with False show ?thesis by (auto simp add: put32_at unat_sub4)
  qed
  finally show ?case .
qed simp

lemma byte_of_rep:
  assumes "k < 4"
  shows "byte_of k (push_bit 24 (c AND 0xFF) OR push_bit 16 (c AND 0xFF) OR
           push_bit 8 (c AND 0xFF) OR (c AND 0xFF)) = ucast c"
proof -
  have 255: "(0xFF :: u32) = mask 8" by (simp add: mask_eq_exp_minus_1)
  from assms consider "k = 0" | "k = 1" | "k = 2" | "k = 3" by linarith
  then show ?thesis unfolding 255
    by cases (rule bit_word_eqI; auto simp: byte_of_def bit_simps)+
qed

lemma unat_le_2p32: "unat (n :: u32) \<le> 2 ^ 32"
  using unsigned_less [where ?'a = nat, of n] by simp

lemma memset_at:
  "memset m dst c n (dst + d) = (if unat d < unat n then ucast c else m (dst + d))"
proof (cases "dst mod 4 = 0 \<and> n mod 4 = 0")
  case True
  then have "unat (n mod 4) = 0" by simp
  then have "unat n mod 4 = 0" by (simp add: unat_mod_distrib)
  then have n: "4 * unat (n div 4) = unat n"
    by (simp add: unat_div_distrib) presburger
  with unat_le_2p32 [of n] have "4 * unat (n div 4) \<le> 2 ^ 32" by simp
  note st = stosl_at [OF this]
  have "unat d mod 4 < 4" by simp
  with True show ?thesis
    by (simp only: memset_def Let_def if_True simp_thms st n byte_of_rep)
next
  case False
  then show ?thesis by (simp only: memset_def stosb_at [OF unat_le_2p32] if_False)
qed

text \<open>\<open>memset\<close> with word stores on aligned memory does what the byte loop does.\<close>

lemma memset_fills:
  "memset m dst c n = (\<lambda>a. if unat (a - dst) < unat n then ucast c else m a)"
proof
  fix a
  show "memset m dst c n a = (if unat (a - dst) < unat n then ucast c else m a)"
    using memset_at [of m dst c n "a - dst"] by simp
qed

lemma copy_up_at:
  assumes "\<And>i. 0 < i \<Longrightarrow> i < n \<Longrightarrow> d \<noteq> s + of_nat i" and "n \<le> 2 ^ 32"
  shows "copy_up m d s n (d + e) = (if unat e < n then m (s + e) else m (d + e))"
  using assms
proof (induction n arbitrary: m d s e)
  case (Suc n)
  have "d + 1 \<noteq> s + 1 + of_nat i" if "0 < i" "i < n" for i
    using Suc.prems(1) [of i] that by auto
  then have IH: "copy_up (m(d := m s)) (d + 1) (s + 1) n ((d + 1) + (e - 1)) =
      (if unat (e - 1) < n then (m(d := m s)) ((s + 1) + (e - 1))
       else (m(d := m s)) ((d + 1) + (e - 1)))"
    using Suc.prems(2) by (intro Suc.IH) simp_all
  have "copy_up m d s (Suc n) (d + e) = copy_up (m(d := m s)) (d + 1) (s + 1) n ((d + 1) + (e - 1))"
    by simp
  also have "\<dots> = (if unat (e - 1) < n then (m(d := m s)) (s + e) else (m(d := m s)) (d + e))"
    unfolding IH by simp
  also have "\<dots> = (if unat e < Suc n then m (s + e) else m (d + e))"
  proof (cases "e = 0")
    case True
    then show ?thesis using Suc.prems(2) by (simp add: unat_m1)
  next
    case False
    have "s + e \<noteq> d" if "unat e < Suc n"
      using Suc.prems(1) [of "unat e"] that False by (auto simp: unat_gt_0 word_neq_0_conv)
    with False show ?thesis by (simp add: unat_dec [of e])
  qed
  finally show ?case .
qed simp

lemma copy_down_at:
  assumes "\<And>i. 0 < i \<Longrightarrow> i < n \<Longrightarrow> s \<noteq> d + of_nat i" and "n \<le> 2 ^ 32"
  shows "copy_down m d s n (d - 1 - e) = (if unat e < n then m (s - 1 - e) else m (d - 1 - e))"
  using assms
proof (induction n arbitrary: m d s e)
  case (Suc n)
  let ?m = "m(d - 1 := m (s - 1))"
  have "s - 1 \<noteq> d - 1 + of_nat i" if "0 < i" "i < n" for i
    using Suc.prems(1) [of i] that by auto
  then have IH: "copy_down ?m (d - 1) (s - 1) n (d - 1 - 1 - (e - 1)) =
      (if unat (e - 1) < n then ?m (s - 1 - 1 - (e - 1)) else ?m (d - 1 - 1 - (e - 1)))"
    using Suc.prems(2) by (intro Suc.IH) simp_all
  have "copy_down m d s (Suc n) (d - 1 - e) = copy_down ?m (d - 1) (s - 1) n (d - 1 - 1 - (e - 1))"
    by (simp add: algebra_simps)
  also have "\<dots> = (if unat (e - 1) < n then ?m (s - 1 - e) else ?m (d - 1 - e))"
    unfolding IH by (simp add: algebra_simps)
  also have "\<dots> = (if unat e < Suc n then m (s - 1 - e) else m (d - 1 - e))"
  proof (cases "e = 0")
    case True
    then show ?thesis using Suc.prems(2) by (simp add: unat_m1)
  next
    case False
    have "s - 1 - e \<noteq> d - 1" if "unat e < Suc n"
      using Suc.prems(1) [of "unat e"] that False
      by (auto simp: unat_gt_0 word_neq_0_conv algebra_simps)
    with False show ?thesis by (simp add: unat_dec [of e])
  qed
  finally show ?case .
qed simp

lemma unat_plus_nat: "unat a + i < 2 ^ 32 \<Longrightarrow> unat (a + of_nat i :: u32) = unat a + i"
  by (simp add: unat_word_ariths unat_of_nat)

lemma put32_outside:
  assumes "unat a + 4 \<le> 2 ^ 32" and "unat x < unat a \<or> unat a + 4 \<le> unat x"
  shows "put32 m a w x = m x"
proof -
  have "\<not> unat (x - a) < 4"
  proof
    assume e: "unat (x - a) < 4"
    then have "unat (a + (x - a)) = unat a + unat (x - a)" using assms(1) unat_plus_nat [of a "unat (x - a)"] by simp
    then show False using assms(2) e by simp
  qed
  then show ?thesis using put32_at [of m a w "x - a"] by simp
qed

lemma rev_offset:
  fixes n f :: u32
  shows "unat (n - 1 - f) < unat n \<longleftrightarrow> unat f < unat n"
  by unat_arith

text \<open>C14. \<open>memmove\<close> copies the \<open>n\<close> bytes at \<open>src\<close>, as they were before the call, to \<open>dst\<close> and changes
  nothing else, whether or not the two ranges overlap, provided neither runs past the end of
  the address space.\<close>

theorem memmove_moves:
  assumes "unat src + unat n < 2 ^ 32" and "unat dst + unat n \<le> 2 ^ 32"
  shows "memmove m dst src n =
           (\<lambda>a. if unat (a - dst) < unat n then m (src + (a - dst)) else m a)"
proof
  fix a
  show "memmove m dst src n a = (if unat (a - dst) < unat n then m (src + (a - dst)) else m a)"
  proof (cases "src < dst \<and> src + n > dst")
    case True
    let ?e = "dst + n - 1 - a"
    have nn: "src + n \<noteq> dst + n + of_nat i" if "0 < i" "i < unat n" for i
    proof
      assume "src + n = dst + n + of_nat i"
      then have "src = dst + of_nat i" by simp
      moreover have "unat dst + i < 2 ^ 32" using assms(2) that by linarith
      ultimately have "unat src = unat dst + i" by (simp only: unat_plus_nat)
      with True show False by (simp add: word_less_nat_alt)
    qed
    have "copy_down m (dst + n) (src + n) (unat n) (dst + n - 1 - ?e) =
        (if unat ?e < unat n then m (src + n - 1 - ?e) else m (dst + n - 1 - ?e))"
      by (rule copy_down_at [OF nn unat_le_2p32])
    moreover have "unat ?e < unat n \<longleftrightarrow> unat (a - dst) < unat n"
    proof -
      have "?e = n - 1 - (a - dst)" by simp
      then show ?thesis by (simp only:) (rule rev_offset)
    qed
    ultimately show ?thesis using True by (simp add: memmove_def algebra_simps)
  next
    case False
    have nn: "dst \<noteq> src + of_nat i" if "0 < i" "i < unat n" for i
    proof
      assume d: "dst = src + of_nat i"
      have "unat src + i < 2 ^ 32" using assms(1) that by linarith
      with d have "unat dst = unat src + i" by (simp only: unat_plus_nat)
      moreover have "unat (src + n) = unat src + unat n"
        using unat_plus_nat [of src "unat n"] assms(1) by simp
      ultimately show False using False that by (simp add: word_less_nat_alt)
    qed
    have "copy_up m dst src (unat n) (dst + (a - dst)) =
        (if unat (a - dst) < unat n then m (src + (a - dst)) else m (dst + (a - dst)))"
      by (rule copy_up_at [OF nn unat_le_2p32])
    then show ?thesis unfolding memmove_def if_not_P [OF False] by simp
  qed
qed

theorem memmove_moves_witness:
  "memmove (\<lambda>a. ucast a) 11 10 3 13 = 12 \<and> memmove (\<lambda>a. ucast a) 11 10 3 14 = 14"
proof -
  have "unat (10 :: u32) + unat (3 :: u32) < 2 ^ 32" "unat (11 :: u32) + unat (3 :: u32) \<le> 2 ^ 32"
    by simp_all
  from memmove_moves [OF this, of "\<lambda>a. ucast a"] show ?thesis by simp
qed

section \<open>Strings\<close>

text \<open>The characters of the array before its first NUL, at most \<open>n\<close>.\<close>

definition cstr :: "nat \<Rightarrow> block \<Rightarrow> u8 list" where
  "cstr n p = takeWhile (\<lambda>c. c \<noteq> 0) (map p [0..<n])"

definition cstr_at :: "nat \<Rightarrow> nat \<Rightarrow> block \<Rightarrow> u8 list" where
  "cstr_at i n p = takeWhile (\<lambda>c. c \<noteq> 0) (map p [i..<i + n])"

lemma cstr_at_0 [simp]: "cstr_at i 0 p = []"
  by (simp add: cstr_at_def)

lemma cstr_at_Suc: "cstr_at i (Suc n) p = (if p i = 0 then [] else p i # cstr_at (Suc i) n p)"
proof -
  have "[i..<i + Suc n] = i # [Suc i..<Suc i + n]"
    by (simp add: upt_conv_Cons del: upt_Suc)
  then show ?thesis by (simp add: cstr_at_def del: upt_Suc)
qed

lemma cstr_cstr_at: "cstr n p = cstr_at 0 n p"
  by (simp add: cstr_def cstr_at_def)

lemma strncmp_at_0_iff: "strncmp_at p q i n = 0 \<longleftrightarrow> cstr_at i n p = cstr_at i n q"
  by (induction n arbitrary: i)
     (auto simp: cstr_at_Suc unsigned_eq_0_iff dest: unsigned_word_eqI)

lemma strncmp_equal: "strncmp p q n = 0 \<longleftrightarrow> cstr n p = cstr n q"
  by (simp add: strncmp_def cstr_cstr_at strncmp_at_0_iff)

lemma fill_zero_eq: "fill_zero s i n = (\<lambda>j. if i \<le> j \<and> j < i + n then 0 else s j)"
  by (induction n arbitrary: s i) (auto simp: fun_eq_iff)

lemma strncpy_at_outside: "j < i \<or> i + n \<le> j \<Longrightarrow> strncpy_at s t i n j = s j"
  by (induction n arbitrary: s i) (auto simp: Let_def fill_zero_eq)

lemma strncpy_at_inside: "i \<le> j \<Longrightarrow> j < i + n \<Longrightarrow>
   strncpy_at s t i n j = (if j < i + length (cstr_at i n t) then t j else 0)"
proof (induction n arbitrary: s i)
  case (Suc n)
  show ?case
  proof (cases "t i = 0")
    case True
    with Suc.prems show ?thesis by (auto simp: Let_def fill_zero_eq cstr_at_Suc)
  next
    case False
    show ?thesis
    proof (cases "j = i")
      case True
      with False show ?thesis by (simp add: Let_def strncpy_at_outside cstr_at_Suc)
    next
      case neq: False
      with Suc.prems have "Suc i \<le> j" "j < Suc i + n" by auto
      from Suc.IH [OF this] False show ?thesis by (simp add: Let_def cstr_at_Suc)
    qed
  qed
qed simp

lemma strncpy_pads:
  "strncpy s t n = (\<lambda>i. if i < length (cstr n t) then t i else if i < n then 0 else s i)"
proof
  fix i
  have "length (cstr n t) \<le> n" unfolding cstr_def
    by (metis length_map length_takeWhile_le length_upt minus_nat.diff_0)
  then show "strncpy s t n i =
      (if i < length (cstr n t) then t i else if i < n then 0 else s i)"
    using strncpy_at_inside [of 0 i n s t] strncpy_at_outside [of i 0 n s t]
    by (simp add: strncpy_def cstr_cstr_at)
qed

lemma safestrcpy_at_outside: "j < i \<or> i + n < j \<Longrightarrow> safestrcpy_at s t i n j = s j"
  by (induction n arbitrary: s i) (auto simp: Let_def)

lemma cstr_at_safestrcpy:
  "cstr_at i (Suc n) (safestrcpy_at s t i n) = cstr_at i n t"
proof (induction n arbitrary: s i)
  case (Suc n)
  show ?case
  proof (cases "t i = 0")
    case False
    then show ?thesis
      by (simp add: cstr_at_Suc [of i] Let_def safestrcpy_at_outside Suc.IH)
  qed (simp add: Let_def cstr_at_Suc)
qed (simp add: cstr_at_Suc)

text \<open>C15. \<open>safestrcpy\<close> leaves a NUL-terminated string in the first \<open>n\<close> bytes, which is the source
  string cut at \<open>n - 1\<close> characters, and never writes at or beyond index \<open>n\<close>.\<close>

theorem safestrcpy_terminates_string:
  assumes "0 < n"
  shows "cstr (nat n) (safestrcpy s t n) = cstr (nat n - 1) t \<and>
         (\<forall>i. nat n \<le> i \<longrightarrow> safestrcpy s t n i = s i) \<and>
         (\<exists>i < nat n. safestrcpy s t n i = 0)"
proof -
  obtain k where k: "nat n = Suc k" using assms by (cases "nat n") auto
  have s: "safestrcpy s t n = safestrcpy_at s t 0 k"
    using assms k by (simp add: safestrcpy_def)
  have c: "cstr (Suc k) (safestrcpy_at s t 0 k) = cstr k t"
    by (simp add: cstr_cstr_at cstr_at_safestrcpy)
  have "\<exists>i < Suc k. safestrcpy_at s t 0 k i = 0"
  proof (rule ccontr)
    assume "\<not> ?thesis"
    then have "cstr (Suc k) (safestrcpy_at s t 0 k) = map (safestrcpy_at s t 0 k) [0..<Suc k]"
      unfolding cstr_def by (intro takeWhile_eq_all_conv [THEN iffD2]) auto
    then have "length (cstr k t) = Suc k" using c by (metis length_map length_upt minus_nat.diff_0)
    moreover have "length (cstr k t) \<le> k" unfolding cstr_def
      by (metis length_map length_takeWhile_le length_upt minus_nat.diff_0)
    ultimately show False by simp
  qed
  then show ?thesis using c k by (auto simp: s safestrcpy_at_outside)
qed

lemma strlen_from_eq:
  "s (i + k) = 0 \<Longrightarrow> (\<And>j. j < k \<Longrightarrow> s (i + j) \<noteq> 0) \<Longrightarrow> strlen_from s i = Some (i + k)"
proof (induction k arbitrary: i)
  case 0
  then show ?case by (subst strlen_from.simps) simp
next
  case (Suc k)
  have "strlen_from s (Suc i) = Some (Suc i + k)"
    using Suc.prems(1) Suc.prems(2) [of "Suc _"] by (intro Suc.IH) auto
  with Suc.prems(2) [of 0] show ?case by (subst strlen_from.simps) simp
qed

lemma strlen_finds_nul:
  assumes "\<exists>k. s k = 0"
  shows "strlen s = Some (LEAST k. s k = 0)"
  using strlen_from_eq [of s 0 "LEAST k. s k = 0"] LeastI_ex [OF assms] not_less_Least
  by (fastforce simp: strlen_def)

theorem safestrcpy_terminates_string_witness:
  "cstr 3 (safestrcpy (\<lambda>_. 7) (\<lambda>i. if i < 5 then 65 else 0) 3) = [65, 65] \<and>
   safestrcpy (\<lambda>_. 7) (\<lambda>i. if i < 5 then 65 else 0) 3 3 = 7"
proof -
  have p: "(0 :: int) < 3" by simp
  have e: "cstr 2 (\<lambda>i. if i < 5 then 65 else 0) = [65, 65]"
    by (simp add: cstr_def upt_rec)
  show ?thesis
    using safestrcpy_terminates_string [OF p, of "\<lambda>_. 7" "\<lambda>i. if i < 5 then 65 else 0"]
    by (simp add: e)
qed

lemma cstr_at_strncpy: "cstr_at i n (strncpy_at s t i n) = cstr_at i n t"
proof (induction n arbitrary: s i)
  case (Suc n)
  show ?case
    by (simp add: cstr_at_Suc Let_def strncpy_at_outside fill_zero_eq Suc.IH)
qed simp

lemma cstr_strncpy: "cstr n (strncpy s t n) = cstr n t"
  by (simp add: cstr_cstr_at strncpy_def cstr_at_strncpy)

end
