(* ===== verification/Console.thy ===== *)
theory Console
  imports Ptable Cstring
begin

text \<open>
  Console output (the output half of \<open>console.c\<close>, \<open>uart.c\<close>, \<open>ioapic.c\<close>, \<open>picirq.c\<close>).  The state holds the
  text screen \<open>crt\<close> with the cursor registers of the video controller, the bytes written to the
  ports of the serial line, the registers of the I/O APIC, and the line buffer that the input half (theory \<open>Consdev\<close>)
  works on.  Characters are bytes; \<open>consputc\<close> takes the C integer, where \<open>BACKSPACE\<close> is 256.
\<close>

section \<open>State\<close>

record cons = ptab +
  cons_locking :: bool
  panicked :: bool
  crt :: "nat \<Rightarrow> u16"
  cursor_hi :: u8
  cursor_lo :: u8
  uart :: bool
  com1 :: "(u16 \<times> u8) list"
  pic :: "(u16 \<times> u8) list"
  ioapic_reg :: "nat \<Rightarrow> u32"
  inp_buf :: "nat \<Rightarrow> u8"
  inp_r :: u32
  inp_w :: u32
  inp_e :: u32
  kbd_in :: "u8 list"
  kbd_shift :: u32
  com1_in :: "u8 list"

definition bytes :: "string \<Rightarrow> u8 list" where
  "bytes cs = map of_char cs"

section \<open>Interrupt controllers\<close>

definition T_IRQ0 :: u32 where "T_IRQ0 = 32"
definition IRQ_TIMER :: u32 where "IRQ_TIMER = 0"
definition IRQ_KBD :: u32 where "IRQ_KBD = 1"
definition IRQ_COM1 :: u32 where "IRQ_COM1 = 4"
definition IRQ_IDE :: u32 where "IRQ_IDE = 14"
definition IRQ_ERROR :: u32 where "IRQ_ERROR = 19"
definition IRQ_SPURIOUS :: u32 where "IRQ_SPURIOUS = 31"

definition REG_ID :: nat where "REG_ID = 0"
definition REG_VER :: nat where "REG_VER = 1"
definition REG_TABLE :: nat where "REG_TABLE = 16"
definition INT_DISABLED :: u32 where "INT_DISABLED = 0x10000"

definition ioapicread :: "nat \<Rightarrow> 'a cons_scheme \<Rightarrow> u32" where
  "ioapicread reg s = ioapic_reg s reg"

definition ioapicwrite :: "nat \<Rightarrow> u32 \<Rightarrow> 'a cons_scheme \<Rightarrow> 'a cons_scheme" where
  "ioapicwrite reg data s = s\<lparr>ioapic_reg := (ioapic_reg s)(reg := data)\<rparr>"

definition ioapicenable :: "u32 \<Rightarrow> u32 \<Rightarrow> 'a cons_scheme \<Rightarrow> 'a cons_scheme" where
  "ioapicenable irq cpunum s =
     ioapicwrite (REG_TABLE + 2 * unat irq + 1) (push_bit 24 cpunum)
       (ioapicwrite (REG_TABLE + 2 * unat irq) (T_IRQ0 + irq) s)"

definition picinit :: "'a cons_scheme \<Rightarrow> 'a cons_scheme" where
  "picinit s = s\<lparr>pic := pic s @ [(0x20 + 1, 0xFF), (0xA0 + 1, 0xFF)]\<rparr>"

section \<open>Serial line\<close>

text \<open>\<open>com1\<close> is the sequence of port writes, as offset from \<open>COM1\<close> and byte.  The bounded wait for
  the transmitter in \<open>uartputc\<close> has no other effect.\<close>

definition uartputc :: "int \<Rightarrow> 'a cons_scheme \<Rightarrow> 'a cons_scheme" where
  "uartputc c s = (if \<not> uart s then s else s\<lparr>com1 := com1 s @ [(0, of_int c)]\<rparr>)"

definition uartgetc :: "'a cons_scheme \<Rightarrow> int \<times> 'a cons_scheme" where
  "uartgetc s =
     (if \<not> uart s then (-1, s)
      else case com1_in s of
             [] \<Rightarrow> (-1, s)
           | b # bs \<Rightarrow> (uint b, s\<lparr>com1_in := bs\<rparr>))"

text \<open>\<open>status\<close> is what the line status port reads; 255 means that there is no serial port.
  The two port reads that acknowledge pending conditions drop a pending input byte.\<close>

definition uartinit :: "u8 \<Rightarrow> 'a cons_scheme \<Rightarrow> 'a cons_scheme" where
  "uartinit status s =
     (let s = s\<lparr>com1 := com1 s @
        [(2, 0), (3, 0x80), (0, 115200 div 9600), (1, 0), (3, 3), (4, 0), (1, 1)]\<rparr> in
      if status = 0xFF then s
      else
        let s = s\<lparr>uart := True, com1_in := tl (com1_in s)\<rparr>;
            s = ioapicenable IRQ_COM1 0 s
        in fold (\<lambda>b. uartputc (sint b)) (bytes ''xv6...'' @ [10]) s)"

section \<open>Screen\<close>

definition BACKSPACE :: int where "BACKSPACE = 0x100"

text \<open>\<open>memmove(crt, crt+80, 23*80 cells)\<close> and \<open>memset(crt+pos, 0, 24*80-pos cells)\<close>; the count of
  the latter is a size, so it would wrap if it were negative.\<close>

definition scroll :: "(nat \<Rightarrow> u16) \<Rightarrow> nat \<Rightarrow> nat \<Rightarrow> u16" where
  "scroll c pos =
     (\<lambda>k. let c1 = (if k < 23 * 80 then c (k + 80) else c k) in
          if pos \<le> k \<and> k < 24 * 80 then 0 else c1)"

definition cgaputc :: "int \<Rightarrow> 'a cons_scheme \<Rightarrow> (unit, 'a cons_scheme) kresult" where
  "cgaputc c s =
     (let pos = unat (cursor_hi s) * 256 + unat (cursor_lo s);
          r = (if c = 10 then (pos + (80 - pos mod 80), crt s)
               else if c = BACKSPACE then (if pos > 0 then pos - 1 else pos, crt s)
               else (pos + 1, (crt s)(pos := (of_int c AND 0xFF) OR 0x0700)));
          pos = fst r; v = snd r in
      if pos > 25 * 80 then Inl (Panic ''pos under/overflow'')
      else
        let q = (if pos div 80 \<ge> 24 then (pos - 80, scroll v (pos - 80)) else (pos, v));
            pos = fst q; v = snd q in
        Inr ((), s\<lparr>cursor_hi := of_nat (pos div 256), cursor_lo := of_nat pos,
                   crt := v(pos := 32 OR 0x0700)\<rparr>))"

definition consputc :: "int \<Rightarrow> 'a cons_scheme \<Rightarrow> (unit, 'a cons_scheme) kresult" where
  "consputc c s =
     (if panicked s then Inl Diverges
      else
        cgaputc c
          (if c = BACKSPACE then uartputc 8 (uartputc 32 (uartputc 8 s)) else uartputc c s))"

fun consputs :: "int list \<Rightarrow> 'a cons_scheme \<Rightarrow> (unit, 'a cons_scheme) kresult" where
  "consputs [] s = Inr ((), s)"
| "consputs (c # cs) s = bindE (consputc c s) (\<lambda>_ s. consputs cs s)"

text \<open>Output changes nothing but the screen, the cursor and the serial line.\<close>

lemma uartputc_frame: "\<exists>out. uartputc c s = s\<lparr>com1 := out\<rparr>"
proof (cases "uart s")
  case False
  then have "uartputc c s = s\<lparr>com1 := com1 s\<rparr>" by (simp add: uartputc_def)
  then show ?thesis by blast
qed (auto simp: uartputc_def)

lemma if_Inr: "(if b then Inl e else Inr (v, t)) = Inr (u, s') \<Longrightarrow> s' = t"
  by (simp split: if_split_asm)

lemma cgaputc_frame:
  assumes "cgaputc c s = Inr (u, s')"
  shows "\<exists>h l v. s' = s\<lparr>cursor_hi := h, cursor_lo := l, crt := v\<rparr>"
  using if_Inr [OF assms [unfolded cgaputc_def Let_def]] by blast

lemma consputc_frame:
  assumes "consputc c s = Inr (u, s')"
  shows "\<exists>out h l v. s' = s\<lparr>com1 := out, cursor_hi := h, cursor_lo := l, crt := v\<rparr>"
proof -
  define s1 where "s1 = (if c = BACKSPACE then uartputc 8 (uartputc 32 (uartputc 8 s)) else uartputc c s)"
  have "cgaputc c s1 = Inr (u, s')"
    using assms by (simp add: consputc_def s1_def split: if_split_asm)
  then obtain h l v where s': "s' = s1\<lparr>cursor_hi := h, cursor_lo := l, crt := v\<rparr>"
    using cgaputc_frame by blast
  have "\<exists>out. s1 = s\<lparr>com1 := out\<rparr>"
  proof (cases "c = BACKSPACE")
    case True
    obtain o1 where 1: "uartputc 8 s = s\<lparr>com1 := o1\<rparr>" using uartputc_frame by blast
    obtain o2 where 2: "uartputc 32 (s\<lparr>com1 := o1\<rparr>) = s\<lparr>com1 := o2\<rparr>"
      using uartputc_frame [of 32 "s\<lparr>com1 := o1\<rparr>"] by auto
    obtain o3 where 3: "uartputc 8 (s\<lparr>com1 := o2\<rparr>) = s\<lparr>com1 := o3\<rparr>"
      using uartputc_frame [of 8 "s\<lparr>com1 := o2\<rparr>"] by auto
    show ?thesis using True 1 2 3 by (auto simp: s1_def)
  next
    case False
    then show ?thesis using uartputc_frame by (simp add: s1_def)
  qed
  with s' show ?thesis by auto
qed

section \<open>Formatted output\<close>

text \<open>The digits of \<open>x\<close>, the last one first.  The callers pass the bases 10 and 16; with base 1 the
  loop would not end and with base 0 the division would trap.\<close>

definition digit :: "u32 \<Rightarrow> u8" where
  "digit d = bytes ''0123456789abcdef'' ! unat d"

lemma div_smaller:
  fixes x :: u32
  assumes "x div base \<noteq> 0" and "\<not> base \<le> 1"
  shows "unat (x div base) < unat x"
proof -
  have "unat (x div base) = unat x div unat base" by (simp add: unat_div_distrib)
  moreover have "1 < unat base" using assms(2) by (simp add: word_le_nat_alt)
  moreover have "0 < unat x" using assms(1) by (cases "x = 0") (simp_all add: unat_gt_0)
  ultimately show ?thesis by (simp add: div_less_dividend)
qed

function digits_rev :: "(u32 \<Rightarrow> u8) \<Rightarrow> u32 \<Rightarrow> u32 \<Rightarrow> u8 list" where
  "digits_rev dig base x =
     dig (x mod base) #
       (if x div base = 0 \<or> base \<le> 1 then [] else digits_rev dig base (x div base))"
  by pat_completeness auto
termination
  by (relation "measure (\<lambda>(dig, base, x). unat x)") (auto dest: div_smaller)

declare digits_rev.simps [simp del]

definition printint_buf :: "u32 \<Rightarrow> u32 \<Rightarrow> bool \<Rightarrow> u8 list" where
  "printint_buf xx base sign =
     (let neg = sign \<and> sint xx < 0;
          x = (if neg then - xx else xx)
      in digits_rev digit base x @ (if neg then bytes ''-'' else []))"

definition printint :: "u32 \<Rightarrow> u32 \<Rightarrow> bool \<Rightarrow> 'a cons_scheme \<Rightarrow> (unit, 'a cons_scheme) kresult" where
  "printint xx base sign s = consputs (map sint (rev (printint_buf xx base sign))) s"

text \<open>An argument of \<open>cprintf\<close> is a word or a string, possibly the null pointer.  A call with too
  few arguments or with the wrong kind reads garbage.\<close>

datatype carg = AInt u32 | AStr "u8 list option"

fun fmt_loop :: "u8 list \<Rightarrow> carg list \<Rightarrow> 'a cons_scheme \<Rightarrow> (unit, 'a cons_scheme) kresult" where
  "fmt_loop [] args s = Inr ((), s)"
| "fmt_loop (c # fmt) args s =
     (if c \<noteq> 37 then bindE (consputc (uint c) s) (\<lambda>_ s. fmt_loop fmt args s)
      else
        case fmt of
          [] \<Rightarrow> Inr ((), s)
        | c # fmt \<Rightarrow>
            (if c = of_char CHR ''d'' then
               (case args of
                  AInt x # args \<Rightarrow> bindE (printint x 10 True s) (\<lambda>_ s. fmt_loop fmt args s)
                | _ \<Rightarrow> Inl BadAccess)
             else if c = of_char CHR ''x'' \<or> c = of_char CHR ''p'' then
               (case args of
                  AInt x # args \<Rightarrow> bindE (printint x 16 False s) (\<lambda>_ s. fmt_loop fmt args s)
                | _ \<Rightarrow> Inl BadAccess)
             else if c = of_char CHR ''s'' then
               (case args of
                  AStr t # args \<Rightarrow>
                    bindE (consputs (map sint (case t of None \<Rightarrow> bytes ''(null)'' | Some t \<Rightarrow> t)) s) (\<lambda>_ s.
                    fmt_loop fmt args s)
                | _ \<Rightarrow> Inl BadAccess)
             else if c = 37 then bindE (consputc 37 s) (\<lambda>_ s. fmt_loop fmt args s)
             else bindE (consputc 37 s) (\<lambda>_ s.
                  bindE (consputc (uint c) s) (\<lambda>_ s. fmt_loop fmt args s))))"

definition cprintf :: "u8 list option \<Rightarrow> carg list \<Rightarrow> 'a cons_scheme \<Rightarrow> (unit, 'a cons_scheme) kresult" where
  "cprintf fmt args s =
     (let locking = cons_locking s in
      bindE (if locking then lk_acquire ConsLock s else Inr ((), s)) (\<lambda>_ s.
        case fmt of
          None \<Rightarrow> Inl (Panic ''null fmt'')
        | Some fmt \<Rightarrow>
            bindE (fmt_loop fmt args s) (\<lambda>_ s.
              if locking then lk_release ConsLock s else Inr ((), s))))"

text \<open>\<open>msg f\<close> is the format string \<open>f\<close>, in which a final \<open>!\<close> of the HOL string stands for the newline.\<close>

definition msg :: "string \<Rightarrow> u8 list option" where
  "msg f = Some (map (\<lambda>c. if c = CHR ''!'' then 10 else of_char c) f)"

definition ioapicinit :: "u8 \<Rightarrow> 'a cons_scheme \<Rightarrow> (unit, 'a cons_scheme) kresult" where
  "ioapicinit ioapicid s =
     (let maxintr = drop_bit 16 (ioapicread REG_VER s) AND 0xFF;
          id = drop_bit 24 (ioapicread REG_ID s) in
      bindE (if id \<noteq> ucast ioapicid
             then cprintf (msg ''ioapicinit: id isn't equal to ioapicid; not a MP!'') [] s
             else Inr ((), s)) (\<lambda>_ s.
      Inr ((), fold (\<lambda>i s. ioapicwrite (REG_TABLE + 2 * i + 1) 0
                      (ioapicwrite (REG_TABLE + 2 * i) (INT_DISABLED OR (T_IRQ0 + of_nat i)) s))
                 [0..<unat maxintr + 1] s)))"

text \<open>The output of \<open>panic\<close> before it stops the machine: \<open>pcs\<close> are the return addresses that
  \<open>getcallerpcs\<close> finds.  A run of the model that panics ends in \<open>Panic\<close> instead.\<close>

definition panic :: "u32 \<Rightarrow> u8 list \<Rightarrow> u32 list \<Rightarrow> 'a cons_scheme \<Rightarrow> (unit, 'a cons_scheme) kresult" where
  "panic lapicid msg0 pcs s =
     bindE (cprintf (msg ''lapicid %d: panic: '') [AInt lapicid] (s\<lparr>cons_locking := False\<rparr>)) (\<lambda>_ s.
     bindE (cprintf (Some msg0) [] s) (\<lambda>_ s.
     bindE (cprintf (msg ''!'') [] s) (\<lambda>_ s.
     bindE (fold (\<lambda>pc r. bindE r (\<lambda>_ s. cprintf (msg '' %p'') [AInt pc] s)) (take 10 pcs) (Inr ((), s))) (\<lambda>_ s.
     Inr ((), s\<lparr>panicked := True\<rparr>)))))"

end
