(* ===== verification/Interfaces.thy ===== *)
theory Interfaces
  imports Prelude
begin

text \<open>
  The contracts that several components of the kernel promise to their callers, as locales:
  a pool of resources that are allocated and freed (the pages of the page allocator), a bounded
  first-in first-out channel (\<open>pipewrite\<close> and \<open>piperead\<close>), and a transition system with an invariant
  (a pipe under the scheduler).  The lemmas about their clients are proved once here; the theories
  of the components interpret the locales on the translated C routines.
\<close>

section \<open>Pools of resources\<close>

fun take_n :: "('s \<Rightarrow> ('r \<times> 's) option) \<Rightarrow> nat \<Rightarrow> 's \<Rightarrow> ('r list \<times> 's) option" where
  "take_n alloc 0 s = Some ([], s)"
| "take_n alloc (Suc n) s =
     (case alloc s of None \<Rightarrow> None
      | Some (r, s) \<Rightarrow>
          (case take_n alloc n s of None \<Rightarrow> None | Some (rs, s) \<Rightarrow> Some (r # rs, s)))"

fun give_all :: "('r \<Rightarrow> 's \<Rightarrow> 's option) \<Rightarrow> 'r list \<Rightarrow> 's \<Rightarrow> 's option" where
  "give_all free [] s = Some s"
| "give_all free (r # rs) s = (case free r s of None \<Rightarrow> None | Some s \<Rightarrow> give_all free rs s)"

locale pool =
  fixes alloc :: "'s \<Rightarrow> ('r \<times> 's) option"
    and free :: "'r \<Rightarrow> 's \<Rightarrow> 's option"
    and avail :: "'s \<Rightarrow> 'r set"
    and owned :: "'s \<Rightarrow> 'r set"
    and inv :: "'s \<Rightarrow> bool"
  assumes finite_avail: "inv s \<Longrightarrow> finite (avail s)"
    and alloc_None: "inv s \<Longrightarrow> alloc s = None \<longleftrightarrow> avail s = {}"
    and alloc_Some: "inv s \<Longrightarrow> alloc s = Some (r, s') \<Longrightarrow>
          inv s' \<and> r \<in> avail s \<and> avail s' = avail s - {r} \<and> owned s' = insert r (owned s)"
    and free_ok: "inv s \<Longrightarrow> r \<in> owned s \<Longrightarrow>
          \<exists>s'. free r s = Some s' \<and> inv s' \<and> avail s' = insert r (avail s) \<and>
               owned s - {r} \<subseteq> owned s'"
begin

lemma take_n_ok:
  "inv s \<Longrightarrow> n \<le> card (avail s) \<Longrightarrow>
   \<exists>rs s'. take_n alloc n s = Some (rs, s') \<and> inv s' \<and> length rs = n \<and> distinct rs \<and>
     set rs \<subseteq> avail s \<and> avail s' = avail s - set rs \<and> owned s' = set rs \<union> owned s"
proof (induction n arbitrary: s)
  case (Suc n)
  then have "avail s \<noteq> {}" by auto
  then have "alloc s \<noteq> None" using alloc_None [OF Suc.prems(1)] by simp
  then obtain r s1 where a: "alloc s = Some (r, s1)" by (cases "alloc s") auto
  note A = alloc_Some [OF Suc.prems(1) a]
  have n: "n \<le> card (avail s1)"
    using A Suc.prems finite_avail [OF Suc.prems(1)] by (simp add: card_Diff_singleton_if)
  have "inv s1" using A by simp
  from Suc.IH [OF this n] obtain rs s' where rs: "take_n alloc n s1 = Some (rs, s')" "inv s'"
      "length rs = n" "distinct rs" "set rs \<subseteq> avail s1" "avail s' = avail s1 - set rs"
      "owned s' = set rs \<union> owned s1" by blast
  have "take_n alloc (Suc n) s = Some (r # rs, s')" using a rs by simp
  moreover have "distinct (r # rs)" "set (r # rs) \<subseteq> avail s" "avail s' = avail s - set (r # rs)"
      "owned s' = set (r # rs) \<union> owned s"
    using A rs by auto
  ultimately show ?case using rs(2,3) by (intro exI [of _ "r # rs"] exI [of _ s']) simp
qed simp

lemma give_all_ok:
  "inv s \<Longrightarrow> distinct rs \<Longrightarrow> set rs \<subseteq> owned s \<Longrightarrow>
   \<exists>s'. give_all free rs s = Some s' \<and> inv s' \<and> avail s' = set rs \<union> avail s"
proof (induction rs arbitrary: s)
  case (Cons r rs)
  then obtain s1 where s1: "free r s = Some s1" "inv s1" "avail s1 = insert r (avail s)"
      "owned s - {r} \<subseteq> owned s1" using free_ok [of s r] by auto
  with Cons.prems have "set rs \<subseteq> owned s1" by auto
  with Cons.IH [of s1] s1 Cons.prems show ?case by auto
qed simp

text \<open>Taking any number of resources that are available and giving them back leaks none.\<close>

lemma take_give:
  assumes "inv s" and "n \<le> card (avail s)"
  shows "\<exists>rs s1 s2. take_n alloc n s = Some (rs, s1) \<and> distinct rs \<and> length rs = n \<and>
    give_all free rs s1 = Some s2 \<and> inv s2 \<and> avail s2 = avail s"
proof -
  obtain rs s1 where rs: "take_n alloc n s = Some (rs, s1)" "inv s1" "length rs = n"
      "distinct rs" "set rs \<subseteq> avail s" "avail s1 = avail s - set rs"
      "owned s1 = set rs \<union> owned s"
    using take_n_ok [OF assms] by blast
  with give_all_ok [of s1 rs] obtain s2 where
    "give_all free rs s1 = Some s2" "inv s2" "avail s2 = set rs \<union> avail s1" by auto
  with rs show ?thesis by auto
qed

end

section \<open>Bounded first-in first-out channels\<close>

datatype 'x fifo_act = Put "'x list" | Get nat

text \<open>A sequence of calls on a channel that can be sent a list of items and asked for a number of them.  It fails as soon as a call
  does; otherwise the result is what was sent, what was received, and the final state.\<close>

fun fifo_run ::
  "('x list \<Rightarrow> 'q \<Rightarrow> (int, 'q) kresult) \<Rightarrow> (nat \<Rightarrow> 'q \<Rightarrow> (int \<times> 'x list, 'q) kresult) \<Rightarrow> 'x fifo_act list \<Rightarrow> 'q \<Rightarrow>
     ('x list \<times> 'x list, 'q) kresult" where
  "fifo_run put get [] q = Inr (([], []), q)"
| "fifo_run put get (Put xs # as) q =
     bindE (put xs q) (\<lambda>_ q. bindE (fifo_run put get as q) (\<lambda>r q. Inr ((xs @ fst r, snd r), q)))"
| "fifo_run put get (Get n # as) q =
     bindE (get n q) (\<lambda>y q. bindE (fifo_run put get as q) (\<lambda>r q. Inr ((fst r, snd y @ snd r), q)))"

locale fifo =
  fixes cap :: nat
    and put :: "'x list \<Rightarrow> 'q \<Rightarrow> (int, 'q) kresult"
    and get :: "nat \<Rightarrow> 'q \<Rightarrow> (int \<times> 'x list, 'q) kresult"
    and contents :: "'q \<Rightarrow> 'x list"
    and inv :: "'q \<Rightarrow> bool"
  assumes bounded: "inv q \<Longrightarrow> length (contents q) \<le> cap"
    and put_fits: "inv q \<Longrightarrow> length (contents q) + length xs \<le> cap \<Longrightarrow>
      \<exists>q'. put xs q = Inr (int (length xs), q') \<and> inv q' \<and> contents q' = contents q @ xs"
    and put_waits: "inv q \<Longrightarrow> cap < length (contents q) + length xs \<Longrightarrow> \<exists>e. put xs q = Inl e"
    and get_some: "inv q \<Longrightarrow> contents q \<noteq> [] \<Longrightarrow>
      \<exists>q'. get n q = Inr ((int (min n (length (contents q))), take n (contents q)), q') \<and> inv q' \<and>
        contents q' = drop n (contents q)"
    and get_waits: "inv q \<Longrightarrow> contents q = [] \<Longrightarrow> \<exists>e. get n q = Inl e"
begin

lemma put_InrD:
  assumes "inv q" and "put xs q = Inr (r, q')"
  shows "inv q' \<and> contents q' = contents q @ xs"
  using put_fits [OF assms(1), of xs] put_waits [OF assms(1), of xs] assms(2)
  by (cases "length (contents q) + length xs \<le> cap") auto

lemma get_InrD:
  assumes "inv q" and "get n q = Inr (y, q')"
  shows "inv q' \<and> snd y @ contents q' = contents q"
  using get_some [OF assms(1), of n] get_waits [OF assms(1), of n] assms(2)
  by (cases "contents q = []") auto

lemma run_order:
  "inv q \<Longrightarrow> fifo_run put get as q = Inr ((ins, outs), q') \<Longrightarrow>
   inv q' \<and> outs @ contents q' = contents q @ ins \<and> length (contents q') \<le> cap"
proof (induction as arbitrary: q ins outs)
  case (Cons a as)
  show ?case
  proof (cases a)
    case (Put xs)
    with Cons.prems(2) obtain r q1 ins1 where
      r: "put xs q = Inr (r, q1)" "fifo_run put get as q1 = Inr ((ins1, outs), q')" "ins = xs @ ins1" by auto
    from put_InrD [OF Cons.prems(1) r(1)] Cons.IH [of q1] r(2,3) show ?thesis by simp
  next
    case (Get n)
    with Cons.prems(2) obtain y q1 outs1 where
      r: "get n q = Inr (y, q1)" "fifo_run put get as q1 = Inr ((ins, outs1), q')" "outs = snd y @ outs1" by auto
    from get_InrD [OF Cons.prems(1) r(1)] Cons.IH [of q1] r(2,3) show ?thesis
      by (metis append.assoc)
  qed
qed (simp add: bounded)

text \<open>What is sent into an empty channel and fits comes out again.\<close>

lemma put_get:
  assumes "inv q" and "contents q = []" and "xs \<noteq> []" and "length xs \<le> cap"
  shows "\<exists>q'. fifo_run put get [Put xs, Get (length xs)] q = Inr ((xs, xs), q') \<and> inv q' \<and> contents q' = []"
proof -
  obtain q1 where p: "put xs q = Inr (int (length xs), q1)" "inv q1" "contents q1 = xs"
    using put_fits [OF assms(1), of xs] assms(2,4) by auto
  with get_some [OF p(2), of "length xs"] assms(3) show ?thesis by auto
qed

end

section \<open>Transition systems with an invariant\<close>

locale inv_system =
  fixes init :: "'s \<Rightarrow> bool"
    and step :: "'s \<Rightarrow> 's \<Rightarrow> bool"
    and inv :: "'s \<Rightarrow> bool"
  assumes inv_init: "init s \<Longrightarrow> inv s"
    and inv_step: "inv s \<Longrightarrow> step s s' \<Longrightarrow> inv s'"
begin

lemma inv_steps: "step\<^sup>*\<^sup>* s s' \<Longrightarrow> inv s \<Longrightarrow> inv s'"
  by (induction rule: rtranclp_induct) (auto intro: inv_step)

lemma inv_reachable: "init s \<Longrightarrow> step\<^sup>*\<^sup>* s s' \<Longrightarrow> inv s'"
  using inv_init inv_steps by blast

end

end
