(* ===== verification/Kalloc.thy ===== *)
theory Kalloc
  imports Console Interfaces
begin

text \<open>
  The physical page allocator (\<open>kalloc.c\<close>).  Kernel memory is a byte memory indexed by kernel
  virtual addresses; the free list is threaded through the first word of each free page, as
  in the C code.  \<open>kend\<close> is the linker's symbol \<open>end\<close>, the first address after the kernel, and \<open>kdata\<close> its symbol
  \<open>data\<close>, where the writable part of the kernel begins.
\<close>

section \<open>State and constants\<close>

record kmem = cons +
  mem :: memory
  freelist :: u32
  use_lock :: bool
  kend :: u32
  kdata :: u32

definition PGSIZE :: u32 where "PGSIZE = 4096"
definition PHYSTOP :: u32 where "PHYSTOP = 0xE000000"
definition EXTMEM :: u32 where "EXTMEM = 0x100000"
definition DEVSPACE :: u32 where "DEVSPACE = 0xFE000000"
definition KERNLINK :: u32 where "KERNLINK = KERNBASE + EXTMEM"

definition PGROUNDUP :: "u32 \<Rightarrow> u32" where
  "PGROUNDUP sz = (sz + PGSIZE - 1) AND NOT (PGSIZE - 1)"

definition PGROUNDDOWN :: "u32 \<Rightarrow> u32" where
  "PGROUNDDOWN a = a AND NOT (PGSIZE - 1)"

section \<open>Operations\<close>

definition lock_kmem :: "'a kmem_scheme \<Rightarrow> (unit, 'a kmem_scheme) kresult" where
  "lock_kmem s = (if use_lock s then lk_acquire KmemLock s else Inr ((), s))"

definition unlock_kmem :: "'a kmem_scheme \<Rightarrow> (unit, 'a kmem_scheme) kresult" where
  "unlock_kmem s = (if use_lock s then lk_release KmemLock s else Inr ((), s))"

definition kfree_ok :: "u32 \<Rightarrow> u32 \<Rightarrow> bool" where
  "kfree_ok e v \<longleftrightarrow> v mod PGSIZE = 0 \<and> \<not> v < e \<and> \<not> V2P v \<ge> PHYSTOP"

definition kfree :: "u32 \<Rightarrow> 'a kmem_scheme \<Rightarrow> (unit, 'a kmem_scheme) kresult" where
  "kfree v s =
     (if \<not> kfree_ok (kend s) v then Inl (Panic ''kfree'')
      else
        let s = s\<lparr>mem := memset (mem s) v 1 PGSIZE\<rparr> in
        bindE (lock_kmem s) (\<lambda>_ s.
        let s = s\<lparr>mem := put32 (mem s) v (freelist s), freelist := v\<rparr> in
        unlock_kmem s))"

definition kalloc :: "'a kmem_scheme \<Rightarrow> (u32, 'a kmem_scheme) kresult" where
  "kalloc s =
     bindE (lock_kmem s) (\<lambda>_ s.
       let r = freelist s;
           s = (if r \<noteq> 0 then s\<lparr>freelist := get32 (mem s) r\<rparr> else s) in
       bindE (unlock_kmem s) (\<lambda>_ s. Inr (r, s)))"

text \<open>The loop of \<open>freerange\<close> ends because \<open>kfree\<close> refuses a page beyond \<open>PHYSTOP\<close>: as long as it
  goes on, \<open>p\<close> is below the end of physical memory and grows.\<close>

lemma kfree_ok_bound: "kfree_ok e v \<Longrightarrow> unat v < 2382364672"
  unfolding kfree_ok_def V2P_def PHYSTOP_def KERNBASE_def by unat_arith

lemma unat_next_page: "unat p < 2382364672 \<Longrightarrow> unat (p + PGSIZE) = unat p + 4096"
  using unat_plus_nat [of p 4096] by (simp add: PGSIZE_def)

lemma kfree_InrD: "kfree v s = Inr r \<Longrightarrow> kfree_ok (kend s) v"
  by (simp add: kfree_def split: if_splits)

function freerange_loop :: "u32 \<Rightarrow> u32 \<Rightarrow> 'a kmem_scheme \<Rightarrow> (unit, 'a kmem_scheme) kresult" where
  "freerange_loop p vend s =
     (if p + PGSIZE \<le> vend
      then bindE (kfree p s) (\<lambda>_ s. freerange_loop (p + PGSIZE) vend s)
      else Inr ((), s))"
  by pat_completeness auto
termination
  by (relation "measure (\<lambda>(p, vend, s). 2 ^ 32 - unat p)")
     (auto dest!: kfree_InrD kfree_ok_bound simp: unat_next_page)

declare freerange_loop.simps [simp del]

definition freerange :: "u32 \<Rightarrow> u32 \<Rightarrow> 'a kmem_scheme \<Rightarrow> (unit, 'a kmem_scheme) kresult" where
  "freerange vstart vend s = freerange_loop (PGROUNDUP vstart) vend s"

definition kinit1 :: "u32 \<Rightarrow> u32 \<Rightarrow> 'a kmem_scheme \<Rightarrow> (unit, 'a kmem_scheme) kresult" where
  "kinit1 vstart vend s =
     freerange vstart vend (s\<lparr>klk := klk s - {KmemLock}, use_lock := False\<rparr>)"

definition kinit2 :: "u32 \<Rightarrow> u32 \<Rightarrow> 'a kmem_scheme \<Rightarrow> (unit, 'a kmem_scheme) kresult" where
  "kinit2 vstart vend s =
     bindE (freerange vstart vend s) (\<lambda>_ s. Inr ((), s\<lparr>use_lock := True\<rparr>))"

section \<open>The free list\<close>

text \<open>\<open>free_pages m p ps\<close>: the list threaded through memory \<open>m\<close> from \<open>p\<close> is \<open>ps\<close>.\<close>

fun free_pages :: "memory \<Rightarrow> u32 \<Rightarrow> u32 list \<Rightarrow> bool" where
  "free_pages m p [] \<longleftrightarrow> p = 0"
| "free_pages m p (q # qs) \<longleftrightarrow> p = q \<and> p \<noteq> 0 \<and> free_pages m (get32 m p) qs"

definition kalloc_inv :: "u32 list \<Rightarrow> 'a kmem_scheme \<Rightarrow> bool" where
  "kalloc_inv ps s \<longleftrightarrow> free_pages (mem s) (freelist s) ps \<and> distinct ps \<and>
     (\<forall>p \<in> set ps. kfree_ok (kend s) p) \<and> kend s \<ge> KERNLINK"

section \<open>Pages and the words in them\<close>


definition page_aligned :: "u32 \<Rightarrow> bool" where
  "page_aligned p \<longleftrightarrow> p mod PGSIZE = 0"

lemma PGSIZE_unat [simp]: "unat PGSIZE = 4096"
  by (simp add: PGSIZE_def)

lemma page_aligned_unat: "page_aligned p \<longleftrightarrow> unat p mod 4096 = 0"
  by (simp only: page_aligned_def PGSIZE_def word_unat_eq_iff unat_mod_distrib) simp

lemma page_offset_unat:
  assumes "page_aligned p" and "unat d < 4096"
  shows "unat (p + d) = unat p + unat d"
proof -
  have "unat p mod 4096 = 0" using assms(1) by (simp add: page_aligned_unat)
  then obtain k where k: "unat p = 4096 * k" by auto
  moreover have "unat p < 2 ^ 32" using unsigned_less [where ?'a = nat, of p] by simp
  ultimately have "unat p + 4096 \<le> 2 ^ 32" by simp
  then have "unat p + unat d < 2 ^ 32" using assms(2) by linarith
  then show ?thesis using unat_plus_nat [of p "unat d"] by simp
qed

lemma page_disjoint:
  assumes "page_aligned p" and "page_aligned q" and "p \<noteq> q" and "unat d < 4096"
  shows "\<not> unat (p + d - q) < 4096"
proof
  assume e: "unat (p + d - q) < 4096"
  have "unat (q + (p + d - q)) = unat q + unat (p + d - q)"
    by (rule page_offset_unat [OF assms(2) e])
  moreover have "unat (p + d) = unat p + unat d" by (rule page_offset_unat [OF assms(1,4)])
  ultimately have "unat p + unat d = unat q + unat (p + d - q)" by simp
  moreover obtain i where "unat p = 4096 * i"
    using assms(1) by (auto simp: page_aligned_unat)
  moreover obtain j where "unat q = 4096 * j"
    using assms(2) by (auto simp: page_aligned_unat)
  ultimately have "unat p = unat q" using e assms(4) by simp
  with assms(3) show False by (simp add: word_unat_eq_iff)
qed

text \<open>Two memories agree on the page at \<open>p\<close>.\<close>

definition same_page :: "u32 \<Rightarrow> memory \<Rightarrow> memory \<Rightarrow> bool" where
  "same_page p m m' \<longleftrightarrow> (\<forall>d. unat d < 4096 \<longrightarrow> m' (p + d) = m (p + d))"

lemma same_page_refl [simp]: "same_page p m m"
  by (simp add: same_page_def)

lemma same_page_trans: "same_page p m m' \<Longrightarrow> same_page p m' m'' \<Longrightarrow> same_page p m m''"
  by (simp add: same_page_def)

lemma same_page_get32:
  assumes "same_page p m m'"
  shows "get32 m' p = get32 m p"
proof -
  have "m' (p + d) = m (p + d)" if "unat d < 4096" for d
    using assms that by (simp add: same_page_def)
  from this [of 0] this [of 1] this [of 2] this [of 3] show ?thesis
    by (simp add: get32_def)
qed

lemma same_page_memset:
  assumes "page_aligned p" and "page_aligned v" and "p \<noteq> v"
  shows "same_page p m (memset m v c PGSIZE)"
  using page_disjoint [OF assms] by (simp add: same_page_def memset_fills)

lemma same_page_put32:
  assumes "page_aligned p" and "page_aligned v" and "p \<noteq> v" and "unat o1 + 4 \<le> 4096"
  shows "same_page p m (put32 m (v + o1) w)"
  unfolding same_page_def
proof (intro allI impI)
  fix d :: u32 assume d: "unat d < 4096"
  have "\<not> unat (p + d - (v + o1)) < 4"
  proof
    assume e: "unat (p + d - (v + o1)) < 4"
    then have "unat (o1 + (p + d - (v + o1))) = unat o1 + unat (p + d - (v + o1))"
      using assms(4) unat_plus_nat [of o1 "unat (p + d - (v + o1))"] by simp
    then have "unat (p + d - v) < 4096" using e assms(4) by (simp add: algebra_simps)
    with page_disjoint [OF assms(1-3) d] show False by simp
  qed
  then show "put32 m (v + o1) w (p + d) = m (p + d)"
    using put32_at [of m "v + o1" w "p + d - (v + o1)"] by simp
qed

lemma free_pages_same:
  assumes "free_pages m p ps" and "\<And>q. q \<in> set ps \<Longrightarrow> same_page q m m'"
  shows "free_pages m' p ps"
  using assms
proof (induction ps arbitrary: p)
  case (Cons q qs)
  then have "get32 m' q = get32 m q" by (intro same_page_get32) simp
  with Cons show ?case by auto
qed simp

lemma free_pages_unique: "free_pages m p ps \<Longrightarrow> free_pages m p qs \<Longrightarrow> ps = qs"
proof (induction ps arbitrary: p qs)
  case Nil
  then show ?case by (cases qs) auto
next
  case (Cons x xs)
  then show ?case by (cases qs) auto
qed

lemma kfree_ok_aligned [dest, simp]: "kfree_ok e v \<Longrightarrow> page_aligned v"
  by (simp add: kfree_ok_def page_aligned_def)

lemma kfree_ok_nonzero: "kfree_ok e v \<Longrightarrow> KERNLINK \<le> e \<Longrightarrow> v \<noteq> 0"
  by (auto simp: kfree_ok_def KERNLINK_def KERNBASE_def EXTMEM_def word_le_nat_alt word_less_nat_alt)

lemma kalloc_inv_Nil: "kalloc_inv [] s \<Longrightarrow> freelist s = 0"
  by (simp add: kalloc_inv_def)

definition kmem_unlocked :: "'a kmem_scheme \<Rightarrow> bool" where
  "kmem_unlocked s \<longleftrightarrow> KmemLock \<notin> klk s"

lemma kfree_eq:
  assumes "kfree_ok (kend s) v" and "kmem_unlocked s"
  shows "kfree v s = Inr ((), s\<lparr>mem := put32 (memset (mem s) v 1 PGSIZE) v (freelist s),
                                freelist := v\<rparr>)"
  using assms
  by (simp add: kfree_def Let_def lock_kmem_def unlock_kmem_def kmem_unlocked_def)

lemma kalloc_eq:
  assumes "kmem_unlocked s"
  shows "kalloc s = Inr (freelist s,
           s\<lparr>freelist := (if freelist s = 0 then 0 else get32 (mem s) (freelist s))\<rparr>)"
  using assms
  by (simp add: kalloc_def Let_def lock_kmem_def unlock_kmem_def kmem_unlocked_def)

lemma kalloc_cons:
  assumes "kalloc_inv (p # ps) s" and "kmem_unlocked s"
  shows "\<exists>s'. kalloc s = Inr (p, s') \<and> kalloc_inv ps s' \<and> mem s' = mem s \<and> p \<noteq> 0 \<and>
           s' = s\<lparr>freelist := get32 (mem s) p\<rparr>"
  using assms by (auto simp: kalloc_eq kalloc_inv_def)

lemma kalloc_nil: "kalloc_inv [] s \<Longrightarrow> kmem_unlocked s \<Longrightarrow> kalloc s = Inr (0, s)"
  by (simp add: kalloc_eq kalloc_inv_def)

lemma kfree_page_other:
  assumes "page_aligned q" and "page_aligned v" and "q \<noteq> v"
  shows "same_page q m (put32 (memset m v 1 PGSIZE) v w)"
proof -
  have "same_page q (memset m v 1 PGSIZE) (put32 (memset m v 1 PGSIZE) (v + 0) w)"
    by (rule same_page_put32 [OF assms]) simp
  with same_page_memset [OF assms, of m 1] show ?thesis
    by (auto intro: same_page_trans)
qed

lemma kfree_push:
  assumes "kalloc_inv ps s" and "kfree_ok (kend s) v" and "v \<notin> set ps" and "kmem_unlocked s"
  shows "\<exists>s'. kfree v s = Inr ((), s') \<and> kalloc_inv (v # ps) s' \<and>
           (\<forall>q. page_aligned q \<longrightarrow> q \<noteq> v \<longrightarrow> same_page q (mem s) (mem s'))"
proof -
  let ?m = "put32 (memset (mem s) v 1 PGSIZE) v (freelist s)"
  have "same_page q (mem s) ?m" if "q \<in> set ps" for q
    using assms(1-3) that by (intro kfree_page_other) (auto simp: kalloc_inv_def)
  with assms(1) have "free_pages ?m (freelist s) ps"
    by (auto simp: kalloc_inv_def intro: free_pages_same)
  with assms kfree_ok_nonzero [OF assms(2)]
  have "kalloc_inv (v # ps) (s\<lparr>mem := ?m, freelist := v\<rparr>)"
    by (simp add: kalloc_inv_def)
  then show ?thesis
    using assms kfree_eq [OF assms(2,4)] by (auto intro!: kfree_page_other)
qed

section \<open>The allocator as a pool of pages\<close>

definition pages_free :: "'a kmem_scheme \<Rightarrow> u32 set" where
  "pages_free s = {p. \<exists>ps. kalloc_inv ps s \<and> p \<in> set ps}"

definition pages_owned :: "'a kmem_scheme \<Rightarrow> u32 set" where
  "pages_owned s = {v. kfree_ok (kend s) v \<and> v \<notin> pages_free s}"

definition pages_inv :: "'a kmem_scheme \<Rightarrow> bool" where
  "pages_inv s \<longleftrightarrow> (\<exists>ps. kalloc_inv ps s) \<and> kmem_unlocked s"

definition alloc_page :: "'a kmem_scheme \<Rightarrow> (u32 \<times> 'a kmem_scheme) option" where
  "alloc_page s = (case kalloc s of Inl _ \<Rightarrow> None | Inr (r, s') \<Rightarrow> if r = 0 then None else Some (r, s'))"

definition free_page :: "u32 \<Rightarrow> 'a kmem_scheme \<Rightarrow> 'a kmem_scheme option" where
  "free_page v s = (case kfree v s of Inl _ \<Rightarrow> None | Inr (_, s') \<Rightarrow> Some s')"

lemma kalloc_inv_unique: "kalloc_inv ps s \<Longrightarrow> kalloc_inv qs s \<Longrightarrow> ps = qs"
  by (auto simp: kalloc_inv_def intro: free_pages_unique)

lemma pages_free_eq: "kalloc_inv ps s \<Longrightarrow> pages_free s = set ps"
  by (auto simp: pages_free_def dest: kalloc_inv_unique)

lemma alloc_page_cons:
  assumes "kalloc_inv (p # ps) s" and "kmem_unlocked s"
  shows "\<exists>s'. alloc_page s = Some (p, s') \<and> kalloc_inv ps s' \<and> kmem_unlocked s' \<and> kend s' = kend s"
  using kalloc_cons [OF assms] assms(2) by (auto simp: alloc_page_def kmem_unlocked_def)

lemma alloc_page_nil: "kalloc_inv [] s \<Longrightarrow> kmem_unlocked s \<Longrightarrow> alloc_page s = None"
  by (simp add: alloc_page_def kalloc_nil)

lemma free_page_push:
  assumes "kalloc_inv ps s" and "kfree_ok (kend s) v" and "v \<notin> set ps" and "kmem_unlocked s"
  shows "\<exists>s'. free_page v s = Some s' \<and> kalloc_inv (v # ps) s' \<and> kmem_unlocked s' \<and>
           kend s' = kend s"
  using kfree_push [OF assms] kfree_eq [OF assms(2,4)] assms(4)
  by (auto simp: free_page_def kmem_unlocked_def)

interpretation kpool: pool alloc_page free_page pages_free pages_owned pages_inv
proof
  fix s :: "'a kmem_scheme" and r s'
  assume I: "pages_inv s"
  then obtain ps where ps: "kalloc_inv ps s" and u: "kmem_unlocked s"
    by (auto simp: pages_inv_def)
  note F = pages_free_eq [OF ps]
  show "finite (pages_free s)" by (simp add: F)
  show "alloc_page s = None \<longleftrightarrow> pages_free s = {}"
  proof (cases ps)
    case Nil
    with ps u show ?thesis by (simp add: F alloc_page_nil)
  next
    case (Cons q qs)
    with alloc_page_cons [of q qs s] ps u show ?thesis by (auto simp: F)
  qed
  { assume a: "alloc_page s = Some (r, s')"
    then obtain qs where q: "ps = r # qs" and s': "kalloc_inv qs s'" "kmem_unlocked s'"
        "kend s' = kend s"
      using ps u alloc_page_nil [of s] alloc_page_cons [of _ _ s] by (cases ps) fastforce+
    have "distinct ps" "kfree_ok (kend s) r" using ps q by (auto simp: kalloc_inv_def)
    then show "pages_inv s' \<and> r \<in> pages_free s \<and> pages_free s' = pages_free s - {r} \<and>
        pages_owned s' = insert r (pages_owned s)"
      using s' q by (auto simp: pages_inv_def F pages_free_eq [OF s'(1)] pages_owned_def) }
  { assume "r \<in> pages_owned s"
    then have "kfree_ok (kend s) r" "r \<notin> set ps" by (auto simp: pages_owned_def F)
    from free_page_push [OF ps this u] obtain t where
      t: "free_page r s = Some t" "kalloc_inv (r # ps) t" "kmem_unlocked t" "kend t = kend s"
      by blast
    then show "\<exists>s'. free_page r s = Some s' \<and> pages_inv s' \<and>
        pages_free s' = insert r (pages_free s) \<and> pages_owned s - {r} \<subseteq> pages_owned s'"
      by (auto simp: pages_inv_def F pages_free_eq [OF t(2)] pages_owned_def) }
qed

section \<open>Filling the pool at boot\<close>

lemma PGROUNDDOWN_unat: "unat (PGROUNDDOWN x) = unat x div 4096 * 4096"
proof -
  have m: "(4095 :: u32) = mask 12" by (simp add: mask_eq_exp_minus_1)
  have "x AND NOT (mask 12) = push_bit 12 (drop_bit 12 x)"
    by (rule bit_word_eqI) (auto simp: bit_simps)
  moreover have "unat (push_bit 12 (drop_bit 12 x)) = unat x div 4096 * 4096"
    using unsigned_less [where ?'a = nat, of x] div_times_less_eq_dividend [of "unat x" 4096]
    by (simp add: push_bit_eq_mult drop_bit_eq_div unat_word_ariths unat_div_distrib)
  ultimately show ?thesis by (simp add: PGROUNDDOWN_def PGSIZE_def m)
qed

lemma PGROUNDUP_DOWN: "PGROUNDUP x = PGROUNDDOWN (x + 4095)"
  by (simp add: PGROUNDUP_def PGROUNDDOWN_def PGSIZE_def algebra_simps)

lemma PGROUNDUP_unat:
  assumes "unat x + 4095 < 2 ^ 32"
  shows "unat (PGROUNDUP x) = (unat x + 4095) div 4096 * 4096"
  using assms unat_plus_nat [of x 4095] by (simp add: PGROUNDUP_DOWN PGROUNDDOWN_unat)

definition whole_pages :: "nat \<Rightarrow> nat \<Rightarrow> u32 set" where
  "whole_pages a b = {q. page_aligned q \<and> a \<le> unat q \<and> unat q + 4096 \<le> b}"

lemma whole_pages_empty: "b < a + 4096 \<Longrightarrow> whole_pages a b = {}"
  by (auto simp: whole_pages_def)

lemma aligned_gap:
  assumes "page_aligned p" "page_aligned q" "unat p \<le> unat q" "q \<noteq> p"
  shows "unat p + 4096 \<le> unat q"
proof -
  obtain i where i: "unat p = 4096 * i" using assms(1) by (auto simp: page_aligned_unat)
  obtain j where j: "unat q = 4096 * j" using assms(2) by (auto simp: page_aligned_unat)
  have "unat p \<noteq> unat q" using assms(4) by (simp add: word_unat_eq_iff)
  with i j assms(3) show ?thesis by simp
qed

lemma whole_pages_step:
  assumes "page_aligned p" and "unat p + 4096 \<le> b"
  shows "whole_pages (unat p) b = insert p (whole_pages (unat p + 4096) b)"
  using assms aligned_gap [OF assms(1)] by (auto simp: whole_pages_def)

lemma whole_pages_round:
  assumes "a + 4095 < 2 ^ 32"
  shows "whole_pages ((a + 4095) div 4096 * 4096) b = whole_pages a b"
proof -
  have "(a + 4095) div 4096 * 4096 \<le> 4096 * k \<longleftrightarrow> a \<le> 4096 * k" for k :: nat
    using div_less_iff_less_mult [of 4096 "a + 4095" "Suc k"] by auto
  then show ?thesis by (auto simp: whole_pages_def page_aligned_unat)
qed

lemma freerange_loop_ok:
  assumes "page_aligned p" and "unat b \<le> 2382364672" and "unat p \<le> 2382364672"
    and "unat (kend s) \<le> unat p" and "pages_inv s" and "pages_free s \<inter> whole_pages (unat p) (unat b) = {}"
  shows "\<exists>s'. freerange_loop p b s = Inr ((), s') \<and> pages_inv s' \<and> use_lock s' = use_lock s \<and>
     kend s' = kend s \<and> pages_free s' = pages_free s \<union> whole_pages (unat p) (unat b)"
  using assms
proof (induction p b s rule: freerange_loop.induct)
  case (1 p b s)
  have n: "unat (p + PGSIZE) = unat p + 4096"
    using "1.prems"(3) unat_plus_nat [of p 4096] by (simp add: PGSIZE_def)
  show ?case
  proof (cases "p + PGSIZE \<le> b")
    case False
    then show ?thesis using "1.prems" n
      by (simp add: freerange_loop.simps [of p b s] whole_pages_empty word_le_nat_alt)
  next
    case True
    then have le: "unat p + 4096 \<le> unat b" using n by (simp add: word_le_nat_alt)
    obtain ps where ps: "kalloc_inv ps s" and u: "kmem_unlocked s"
      using "1.prems"(5) by (auto simp: pages_inv_def)
    have fp: "pages_free s = set ps" by (rule pages_free_eq [OF ps])
    have step: "whole_pages (unat p) (unat b) = insert p (whole_pages (unat p + 4096) (unat b))"
      by (rule whole_pages_step [OF "1.prems"(1) le])
    have ok: "kfree_ok (kend s) p"
    proof -
      have "KERNLINK \<le> kend s" using ps by (simp add: kalloc_inv_def)
      then have "KERNLINK \<le> p" using "1.prems"(4) by (simp add: word_le_nat_alt)
      then have "unat (V2P p) = unat p - 2147483648" "2147483648 \<le> unat p"
        unfolding V2P_def KERNLINK_def KERNBASE_def EXTMEM_def by unat_arith+
      then have "\<not> PHYSTOP \<le> V2P p" 
        using le "1.prems"(2) by (simp add: PHYSTOP_def word_le_nat_alt)
      then show ?thesis
        using "1.prems"(1,4) by (simp add: kfree_ok_def page_aligned_def not_less word_le_nat_alt)
    qed
    have "p \<notin> set ps" using "1.prems"(6) step fp by auto
    from kfree_push [OF ps ok this u] kfree_eq [OF ok u] obtain s1 where
      s1: "kfree p s = Inr ((), s1)" "kalloc_inv (p # ps) s1"
      "kend s1 = kend s" "klk s1 = klk s" "use_lock s1 = use_lock s" by auto
    have u1: "kmem_unlocked s1" using u s1 by (simp add: kmem_unlocked_def)
    have al: "page_aligned (p + PGSIZE)" using "1.prems"(1) n by (simp add: page_aligned_unat)
    have "pages_free s1 \<inter> whole_pages (unat (p + PGSIZE)) (unat b) = {}"
      using "1.prems"(6) step fp n by (auto simp: pages_free_eq [OF s1(2)] whole_pages_def)
    with "1.IH" [OF True s1(1) al "1.prems"(2)] "1.prems" s1 u1 le n
    obtain s' where s': "freerange_loop (p + PGSIZE) b s1 = Inr ((), s')" "pages_inv s'"
        "use_lock s' = use_lock s1" "kend s' = kend s1"
        "pages_free s' = pages_free s1 \<union> whole_pages (unat (p + PGSIZE)) (unat b)"
      by (auto simp: pages_inv_def)
    have "pages_free s' = pages_free s \<union> whole_pages (unat p) (unat b)"
      using s'(5) step n fp by (auto simp: pages_free_eq [OF s1(2)])
    with s' s1(1,3,5) True show ?thesis by (simp add: freerange_loop.simps [of p b s])
  qed
qed

text \<open>The allocator's state before \<open>kinit1\<close>: zeroed data, with the kernel ending at \<open>e\<close>.\<close>

definition kmem_bss :: "u32 \<Rightarrow> kmem" where
  "kmem_bss e = \<lparr>klk = {}, ptable = [], nextpid = 1, initproc = None, cur = None, ts_esp0 = 0,
     ts_ss0 = 0, ts_iomb = 0, cr3 = 0, kpgdir = 0,
     cons_locking = False, panicked = False, crt = (\<lambda>_. 0), cursor_hi = 0, cursor_lo = 0,
     uart = False, com1 = [], pic = [], ioapic_reg = (\<lambda>_. 0), inp_buf = (\<lambda>_. 0), inp_r = 0,
     inp_w = 0, inp_e = 0, kbd_in = [], kbd_shift = 0, com1_in = [],
     mem = (\<lambda>_. 0), freelist = 0, use_lock = False, kend = e, kdata = 0x80108000\<rparr>"

lemma whole_pages_split:
  assumes "a \<le> m" and "m mod 4096 = 0" and "m \<le> b"
  shows "whole_pages a m \<union> whole_pages m b = whole_pages a b"
proof -
  obtain j where j: "m = 4096 * j" using assms(2) by auto
  have "unat q + 4096 \<le> m \<or> m \<le> unat q" if "page_aligned q" for q
  proof -
    from that obtain k where "unat q = 4096 * k" by (auto simp: page_aligned_unat)
    then show ?thesis using j by auto
  qed
  with assms show ?thesis by (fastforce simp: whole_pages_def)
qed

lemma freerange_ok:
  assumes "unat vend \<le> 2382364672" and "unat vstart \<le> 2382360576"
    and "kend s \<le> vstart" and "pages_inv s"
    and "pages_free s \<inter> whole_pages (unat vstart) (unat vend) = {}"
  shows "\<exists>s'. freerange vstart vend s = Inr ((), s') \<and> pages_inv s' \<and> use_lock s' = use_lock s \<and>
     kend s' = kend s \<and> pages_free s' = pages_free s \<union> whole_pages (unat vstart) (unat vend)"
proof -
  have r: "unat (PGROUNDUP vstart) = (unat vstart + 4095) div 4096 * 4096"
    using assms(2) by (intro PGROUNDUP_unat) simp
  have al: "page_aligned (PGROUNDUP vstart)" using r by (simp add: page_aligned_unat)
  have w: "whole_pages (unat (PGROUNDUP vstart)) b = whole_pages (unat vstart) b" for b
    unfolding r using assms(2) by (intro whole_pages_round) simp
  have "unat vstart \<le> unat (PGROUNDUP vstart)" "unat (PGROUNDUP vstart) \<le> 2382364672"
    using r assms(2) by linarith+
  with freerange_loop_ok [OF al assms(1), of s] assms w show ?thesis
    by (simp add: freerange_def word_le_nat_alt)
qed

lemma kinit1_ok:
  assumes "freelist s = 0" and "KERNLINK \<le> kend s" and "kend s \<le> P2V 0x400000"
  shows "\<exists>s1. kinit1 (kend s) (P2V 0x400000) s = Inr ((), s1) \<and> pages_inv s1 \<and> kend s1 = kend s \<and>
    \<not> use_lock s1 \<and> pages_free s1 = whole_pages (unat (kend s)) (unat (P2V 0x400000))"
proof -
  let ?s = "s\<lparr>klk := klk s - {KmemLock}, use_lock := False\<rparr>"
  have c: "unat (P2V 0x400000) = 2151677952" by (simp add: P2V_def KERNBASE_def)
  have k: "unat (kend s) \<le> 2151677952" using assms(3) c by (simp add: word_le_nat_alt)
  have i: "kalloc_inv [] ?s" using assms by (simp add: kalloc_inv_def)
  have "pages_inv ?s" using i by (auto simp: pages_inv_def kmem_unlocked_def)
  with freerange_ok [of "P2V 0x400000" "kend s" ?s] pages_free_eq [OF i] k c
  show ?thesis by (auto simp: kinit1_def)
qed

lemma kinit2_ok:
  assumes "pages_inv t" and "kend t \<le> P2V 0x400000"
    and "pages_free t \<subseteq> whole_pages (unat (kend t)) (unat (P2V 0x400000))"
  shows "\<exists>s2. kinit2 (P2V 0x400000) (P2V PHYSTOP) t = Inr ((), s2) \<and> pages_inv s2 \<and> use_lock s2 \<and>
    pages_free s2 = pages_free t \<union> whole_pages (unat (P2V 0x400000)) (unat (P2V PHYSTOP))"
proof -
  have c: "unat (P2V 0x400000) = 2151677952" "unat (P2V PHYSTOP) = 2382364672"
    by (simp_all add: P2V_def KERNBASE_def PHYSTOP_def)
  have "pages_free t \<inter> whole_pages 2151677952 2382364672 = {}"
    using assms(3) c by (auto simp: whole_pages_def)
  with freerange_ok [of "P2V PHYSTOP" "P2V 0x400000" t] assms c
  obtain s2 where s2: "freerange (P2V 0x400000) (P2V PHYSTOP) t = Inr ((), s2)" "pages_inv s2"
      "pages_free s2 = pages_free t \<union> whole_pages 2151677952 2382364672"
    by auto
  let ?t = "s2\<lparr>use_lock := True\<rparr>"
  have "pages_inv ?t" "pages_free ?t = pages_free s2"
    using s2(2) by (simp_all add: pages_inv_def pages_free_def kalloc_inv_def kmem_unlocked_def)
  with s2 c show ?thesis by (intro exI [of _ ?t]) (simp add: kinit2_def)
qed

text \<open>C8. Boot fills the page pool with exactly the memory after the kernel, less what was taken in the
  meantime.  \<open>kinit1(end, P2V(4*1024*1024))\<close> returns with the free list a well-formed list of distinct
  pages, every whole page between \<open>end\<close> and 4 MB and nothing else, and without using the lock.  \<open>main\<close> then
  sets up the kernel page table and starts the other processors, which take some of these pages; whichever
  they take, \<open>kinit2(P2V(4*1024*1024), P2V(PHYSTOP))\<close> returns, and the free list is again well-formed and
  has every whole page between \<open>end\<close> and \<open>PHYSTOP\<close> that was not taken, and nothing else; the
  allocator's lock is in use from then on.\<close>

theorem kinit_frees_all_memory:
  fixes s :: "'a kmem_scheme"
  assumes "freelist s = 0" and "KERNLINK \<le> kend s" and "kend s \<le> P2V 0x400000"
  shows "\<exists>s1. kinit1 (kend s) (P2V 0x400000) s = Inr ((), s1) \<and> pages_inv s1 \<and> \<not> use_lock s1 \<and>
    pages_free s1 = whole_pages (unat (kend s)) (unat (P2V 0x400000)) \<and>
    (\<forall>t :: 'a kmem_scheme. pages_inv t \<and> kend t = kend s \<and> pages_free t \<subseteq> pages_free s1 \<longrightarrow>
      (\<exists>s2. kinit2 (P2V 0x400000) (P2V PHYSTOP) t = Inr ((), s2) \<and> pages_inv s2 \<and> use_lock s2 \<and>
        pages_free s2 = whole_pages (unat (kend s)) (unat (P2V PHYSTOP)) - (pages_free s1 - pages_free t)))"
proof -
  let ?a = "unat (kend s)" and ?m = "unat (P2V 0x400000)" and ?b = "unat (P2V PHYSTOP)"
  have c: "?m mod 4096 = 0" "?m \<le> ?b" by (simp_all add: P2V_def KERNBASE_def PHYSTOP_def)
  have k: "?a \<le> ?m" using assms(3) by (simp add: word_le_nat_alt)
  obtain s1 where s1: "kinit1 (kend s) (P2V 0x400000) s = Inr ((), s1)" "pages_inv s1" "\<not> use_lock s1"
      "pages_free s1 = whole_pages ?a ?m"
    using kinit1_ok [OF assms] by blast
  have u: "whole_pages ?a ?m \<union> whole_pages ?m ?b = whole_pages ?a ?b"
    by (rule whole_pages_split [OF k c])
  have d: "whole_pages ?a ?m \<inter> whole_pages ?m ?b = {}" by (auto simp: whole_pages_def)
  have "\<exists>s2. kinit2 (P2V 0x400000) (P2V PHYSTOP) t = Inr ((), s2) \<and> pages_inv s2 \<and> use_lock s2 \<and>
      pages_free s2 = whole_pages ?a ?b - (pages_free s1 - pages_free t)"
    if t: "pages_inv t" "kend t = kend s" "pages_free t \<subseteq> pages_free s1" for t :: "'a kmem_scheme"
  proof -
    have "pages_free t \<union> whole_pages ?m ?b = whole_pages ?a ?b - (pages_free s1 - pages_free t)"
      using t(3) u d s1(4) by blast
    with kinit2_ok [OF t(1)] t assms(3) s1(4) show ?thesis by simp
  qed
  with s1 show ?thesis by blast
qed

text \<open>A page is taken between the two calls.\<close>

theorem kinit_frees_all_memory_witness:
  "\<exists>s1 p t s2. kinit1 0x80115000 (P2V 0x400000) (kmem_bss 0x80115000) = Inr ((), s1) \<and>
    kalloc s1 = Inr (p, t) \<and> p \<in> pages_free s1 \<and>
    kinit2 (P2V 0x400000) (P2V PHYSTOP) t = Inr ((), s2) \<and> pages_inv s2 \<and> use_lock s2 \<and>
    pages_free s2 = whole_pages 0x80115000 0x8E000000 - {p}"
proof -
  have e: "kend (kmem_bss 0x80115000) = 0x80115000" "freelist (kmem_bss 0x80115000) = 0"
    by (simp_all add: kmem_bss_def)
  have c: "unat (P2V PHYSTOP) = 0x8E000000" "unat (P2V 0x400000) = 0x80400000"
      "unat (0x80115000 :: u32) = 0x80115000"
    by (simp_all add: P2V_def KERNBASE_def PHYSTOP_def)
  have pre: "KERNLINK \<le> 0x80115000" "0x80115000 \<le> P2V 0x400000"
    by (simp_all add: KERNLINK_def KERNBASE_def EXTMEM_def P2V_def)
  obtain s1 where s1: "kinit1 0x80115000 (P2V 0x400000) (kmem_bss 0x80115000) = Inr ((), s1)" "pages_inv s1"
      "pages_free s1 = whole_pages 0x80115000 0x80400000"
    and next2: "\<And>t :: kmem. pages_inv t \<Longrightarrow> kend t = 0x80115000 \<Longrightarrow> pages_free t \<subseteq> pages_free s1 \<Longrightarrow>
      \<exists>s2. kinit2 (P2V 0x400000) (P2V PHYSTOP) t = Inr ((), s2) \<and> pages_inv s2 \<and> use_lock s2 \<and>
        pages_free s2 = whole_pages 0x80115000 0x8E000000 - (pages_free s1 - pages_free t)"
    using kinit_frees_all_memory [of "kmem_bss 0x80115000"] pre unfolding e c by auto
  have k1: "kend s1 = 0x80115000"
    using kinit1_ok [of "kmem_bss 0x80115000"] pre s1(1) unfolding e by auto
  obtain ps where ps: "kalloc_inv ps s1" "kmem_unlocked s1" using s1(2) by (auto simp: pages_inv_def)
  have "0x80115000 \<in> set ps"
    using s1(3) pages_free_eq [OF ps(1)] by (auto simp: whole_pages_def page_aligned_def PGSIZE_def)
  then obtain p qs where q: "ps = p # qs" by (cases ps) auto
  obtain t where t: "kalloc s1 = Inr (p, t)" "kalloc_inv qs t" "t = s1\<lparr>freelist := get32 (mem s1) p\<rparr>"
    using kalloc_cons [of p qs s1] ps q by auto
  have ft: "pages_free t = set qs" "pages_free s1 = insert p (set qs)" "p \<notin> set qs"
    using pages_free_eq [OF t(2)] pages_free_eq [OF ps(1)] ps(1) q by (auto simp: kalloc_inv_def)
  have "pages_inv t" "kend t = 0x80115000" "pages_free t \<subseteq> pages_free s1"
    using t ps(2) k1 ft by (auto simp: pages_inv_def kmem_unlocked_def)
  from next2 [OF this] obtain s2 where "kinit2 (P2V 0x400000) (P2V PHYSTOP) t = Inr ((), s2)" "pages_inv s2"
      "use_lock s2" "pages_free s2 = whole_pages 0x80115000 0x8E000000 - (pages_free s1 - pages_free t)"
    by blast
  moreover have "pages_free s1 - pages_free t = {p}" using ft by auto
  ultimately show ?thesis using s1(1) t(1) ft by (intro exI conjI) (assumption | simp)+
qed

text \<open>C7. The allocator hands a page to one owner at a time and leaks none: from a state with a
  well-formed free list, any number of \<open>kalloc\<close>s up to the number of free pages succeed and give
  distinct pages, freeing them all succeeds, and the free pages are then the same as before.\<close>

theorem kalloc_kfree_pool:
  assumes "pages_inv s" and "n \<le> card (pages_free s)"
  shows "\<exists>rs s1 s2. take_n alloc_page n s = Some (rs, s1) \<and> distinct rs \<and> length rs = n \<and>
    give_all free_page rs s1 = Some s2 \<and> pages_inv s2 \<and> pages_free s2 = pages_free s"
  by (rule kpool.take_give [OF assms])

definition kmem_one :: kmem where
  "kmem_one = (kmem_bss 0x80115000)\<lparr>freelist := 0x80200000\<rparr>"

theorem kalloc_kfree_pool_witness:
  "\<exists>rs s1 s2. take_n alloc_page 1 kmem_one = Some (rs, s1) \<and> distinct rs \<and> length rs = 1 \<and>
    give_all free_page rs s1 = Some s2 \<and> pages_inv s2 \<and> pages_free s2 = {0x80200000}"
proof -
  have "kalloc_inv [0x80200000] kmem_one"
    by (simp add: kalloc_inv_def kmem_one_def kmem_bss_def kfree_ok_def PGSIZE_def V2P_def
          KERNBASE_def PHYSTOP_def KERNLINK_def EXTMEM_def get32_def le32_def)
  moreover from this have "pages_free kmem_one = {0x80200000}" by (simp add: pages_free_eq)
  moreover have "kmem_unlocked kmem_one"
    by (simp add: kmem_unlocked_def kmem_one_def kmem_bss_def)
  ultimately show ?thesis
    using kalloc_kfree_pool [of kmem_one 1] by (auto simp: pages_inv_def)
qed

end
