(* ===== verification/Sleeplock.thy ===== *)
theory Sleeplock
  imports Ptable
begin

text \<open>
  Sleeping locks (\<open>sleeplock.c\<close>).  A sleep lock is embedded in the object it protects, so the
  routines are parameterised by how the object's lock is read (\<open>get\<close>) and updated (\<open>upd\<close>),
  by the name \<open>l\<close> of its guarding spin lock and by the channel \<open>ch\<close> that is its address.
  A run of one process that would have to wait for the lock ends in \<open>Blocked ch\<close>; the
  waiting loop itself is cut into its atomic sections, \<open>acquiresleep_try\<close> and the wakeup in
  \<open>releasesleep\<close>.
\<close>

section \<open>Routines\<close>

record sleeplock =
  sl_locked :: bool
  sl_pid :: u32

definition initsleeplock ::
  "lockid \<Rightarrow> ((sleeplock \<Rightarrow> sleeplock) \<Rightarrow> 'a ptab_scheme \<Rightarrow> 'a ptab_scheme) \<Rightarrow>
     'a ptab_scheme \<Rightarrow> 'a ptab_scheme" where
  "initsleeplock l upd s =
     upd (\<lambda>_. \<lparr>sl_locked = False, sl_pid = 0\<rparr>) (s\<lparr>klk := klk s - {l}\<rparr>)"

text \<open>The section of \<open>acquiresleep\<close> from the acquisition of the guard, or the return from
  \<open>sleep\<close>, to the release of the guard or the next \<open>sleep\<close>: the result says whether the lock
  was taken.\<close>

definition acquiresleep_try ::
  "lockid \<Rightarrow> chan \<Rightarrow> ('a ptab_scheme \<Rightarrow> sleeplock) \<Rightarrow>
     ((sleeplock \<Rightarrow> sleeplock) \<Rightarrow> 'a ptab_scheme \<Rightarrow> 'a ptab_scheme) \<Rightarrow>
     'a ptab_scheme \<Rightarrow> (bool, 'a ptab_scheme) kresult" where
  "acquiresleep_try l ch get upd s =
     (if sl_locked (get s) then bindE (sleep_enter ch (Some l) s) (\<lambda>_ s. Inr (False, s))
      else case cur s of
             None \<Rightarrow> Inl BadAccess
           | Some p \<Rightarrow>
               (let s = upd (\<lambda>_. \<lparr>sl_locked = True, sl_pid = p_pid (ptable s ! p)\<rparr>) s in
                bindE (lk_release l s) (\<lambda>_ s. Inr (True, s))))"

definition acquiresleep ::
  "lockid \<Rightarrow> chan \<Rightarrow> ('a ptab_scheme \<Rightarrow> sleeplock) \<Rightarrow>
     ((sleeplock \<Rightarrow> sleeplock) \<Rightarrow> 'a ptab_scheme \<Rightarrow> 'a ptab_scheme) \<Rightarrow>
     'a ptab_scheme \<Rightarrow> (unit, 'a ptab_scheme) kresult" where
  "acquiresleep l ch get upd s =
     bindE (lk_acquire l s) (\<lambda>_ s.
       if sl_locked (get s) then Inl (Blocked ch)
       else bindE (acquiresleep_try l ch get upd s) (\<lambda>_ s. Inr ((), s)))"

definition releasesleep ::
  "lockid \<Rightarrow> chan \<Rightarrow> ((sleeplock \<Rightarrow> sleeplock) \<Rightarrow> 'a ptab_scheme \<Rightarrow> 'a ptab_scheme) \<Rightarrow>
     'a ptab_scheme \<Rightarrow> (unit, 'a ptab_scheme) kresult" where
  "releasesleep l ch upd s =
     bindE (lk_acquire l s) (\<lambda>_ s.
       let s = upd (\<lambda>_. \<lparr>sl_locked = False, sl_pid = 0\<rparr>) s in
       bindE (wakeup ch s) (\<lambda>_ s. lk_release l s))"

definition holdingsleep ::
  "lockid \<Rightarrow> ('a ptab_scheme \<Rightarrow> sleeplock) \<Rightarrow> 'a ptab_scheme \<Rightarrow>
     (bool, 'a ptab_scheme) kresult" where
  "holdingsleep l get s =
     bindE (lk_acquire l s) (\<lambda>_ s.
       let r = sl_locked (get s) in
       bindE (lk_release l s) (\<lambda>_ s. Inr (r, s)))"

section \<open>The contract of an embedded lock\<close>

text \<open>What the object that embeds a sleep lock promises: its lock is read back as it was
  written and lies apart from the spin locks, the current process and the process table.\<close>

locale sleeplock_cell =
  fixes l :: lockid
    and ch :: chan
    and get :: "'a ptab_scheme \<Rightarrow> sleeplock"
    and upd :: "(sleeplock \<Rightarrow> sleeplock) \<Rightarrow> 'a ptab_scheme \<Rightarrow> 'a ptab_scheme"
    and ok :: "'a ptab_scheme \<Rightarrow> bool"
  assumes not_ptable: "l \<noteq> PtableLock"
    and get_upd: "ok s \<Longrightarrow> get (upd f s) = f (get s)"
    and klk_upd: "klk (upd f s) = klk s"
    and cur_upd: "cur (upd f s) = cur s"
    and ptable_upd: "ptable (upd f s) = ptable s"
    and upd_klk: "upd f (s\<lparr>klk := L\<rparr>) = (upd f s)\<lparr>klk := L\<rparr>"
    and get_klk: "get (s\<lparr>klk := L\<rparr>) = get s"
begin

lemma acquiresleep_free:
  assumes "l \<notin> klk s" and "\<not> sl_locked (get s)" and "cur s = Some p"
  shows "acquiresleep l ch get upd s =
    Inr ((), upd (\<lambda>_. \<lparr>sl_locked = True, sl_pid = p_pid (ptable s ! p)\<rparr>) s)"
  using assms
  by (simp add: acquiresleep_def acquiresleep_try_def get_klk klk_upd upd_klk Let_def insert_absorb)

lemma acquiresleep_busy:
  assumes "l \<notin> klk s" and "sl_locked (get s)"
  shows "acquiresleep l ch get upd s = Inl (Blocked ch)"
  using assms by (simp add: acquiresleep_def get_klk)

lemma releasesleep_eq:
  assumes "l \<notin> klk s" and "PtableLock \<notin> klk s"
  shows "releasesleep l ch upd s =
    Inr ((), wakeup1 (Some ch) (upd (\<lambda>_. \<lparr>sl_locked = False, sl_pid = 0\<rparr>) s))"
  using assms not_ptable
  by (simp add: releasesleep_def klk_upd upd_klk Let_def wakeup1_def)

lemma holdingsleep_eq:
  assumes "l \<notin> klk s"
  shows "holdingsleep l get s = Inr (sl_locked (get s), s)"
  using assms by (simp add: holdingsleep_def get_klk Let_def)

end

end
