(* ===== verification/Bio.thy ===== *)
theory Bio
  imports Kalloc Sleeplock
begin

text \<open>
  The buffer cache (\<open>bio.c\<close>) over the memory disk driver (\<open>memide.c\<close>).  A pointer to a buffer is
  its index in \<open>bufs\<close>; the entry at index \<open>NBUF\<close> is \<open>bcache.head\<close>, the sentinel of the doubly
  linked list in order of last use.  \<open>disk\<close> is the image, by block number; a copy of \<open>BSIZE\<close> bytes
  between two blocks is an assignment of blocks.  \<open>dhist\<close> is a history variable: the blocks
  written to the disk, in order.  No routine reads it.
\<close>

section \<open>Data\<close>

definition NBUF :: nat where "NBUF = 30"
definition BSIZE :: nat where "BSIZE = 512"
definition B_VALID :: u32 where "B_VALID = 2"
definition B_DIRTY :: u32 where "B_DIRTY = 4"

record buf =
  b_flags :: u32
  b_dev :: u32
  b_blockno :: u32
  b_lock :: sleeplock
  b_refcnt :: u32
  b_prev :: nat
  b_next :: nat
  b_data :: block

record bio = kmem +
  bufs :: "buf list"
  disk :: "u32 \<Rightarrow> block"
  disksize :: u32
  dhist :: "(u32 \<times> block) list"

definition set_buf :: "nat \<Rightarrow> (buf \<Rightarrow> buf) \<Rightarrow> 'a bio_scheme \<Rightarrow> 'a bio_scheme" where
  "set_buf i f s = s\<lparr>bufs := (bufs s)[i := f (bufs s ! i)]\<rparr>"

definition buf_lock :: "nat \<Rightarrow> 'a bio_scheme \<Rightarrow> sleeplock" where
  "buf_lock i s = b_lock (bufs s ! i)"

definition set_buf_lock :: "nat \<Rightarrow> (sleeplock \<Rightarrow> sleeplock) \<Rightarrow> 'a bio_scheme \<Rightarrow> 'a bio_scheme" where
  "set_buf_lock i f s = set_buf i (\<lambda>b. b\<lparr>b_lock := f (b_lock b)\<rparr>) s"

definition acquire_buf :: "nat \<Rightarrow> 'a bio_scheme \<Rightarrow> (unit, 'a bio_scheme) kresult" where
  "acquire_buf i s = acquiresleep (BufLk i) (ChBufLock i) (buf_lock i) (set_buf_lock i) s"

definition release_buf :: "nat \<Rightarrow> 'a bio_scheme \<Rightarrow> (unit, 'a bio_scheme) kresult" where
  "release_buf i s = releasesleep (BufLk i) (ChBufLock i) (set_buf_lock i) s"

definition holding_buf :: "nat \<Rightarrow> 'a bio_scheme \<Rightarrow> (bool, 'a bio_scheme) kresult" where
  "holding_buf i s = holdingsleep (BufLk i) (buf_lock i) s"

section \<open>The memory disk\<close>

definition ideinit :: "u32 \<Rightarrow> 'a bio_scheme \<Rightarrow> 'a bio_scheme" where
  "ideinit img_size s = s\<lparr>disksize := img_size div of_nat BSIZE\<rparr>"

definition iderw :: "nat \<Rightarrow> 'a bio_scheme \<Rightarrow> (unit, 'a bio_scheme) kresult" where
  "iderw i s =
     bindE (holding_buf i s) (\<lambda>h s.
       let b = bufs s ! i in
       if \<not> h then Inl (Panic ''iderw: buf not locked'')
       else if b_flags b AND (B_VALID OR B_DIRTY) = B_VALID then Inl (Panic ''iderw: nothing to do'')
       else if b_dev b \<noteq> 1 then Inl (Panic ''iderw: request not for disk 1'')
       else if b_blockno b \<ge> disksize s then Inl (Panic ''iderw: block out of range'')
       else if b_flags b AND B_DIRTY \<noteq> 0 then
         Inr ((), set_buf i (\<lambda>b. b\<lparr>b_flags := (b_flags b AND NOT B_DIRTY) OR B_VALID\<rparr>)
                    (s\<lparr>disk := (disk s)(b_blockno b := b_data b),
                       dhist := dhist s @ [(b_blockno b, b_data b)]\<rparr>))
       else
         Inr ((), set_buf i (\<lambda>b. b\<lparr>b_data := disk s (b_blockno b), b_flags := b_flags b OR B_VALID\<rparr>) s))"

section \<open>The cache\<close>

fun binit_loop :: "nat list \<Rightarrow> 'a bio_scheme \<Rightarrow> 'a bio_scheme" where
  "binit_loop [] s = s"
| "binit_loop (b # bs) s =
     (let s = set_buf b (\<lambda>x. x\<lparr>b_next := b_next (bufs s ! NBUF), b_prev := NBUF\<rparr>) s;
          s = initsleeplock (BufLk b) (set_buf_lock b) s;
          s = set_buf (b_next (bufs s ! NBUF)) (\<lambda>x. x\<lparr>b_prev := b\<rparr>) s;
          s = set_buf NBUF (\<lambda>x. x\<lparr>b_next := b\<rparr>) s
      in binit_loop bs s)"

definition binit :: "'a bio_scheme \<Rightarrow> 'a bio_scheme" where
  "binit s =
     binit_loop [0..<NBUF]
       (set_buf NBUF (\<lambda>x. x\<lparr>b_prev := NBUF, b_next := NBUF\<rparr>) (s\<lparr>klk := klk s - {BcacheLock}\<rparr>))"

text \<open>The search loops of \<open>bget\<close> follow \<open>next\<close> or \<open>prev\<close> from \<open>b\<close> to the sentinel; the result is
  \<open>None\<close> only if they never come to it.\<close>

partial_function (option) find_buf ::
  "(buf \<Rightarrow> nat) \<Rightarrow> (buf \<Rightarrow> bool) \<Rightarrow> buf list \<Rightarrow> nat \<Rightarrow> nat option option" where
  "find_buf link P bs b =
     (if b = NBUF then Some None
      else if P (bs ! b) then Some (Some b)
      else find_buf link P bs (link (bs ! b)))"

definition bget :: "u32 \<Rightarrow> u32 \<Rightarrow> 'a bio_scheme \<Rightarrow> (nat, 'a bio_scheme) kresult" where
  "bget dev blockno s =
     bindE (lk_acquire BcacheLock s) (\<lambda>_ s.
       case find_buf b_next (\<lambda>b. b_dev b = dev \<and> b_blockno b = blockno) (bufs s)
              (b_next (bufs s ! NBUF)) of
         None \<Rightarrow> Inl Diverges
       | Some (Some i) \<Rightarrow>
           bindE (lk_release BcacheLock (set_buf i (\<lambda>b. b\<lparr>b_refcnt := b_refcnt b + 1\<rparr>) s)) (\<lambda>_ s.
           bindE (acquire_buf i s) (\<lambda>_ s. Inr (i, s)))
       | Some None \<Rightarrow>
           (case find_buf b_prev (\<lambda>b. b_refcnt b = 0 \<and> b_flags b AND B_DIRTY = 0) (bufs s)
                   (b_prev (bufs s ! NBUF)) of
              None \<Rightarrow> Inl Diverges
            | Some None \<Rightarrow> Inl (Panic ''bget: no buffers'')
            | Some (Some i) \<Rightarrow>
                bindE (lk_release BcacheLock
                         (set_buf i (\<lambda>b. b\<lparr>b_dev := dev, b_blockno := blockno, b_flags := 0,
                                           b_refcnt := 1\<rparr>) s)) (\<lambda>_ s.
                bindE (acquire_buf i s) (\<lambda>_ s. Inr (i, s)))))"

definition bread :: "u32 \<Rightarrow> u32 \<Rightarrow> 'a bio_scheme \<Rightarrow> (nat, 'a bio_scheme) kresult" where
  "bread dev blockno s =
     bindE (bget dev blockno s) (\<lambda>i s.
       if b_flags (bufs s ! i) AND B_VALID = 0
       then bindE (iderw i s) (\<lambda>_ s. Inr (i, s))
       else Inr (i, s))"

definition bwrite :: "nat \<Rightarrow> 'a bio_scheme \<Rightarrow> (unit, 'a bio_scheme) kresult" where
  "bwrite i s =
     bindE (holding_buf i s) (\<lambda>h s.
       if \<not> h then Inl (Panic ''bwrite'')
       else iderw i (set_buf i (\<lambda>b. b\<lparr>b_flags := b_flags b OR B_DIRTY\<rparr>) s))"

text \<open>The list surgery of \<open>brelse\<close>: unlink \<open>i\<close> and put it right after the sentinel.\<close>

definition move_to_front :: "nat \<Rightarrow> 'a bio_scheme \<Rightarrow> 'a bio_scheme" where
  "move_to_front i s =
     (let s = set_buf (b_next (bufs s ! i)) (\<lambda>x. x\<lparr>b_prev := b_prev (bufs s ! i)\<rparr>) s;
          s = set_buf (b_prev (bufs s ! i)) (\<lambda>x. x\<lparr>b_next := b_next (bufs s ! i)\<rparr>) s;
          s = set_buf i (\<lambda>x. x\<lparr>b_next := b_next (bufs s ! NBUF)\<rparr>) s;
          s = set_buf i (\<lambda>x. x\<lparr>b_prev := NBUF\<rparr>) s;
          s = set_buf (b_next (bufs s ! NBUF)) (\<lambda>x. x\<lparr>b_prev := i\<rparr>) s
      in set_buf NBUF (\<lambda>x. x\<lparr>b_next := i\<rparr>) s)"

definition brelse :: "nat \<Rightarrow> 'a bio_scheme \<Rightarrow> (unit, 'a bio_scheme) kresult" where
  "brelse i s =
     bindE (holding_buf i s) (\<lambda>h s.
       if \<not> h then Inl (Panic ''brelse'')
       else
         bindE (release_buf i s) (\<lambda>_ s.
         bindE (lk_acquire BcacheLock s) (\<lambda>_ s.
           let s = set_buf i (\<lambda>b. b\<lparr>b_refcnt := b_refcnt b - 1\<rparr>) s;
               s = (if b_refcnt (bufs s ! i) = 0 then move_to_front i s else s)
           in lk_release BcacheLock s)))"

section \<open>The lock in a buffer\<close>

interpretation buf_cell: sleeplock_cell "BufLk i" "ChBufLock i" "buf_lock i" "set_buf_lock i"
    "\<lambda>s. i < length (bufs s)"
  by unfold_locales (simp_all add: buf_lock_def set_buf_lock_def set_buf_def)

section \<open>Linked lists through an array\<close>

text \<open>\<open>chain f a xs z\<close>: following \<open>f\<close> from \<open>a\<close> visits \<open>xs\<close> and then arrives at \<open>z\<close>.\<close>

fun chain :: "(nat \<Rightarrow> nat) \<Rightarrow> nat \<Rightarrow> nat list \<Rightarrow> nat \<Rightarrow> bool" where
  "chain f a [] z \<longleftrightarrow> f a = z"
| "chain f a (x # xs) z \<longleftrightarrow> f a = x \<and> chain f x xs z"

lemma chain_append: "chain f a (us @ v # vs) z \<longleftrightarrow> chain f a us v \<and> chain f v vs z"
  by (induction us arbitrary: a) auto

lemma chain_cong: "(\<And>x. x \<in> set (a # xs) \<Longrightarrow> f x = g x) \<Longrightarrow> chain f a xs z = chain g a xs z"
  by (induction xs arbitrary: a) auto

lemma chain_fst: "chain f a xs z \<Longrightarrow> f a = hd (xs @ [z])"
  by (cases xs) auto

lemma chain_redirect:
  assumes "chain f a us v" and "distinct (a # us)"
  shows "chain (f(last (a # us) := w)) a us w"
  using assms
proof (induction us arbitrary: a)
  case (Cons x xs)
  then have "last (x # xs) \<noteq> a" using last_in_set [of "x # xs"] by auto
  with Cons show ?case by simp
qed simp

lemma chain_unlink:
  assumes "chain f a (us @ i # vs) z" and "distinct (a # us @ i # vs)"
  shows "chain (f(last (a # us) := hd (vs @ [z]))) a (us @ vs) z"
proof -
  let ?f = "f(last (a # us) := hd (vs @ [z]))"
  have u: "chain f a us i" and v: "chain f i vs z" using assms(1) by (simp_all add: chain_append)
  have us: "chain ?f a us (hd (vs @ [z]))" using chain_redirect [OF u] assms(2) by simp
  show ?thesis
  proof (cases vs)
    case Nil
    with us show ?thesis by simp
  next
    case (Cons w ws)
    have "last (a # us) \<notin> set (w # ws)"
      using assms(2) Cons last_in_set [of "a # us"] by auto
    then have "chain ?f w ws z = chain f w ws z" by (intro chain_cong) auto
    with us v Cons show ?thesis by (simp add: chain_append)
  qed
qed

lemma chain_link_front:
  assumes "chain f a xs z" and "i \<noteq> a" and "i \<notin> set xs" and "a \<notin> set xs"
  shows "chain (f(i := f a, a := i)) a (i # xs) z"
proof (cases xs)
  case (Cons y ys)
  have "chain (f(i := f a, a := i)) y ys z = chain f y ys z"
    using assms Cons by (intro chain_cong) auto
  with assms Cons show ?thesis by simp
qed (use assms in simp)

lemma chain_link_back:
  assumes "chain f a ys a" and "i \<noteq> a" and "i \<notin> set ys" and "distinct (a # ys)"
  shows "chain (f(i := a, last (a # ys) := i)) a (ys @ [i]) a"
proof -
  have "last (a # ys) \<noteq> i" using assms(2,3) last_in_set [of "a # ys"] by auto
  moreover have "chain (f(i := a)) a ys a = chain f a ys a"
    using assms by (intro chain_cong) auto
  ultimately show ?thesis
    using chain_redirect [of "f(i := a)" a ys a i] assms
    by (simp add: chain_append del: last.simps)
qed

section \<open>The list in order of last use\<close>

definition lru :: "buf list \<Rightarrow> nat list \<Rightarrow> bool" where
  "lru bs xs \<longleftrightarrow> length bs = Suc NBUF \<and> distinct xs \<and> set xs = {0..<NBUF} \<and>
     chain (\<lambda>i. b_next (bs ! i)) NBUF xs NBUF \<and> chain (\<lambda>i. b_prev (bs ! i)) NBUF (rev xs) NBUF"

text \<open>\<open>to_front i xs\<close> is what a release does to the order: \<open>i\<close> becomes the most recent.\<close>

definition to_front :: "nat \<Rightarrow> nat list \<Rightarrow> nat list" where
  "to_front i xs = i # remove1 i xs"

lemma find_buf_chain:
  assumes "chain (\<lambda>i. link (bs ! i)) a xs NBUF" and "NBUF \<notin> set xs"
  shows "find_buf link P bs (link (bs ! a)) = Some (find (\<lambda>i. P (bs ! i)) xs)"
  using assms
proof (induction xs arbitrary: a)
  case Nil
  then show ?case by (simp add: find_buf.simps)
next
  case (Cons x xs)
  then show ?case by (subst find_buf.simps) auto
qed

lemma lru_find_next:
  "lru bs xs \<Longrightarrow> find_buf b_next P bs (b_next (bs ! NBUF)) = Some (find (\<lambda>i. P (bs ! i)) xs)"
  by (rule find_buf_chain) (auto simp: lru_def)

lemma lru_find_prev:
  "lru bs xs \<Longrightarrow> find_buf b_prev P bs (b_prev (bs ! NBUF)) = Some (find (\<lambda>i. P (bs ! i)) (rev xs))"
  by (rule find_buf_chain) (auto simp: lru_def)

text \<open>An update that keeps the links keeps the list.\<close>

lemma lru_links:
  assumes l: "lru bs xs" and "length bs' = length bs"
    and e: "\<And>i. i \<le> NBUF \<Longrightarrow> b_next (bs' ! i) = b_next (bs ! i) \<and> b_prev (bs' ! i) = b_prev (bs ! i)"
  shows "lru bs' xs"
proof -
  have le: "x \<le> NBUF" if "x \<in> set (NBUF # xs)" for x using that l by (auto simp: lru_def)
  have "chain (\<lambda>i. b_next (bs' ! i)) NBUF xs NBUF = chain (\<lambda>i. b_next (bs ! i)) NBUF xs NBUF"
    by (rule chain_cong) (use le e in simp)
  moreover have "chain (\<lambda>i. b_prev (bs' ! i)) NBUF (rev xs) NBUF
      = chain (\<lambda>i. b_prev (bs ! i)) NBUF (rev xs) NBUF"
    by (rule chain_cong) (use le e in simp)
  ultimately show ?thesis using assms(1,2) by (simp add: lru_def)
qed

lemma lru_set_buf:
  assumes "lru (bufs s) xs" and "\<And>b. b_next (f b) = b_next b \<and> b_prev (f b) = b_prev b"
  shows "lru (bufs (set_buf i f s)) xs"
proof (rule lru_links [OF assms(1)])
  fix j assume "j \<le> NBUF"
  with assms show "b_next (bufs (set_buf i f s) ! j) = b_next (bufs s ! j) \<and>
      b_prev (bufs (set_buf i f s) ! j) = b_prev (bufs s ! j)"
    by (cases "i = j") (auto simp: set_buf_def lru_def)
qed (simp add: set_buf_def)

definition nexts :: "'a bio_scheme \<Rightarrow> nat \<Rightarrow> nat" where
  "nexts s j = b_next (bufs s ! j)"

definition prevs :: "'a bio_scheme \<Rightarrow> nat \<Rightarrow> nat" where
  "prevs s j = b_prev (bufs s ! j)"

lemma length_bufs_set_buf [simp]: "length (bufs (set_buf i f s)) = length (bufs s)"
  by (simp add: set_buf_def)

lemma nexts_set_next:
  "i < length (bufs s) \<Longrightarrow> nexts (set_buf i (\<lambda>x. x\<lparr>b_next := v\<rparr>) s) = (nexts s)(i := v)"
  by (auto simp: fun_eq_iff nexts_def set_buf_def nth_list_update not_less list_update_beyond)

lemma nexts_set_prev: "nexts (set_buf i (\<lambda>x. x\<lparr>b_prev := v\<rparr>) s) = nexts s"
  by (cases "i < length (bufs s)") (auto simp: fun_eq_iff nexts_def set_buf_def nth_list_update not_less list_update_beyond)

lemma prevs_set_prev:
  "i < length (bufs s) \<Longrightarrow> prevs (set_buf i (\<lambda>x. x\<lparr>b_prev := v\<rparr>) s) = (prevs s)(i := v)"
  by (auto simp: fun_eq_iff prevs_def set_buf_def nth_list_update not_less list_update_beyond)

lemma prevs_set_next: "prevs (set_buf i (\<lambda>x. x\<lparr>b_next := v\<rparr>) s) = prevs s"
  by (cases "i < length (bufs s)") (auto simp: fun_eq_iff prevs_def set_buf_def nth_list_update not_less list_update_beyond)

lemmas links_set = nexts_set_next nexts_set_prev prevs_set_prev prevs_set_next

lemma move_to_front_links:
  "move_to_front i s =
     (let s1 = set_buf (nexts s i) (\<lambda>x. x\<lparr>b_prev := prevs s i\<rparr>) s;
          s2 = set_buf (prevs s1 i) (\<lambda>x. x\<lparr>b_next := nexts s1 i\<rparr>) s1;
          s3 = set_buf i (\<lambda>x. x\<lparr>b_next := nexts s2 NBUF\<rparr>) s2;
          s4 = set_buf i (\<lambda>x. x\<lparr>b_prev := NBUF\<rparr>) s3;
          s5 = set_buf (nexts s4 NBUF) (\<lambda>x. x\<lparr>b_prev := i\<rparr>) s4
      in set_buf NBUF (\<lambda>x. x\<lparr>b_next := i\<rparr>) s5)"
  by (simp add: move_to_front_def nexts_def prevs_def)

lemma move_to_front_funs:
  assumes "length (bufs s) = Suc NBUF" and "i < NBUF" and "nexts s i \<le> NBUF" and "prevs s i \<le> NBUF"
    and "nexts s i \<noteq> i" and "prevs s i \<noteq> i" and "nexts s NBUF \<le> NBUF"
  shows "nexts (move_to_front i s) =
      (nexts s)(prevs s i := nexts s i, i := ((nexts s)(prevs s i := nexts s i)) NBUF, NBUF := i)"
    and "prevs (move_to_front i s) = (prevs s)(nexts s i := prevs s i, i := NBUF,
      ((nexts s)(prevs s i := nexts s i)) NBUF := i)"
  using assms by (simp_all add: move_to_front_links Let_def links_set less_Suc_eq_le)

lemma lru_iff:
  "lru (bufs s) xs \<longleftrightarrow> length (bufs s) = Suc NBUF \<and> distinct xs \<and> set xs = {0..<NBUF} \<and>
     chain (nexts s) NBUF xs NBUF \<and> chain (prevs s) NBUF (rev xs) NBUF"
  by (simp add: lru_def nexts_def [abs_def] prevs_def [abs_def])

lemma move_to_front_lru:
  assumes l: "lru (bufs s) xs" and i: "i < NBUF"
  shows "lru (bufs (move_to_front i s)) (to_front i xs)"
proof -
  have "i \<in> set xs" using l i by (simp add: lru_iff)
  then obtain us vs where xs: "xs = us @ i # vs" by (auto simp: in_set_conv_decomp)
  have d: "distinct (NBUF # us @ i # vs)" and st: "set us \<union> {i} \<union> set vs = {0..<NBUF}"
    using l xs by (auto simp: lru_iff)
  have N: "chain (nexts s) NBUF (us @ i # vs) NBUF"
    and P: "chain (prevs s) NBUF (rev vs @ i # rev us) NBUF"
    using l xs by (simp_all add: lru_iff)
  have ni: "nexts s i = hd (vs @ [NBUF])"
    using N by (auto simp: chain_append dest: chain_fst)
  have pi: "prevs s i = hd (rev us @ [NBUF])"
    using P by (auto simp: chain_append dest: chain_fst)
  have pi': "hd (rev us @ [NBUF]) = last (NBUF # us)" and ni': "hd (vs @ [NBUF]) = last (NBUF # rev vs)"
    by (cases us rule: rev_cases; simp) (cases vs; simp)
  have hd_in: "hd (ys @ [z]) \<in> insert z (set ys)" for ys and z :: nat by (cases ys) auto
  have le: "x \<le> NBUF" if "x \<in> insert NBUF (set us \<union> {i} \<union> set vs)" for x
    using that unfolding st by auto
  have h: "nexts s NBUF \<le> NBUF"
    using chain_fst [OF N] hd_in [of "us @ i # vs" NBUF] by (intro le) auto
  have nb: "nexts s i \<le> NBUF" "nexts s i \<noteq> i"
    using ni hd_in [of vs NBUF] d by (auto intro!: le)
  have pb: "prevs s i \<le> NBUF" "prevs s i \<noteq> i"
    using pi hd_in [of "rev us" NBUF] d by (auto intro!: le)
  have len: "length (bufs s) = Suc NBUF" using l by (simp add: lru_iff)
  note F = move_to_front_funs [OF len i nb(1) pb(1) nb(2) pb(2) h]
  let ?N = "(nexts s)(prevs s i := nexts s i)" and ?P = "(prevs s)(nexts s i := prevs s i)"
  have N1: "chain ?N NBUF (us @ vs) NBUF"
    using chain_unlink [OF N d] pi pi' ni by simp
  have P1: "chain ?P NBUF (rev (us @ vs)) NBUF"
    using chain_unlink [OF P] d pi ni ni' by (auto simp: Int_commute)
  have "chain (nexts (move_to_front i s)) NBUF (i # us @ vs) NBUF"
    unfolding F(1) by (rule chain_link_front [OF N1]) (use d i in auto)
  moreover have "?N NBUF = last (NBUF # rev (us @ vs))"
    using chain_fst [OF N1] by (cases "us @ vs") auto
  then have "chain (prevs (move_to_front i s)) NBUF (rev (us @ vs) @ [i]) NBUF"
    unfolding F(2) using chain_link_back [OF P1, of i] d i
    by (auto simp: Int_commute simp del: last.simps rev_append)
  moreover have "length (bufs (move_to_front i s)) = Suc NBUF"
    using len by (simp add: move_to_front_def Let_def)
  moreover have "to_front i xs = i # us @ vs"
    using d xs by (simp add: to_front_def remove1_append)
  ultimately show ?thesis using d st i by (auto simp: lru_iff)
qed

section \<open>Flags\<close>

definition valid :: "buf \<Rightarrow> bool" where "valid b \<longleftrightarrow> bit (b_flags b) 1"
definition dirty :: "buf \<Rightarrow> bool" where "dirty b \<longleftrightarrow> bit (b_flags b) 2"
definition locked :: "buf \<Rightarrow> bool" where "locked b \<longleftrightarrow> sl_locked (b_lock b)"

lemma flag_bits:
  "B_VALID = 2 ^ 1" "B_DIRTY = 2 ^ 2"
  by (simp_all add: B_VALID_def B_DIRTY_def)

lemma flags_valid [simp]: "b_flags b AND B_VALID = 0 \<longleftrightarrow> \<not> valid b"
  unfolding flag_bits valid_def by (rule and_exp_eq_0_iff_not_bit)

lemma flags_dirty [simp]: "b_flags b AND B_DIRTY = 0 \<longleftrightarrow> \<not> dirty b"
  unfolding flag_bits dirty_def by (rule and_exp_eq_0_iff_not_bit)

lemma word_eq_bits: "(a :: u32) = b \<longleftrightarrow> (\<forall>n. bit a n = bit b n)"
  by (auto intro: bit_word_eqI)

lemma flags_clean [simp]: "b_flags b AND (B_VALID OR B_DIRTY) = B_VALID \<longleftrightarrow> valid b \<and> \<not> dirty b"
proof -
  let ?w = "b_flags b"
  have l: "bit (?w AND (2 ^ 1 OR 2 ^ 2)) n \<longleftrightarrow> bit ?w n \<and> (n = 1 \<or> n = 2) \<and> n < 32" for n
    by (simp only: bit_and_iff bit_or_iff bit_exp_iff possible_bit_word) auto
  have r: "bit (2 ^ 1 :: u32) n \<longleftrightarrow> n = 1" for n
    by (simp only: bit_exp_iff possible_bit_word) auto
  have "(\<forall>n. (bit ?w n \<and> (n = 1 \<or> n = 2) \<and> n < 32) = (n = 1)) \<longleftrightarrow> bit ?w 1 \<and> \<not> bit ?w 2"
    (is "?l = ?r")
  proof
    assume ?l
    from spec [OF this, of 1] spec [OF this, of 2] show ?r by simp
  qed auto
  then show ?thesis unfolding flag_bits valid_def dirty_def word_eq_bits l r .
qed

lemma flags_update [simp]:
  "valid (b\<lparr>b_flags := f OR B_VALID\<rparr>)"
  "dirty (b\<lparr>b_flags := f OR B_VALID\<rparr>) \<longleftrightarrow> bit f 2"
  "valid (b\<lparr>b_flags := f OR B_DIRTY\<rparr>) \<longleftrightarrow> bit f 1"
  "dirty (b\<lparr>b_flags := f OR B_DIRTY\<rparr>)"
  "\<not> bit (f AND NOT B_DIRTY) 2"
  "\<not> valid (b\<lparr>b_flags := 0\<rparr>)" "\<not> dirty (b\<lparr>b_flags := 0\<rparr>)"
  unfolding valid_def dirty_def flag_bits by (simp_all add: bit_simps)

lemma status_update [simp]:
  "valid (b\<lparr>b_dev := d\<rparr>) = valid b" "valid (b\<lparr>b_blockno := n\<rparr>) = valid b"
  "valid (b\<lparr>b_lock := k\<rparr>) = valid b" "valid (b\<lparr>b_refcnt := c\<rparr>) = valid b"
  "valid (b\<lparr>b_prev := i\<rparr>) = valid b" "valid (b\<lparr>b_next := i\<rparr>) = valid b"
  "valid (b\<lparr>b_data := x\<rparr>) = valid b"
  "dirty (b\<lparr>b_dev := d\<rparr>) = dirty b" "dirty (b\<lparr>b_blockno := n\<rparr>) = dirty b"
  "dirty (b\<lparr>b_lock := k\<rparr>) = dirty b" "dirty (b\<lparr>b_refcnt := c\<rparr>) = dirty b"
  "dirty (b\<lparr>b_prev := i\<rparr>) = dirty b" "dirty (b\<lparr>b_next := i\<rparr>) = dirty b"
  "dirty (b\<lparr>b_data := x\<rparr>) = dirty b"
  "locked (b\<lparr>b_dev := d\<rparr>) = locked b" "locked (b\<lparr>b_blockno := n\<rparr>) = locked b"
  "locked (b\<lparr>b_lock := k\<rparr>) = sl_locked k" "locked (b\<lparr>b_refcnt := c\<rparr>) = locked b"
  "locked (b\<lparr>b_prev := i\<rparr>) = locked b" "locked (b\<lparr>b_next := i\<rparr>) = locked b"
  "locked (b\<lparr>b_data := x\<rparr>) = locked b" "locked (b\<lparr>b_flags := f\<rparr>) = locked b"
  by (simp_all add: valid_def dirty_def locked_def)

section \<open>The invariant and the blocks as the callers see them\<close>

text \<open>What holds of each buffer while one process uses the cache: it caches a block of the disk
  or was never used, its reference count is 1 exactly while it is locked, a dirty buffer and a
  locked one have contents, and the contents of a clean unlocked one are those on the disk.\<close>

definition buf_ok :: "(u32 \<Rightarrow> block) \<Rightarrow> u32 \<Rightarrow> buf \<Rightarrow> bool" where
  "buf_ok d sz b \<longleftrightarrow>
     (b_dev b = 1 \<and> b_blockno b < sz \<and> valid b \<or> b_dev b = 0 \<and> \<not> valid b \<and> \<not> dirty b \<and> \<not> locked b) \<and>
     b_refcnt b = (if locked b then 1 else 0) \<and>
     (valid b \<and> \<not> dirty b \<and> \<not> locked b \<longrightarrow> b_data b = d (b_blockno b))"

definition caches :: "'a bio_scheme \<Rightarrow> nat \<Rightarrow> u32 \<Rightarrow> bool" where
  "caches s i n \<longleftrightarrow> i < NBUF \<and> b_dev (bufs s ! i) = 1 \<and> b_blockno (bufs s ! i) = n"

definition bio_inv :: "'a bio_scheme \<Rightarrow> bool" where
  "bio_inv s \<longleftrightarrow> (\<exists>xs. lru (bufs s) xs) \<and>
     (\<forall>i < NBUF. buf_ok (disk s) (disksize s) (bufs s ! i)) \<and>
     (\<forall>i j n. caches s i n \<longrightarrow> caches s j n \<longrightarrow> i = j)"

text \<open>No spin lock that the cache takes is held, and a process is running.\<close>

definition bio_idle :: "'a bio_scheme \<Rightarrow> bool" where
  "bio_idle s \<longleftrightarrow> BcacheLock \<notin> klk s \<and> PtableLock \<notin> klk s \<and> (\<forall>i. BufLk i \<notin> klk s) \<and> cur s \<noteq> None"

definition owns_buf :: "'a bio_scheme \<Rightarrow> nat \<Rightarrow> u32 \<Rightarrow> bool" where
  "owns_buf s i n \<longleftrightarrow> caches s i n \<and> locked (bufs s ! i)"

definition held_blocks :: "'a bio_scheme \<Rightarrow> u32 set" where
  "held_blocks s = {n. \<exists>i. caches s i n \<and> locked (bufs s ! i)}"

definition dirty_blocks :: "'a bio_scheme \<Rightarrow> u32 set" where
  "dirty_blocks s = {n. \<exists>i. caches s i n \<and> dirty (bufs s ! i)}"

text \<open>The contents of a block as a reader would get them: those of its buffer, if it has one,
  else those on the disk.\<close>

definition view :: "'a bio_scheme \<Rightarrow> u32 \<Rightarrow> block" where
  "view s n =
     (case first_index (\<lambda>b. b_dev b = 1 \<and> b_blockno b = n) (take NBUF (bufs s)) of
        Some i \<Rightarrow> b_data (bufs s ! i)
      | None \<Rightarrow> disk s n)"

lemma lru_length: "lru bs xs \<Longrightarrow> length bs = Suc NBUF"
  by (simp add: lru_def)

lemma bio_inv_length [simp]: "bio_inv s \<Longrightarrow> length (bufs s) = Suc NBUF"
  by (auto simp: bio_inv_def lru_length)

lemma view_cached:
  assumes "bio_inv s" and "caches s i n"
  shows "view s n = b_data (bufs s ! i)"
proof -
  have "i < length (take NBUF (bufs s))" using assms by (simp add: caches_def)
  moreover have "b_dev (take NBUF (bufs s) ! i) = 1 \<and> b_blockno (take NBUF (bufs s) ! i) = n"
    using assms by (simp add: caches_def)
  ultimately obtain k where k: "first_index (\<lambda>b. b_dev b = 1 \<and> b_blockno b = n) (take NBUF (bufs s)) = Some k"
    using first_index_ex [of i "take NBUF (bufs s)" "\<lambda>b. b_dev b = 1 \<and> b_blockno b = n"] by blast
  from first_index_SomeD [OF this] assms have "caches s k n" by (auto simp: caches_def)
  with assms have "k = i" unfolding bio_inv_def by blast
  with k show ?thesis by (simp add: view_def)
qed

lemma view_uncached:
  assumes "bio_inv s" and "\<And>i. \<not> caches s i n"
  shows "view s n = disk s n"
proof -
  have "first_index (\<lambda>b. b_dev b = 1 \<and> b_blockno b = n) (take NBUF (bufs s)) = None"
    unfolding first_index_None_iff
  proof (intro ballI notI)
    fix b assume "b \<in> set (take NBUF (bufs s))" and b: "b_dev b = 1 \<and> b_blockno b = n"
    then obtain i where "i < NBUF" "b = bufs s ! i" by (auto simp: in_set_conv_nth)
    with b assms(2) [of i] show False by (simp add: caches_def)
  qed
  then show ?thesis by (simp add: view_def)
qed

lemma view_eqI:
  assumes "bio_inv s" and "\<And>i. caches s i n \<Longrightarrow> b_data (bufs s ! i) = x"
    and "(\<And>i. \<not> caches s i n) \<Longrightarrow> disk s n = x"
  shows "view s n = x"
  using assms view_cached view_uncached by metis

lemma view_disk:
  assumes "bio_inv s" and "n \<notin> held_blocks s" and "n \<notin> dirty_blocks s"
  shows "view s n = disk s n"
proof (rule view_eqI [OF assms(1)])
  fix i assume c: "caches s i n"
  then have "buf_ok (disk s) (disksize s) (bufs s ! i)" using assms(1)
    by (simp add: bio_inv_def caches_def)
  then show "b_data (bufs s ! i) = disk s n"
    using assms(2,3) c by (auto simp: buf_ok_def held_blocks_def dirty_blocks_def caches_def)
qed simp

section \<open>What an operation leaves alone\<close>

definition bio_frame :: "'a bio_scheme \<Rightarrow> 'a bio_scheme \<Rightarrow> bool" where
  "bio_frame s s' \<longleftrightarrow> (\<exists>T B D H. s' = s\<lparr>ptable := T, bufs := B, disk := D, dhist := H\<rparr> \<and>
     woken (ptable s) T)"

lemma bio_frame_refl [simp]: "bio_frame s s"
  unfolding bio_frame_def by (intro exI [of _ "ptable s"] exI [of _ "bufs s"] exI [of _ "disk s"]
    exI [of _ "dhist s"]) simp

lemma bio_frame_trans:
  assumes "bio_frame s s'" and "bio_frame s' s''"
  shows "bio_frame s s''"
proof -
  obtain T B D H where 1: "s' = s\<lparr>ptable := T, bufs := B, disk := D, dhist := H\<rparr>"
    "woken (ptable s) T" using assms(1) unfolding bio_frame_def by blast
  obtain T' B' D' H' where 2: "s'' = s'\<lparr>ptable := T', bufs := B', disk := D', dhist := H'\<rparr>"
    "woken (ptable s') T'" using assms(2) unfolding bio_frame_def by blast
  have "woken (ptable s) T'" using 1 2 by (auto intro: woken_trans)
  with 1 2 show ?thesis unfolding bio_frame_def
    by (intro exI [of _ T'] exI [of _ B'] exI [of _ D'] exI [of _ H']) simp
qed

lemma bio_frame_set_buf [simp]: "bio_frame s (set_buf i f s)"
  unfolding bio_frame_def set_buf_def
  by (intro exI [of _ "ptable s"] exI [of _ "(bufs s)[i := f (bufs s ! i)]"] exI [of _ "disk s"]
    exI [of _ "dhist s"]) simp

lemma bio_frame_simps:
  assumes "bio_frame s s'"
  shows "klk s' = klk s" "cur s' = cur s" "disksize s' = disksize s" "bio.more s' = bio.more s"
    "mem s' = mem s" "freelist s' = freelist s" "kend s' = kend s" "use_lock s' = use_lock s"
    "bio_idle s' = bio_idle s"
  using assms by (auto simp: bio_frame_def bio_idle_def)

section \<open>Updates of one buffer\<close>

lemma set_buf_comp:
  "i < length (bufs s) \<Longrightarrow> set_buf i f (set_buf i g s) = set_buf i (\<lambda>b. f (g b)) s"
  by (simp add: set_buf_def)

lemma nth_set_buf: "i < length (bufs s) \<Longrightarrow> bufs (set_buf i f s) ! j = (if j = i then f (bufs s ! i) else bufs s ! j)"
  by (simp add: set_buf_def)

lemma caches_set_buf:
  assumes "i < length (bufs s)"
  shows "caches (set_buf i f s) j m \<longleftrightarrow>
    (if j = i then i < NBUF \<and> b_dev (f (bufs s ! i)) = 1 \<and> b_blockno (f (bufs s ! i)) = m
     else caches s j m)"
  using assms by (auto simp: caches_def nth_set_buf)

lemma set_buf_fields [simp]:
  "disk (set_buf i f s) = disk s" "dhist (set_buf i f s) = dhist s"
  "disksize (set_buf i f s) = disksize s" "klk (set_buf i f s) = klk s"
  "cur (set_buf i f s) = cur s" "ptable (set_buf i f s) = ptable s"
  by (simp_all add: set_buf_def)

lemma bio_inv_set_buf:
  assumes "bio_inv s" and "i < NBUF"
    and "\<And>b. b_next (f b) = b_next b \<and> b_prev (f b) = b_prev b"
    and "buf_ok (disk s) (disksize s) (f (bufs s ! i))"
    and "\<And>j. j \<noteq> i \<Longrightarrow> b_dev (f (bufs s ! i)) = 1 \<Longrightarrow> \<not> caches s j (b_blockno (f (bufs s ! i)))"
  shows "bio_inv (set_buf i f s)"
proof -
  have len: "i < length (bufs s)" using assms(1,2) by simp
  obtain xs where "lru (bufs s) xs" using assms(1) by (auto simp: bio_inv_def)
  then have "lru (bufs (set_buf i f s)) xs" using assms(3) by (rule lru_set_buf)
  moreover have "\<forall>j < NBUF. buf_ok (disk s) (disksize s) (bufs (set_buf i f s) ! j)"
    using assms(1,2,4) by (auto simp: bio_inv_def nth_set_buf len)
  moreover have "j = k" if "caches (set_buf i f s) j n" "caches (set_buf i f s) k n" for j k n
    using that assms(1,5) by (auto simp: caches_set_buf len bio_inv_def split: if_splits)
  ultimately show ?thesis unfolding bio_inv_def by auto
qed

lemma uncached_others:
  assumes "bio_inv s" and "caches s i n" and "j \<noteq> i"
  shows "\<not> caches s j n"
  using assms unfolding bio_inv_def by blast

lemma caches_ok: "bio_inv s \<Longrightarrow> caches s i n \<Longrightarrow> buf_ok (disk s) (disksize s) (bufs s ! i)"
  by (simp add: bio_inv_def caches_def)

lemma caches_block: "caches s i n \<Longrightarrow> caches s i m \<Longrightarrow> m = n"
  by (simp add: caches_def)

text \<open>Updates of the contents and of the dirty flag of a buffer that the caller holds.\<close>

definition set_data :: "nat \<Rightarrow> block \<Rightarrow> 'a bio_scheme \<Rightarrow> 'a bio_scheme" where
  "set_data i x s = set_buf i (\<lambda>b. b\<lparr>b_data := x\<rparr>) s"

lemma keep_buf_inv:
  assumes "bio_inv s" and "caches s i n"
    and "\<And>b. b_next (f b) = b_next b \<and> b_prev (f b) = b_prev b"
    and "\<And>b. b_dev (f b) = b_dev b \<and> b_blockno (f b) = b_blockno b"
    and "buf_ok (disk s) (disksize s) (f (bufs s ! i))"
  shows "bio_inv (set_buf i f s)" and "\<And>j m. caches (set_buf i f s) j m = caches s j m"
proof -
  have i: "i < NBUF" "b_dev (bufs s ! i) = 1" "b_blockno (bufs s ! i) = n"
    using assms(2) by (simp_all add: caches_def)
  show "bio_inv (set_buf i f s)"
    by (rule bio_inv_set_buf [OF assms(1) i(1) assms(3,5)])
       (use assms(4) i uncached_others [OF assms(1,2)] in auto)
  have len: "i < length (bufs s)" using assms(1) i by simp
  show "caches (set_buf i f s) j m = caches s j m" for j m
    using i assms(4) by (auto simp: nth_set_buf len caches_def)
qed

lemma view_keep:
  assumes I: "bio_inv s" "bio_inv s'" and c: "\<And>j m. caches s' j m = caches s j m"
    and d: "\<And>j m. caches s j m \<Longrightarrow> b_data (bufs s' ! j) = b_data (bufs s ! j)"
    and e: "disk s' = disk s"
  shows "view s' = view s"
proof
  fix m show "view s' m = view s m"
  proof (cases "\<exists>j. caches s j m")
    case True
    then obtain j where j: "caches s j m" by blast
    with c d I show ?thesis by (simp add: view_cached [OF _ j] view_cached [of s' j m])
  next
    case False
    with c I e show ?thesis by (simp add: view_uncached)
  qed
qed

lemma set_data_spec:
  assumes "bio_inv s" and "owns_buf s i n"
  shows "bio_inv (set_data i x s)" "view (set_data i x s) = (view s)(n := x)"
    "held_blocks (set_data i x s) = held_blocks s" "dirty_blocks (set_data i x s) = dirty_blocks s"
    "owns_buf (set_data i x s) j m = owns_buf s j m"
    "bio_frame s (set_data i x s)" "disk (set_data i x s) = disk s" "dhist (set_data i x s) = dhist s"
proof -
  let ?f = "\<lambda>b. b\<lparr>b_data := x\<rparr> :: buf"
  have c: "caches s i n" and l: "locked (bufs s ! i)" using assms(2) by (simp_all add: owns_buf_def)
  have ok: "buf_ok (disk s) (disksize s) (?f (bufs s ! i))"
    using caches_ok [OF assms(1) c] l by (simp add: buf_ok_def)
  have K: "bio_inv (set_data i x s)" "\<And>j m. caches (set_data i x s) j m = caches s j m"
    unfolding set_data_def using keep_buf_inv [OF assms(1) c, of ?f] ok by auto
  have len: "i < length (bufs s)" using assms(1) c by (simp add: caches_def)
  show "bio_inv (set_data i x s)" by (rule K)
  show "view (set_data i x s) = (view s)(n := x)"
  proof
    fix m show "view (set_data i x s) m = ((view s)(n := x)) m"
    proof (rule view_eqI [OF K(1)])
      fix j assume "caches (set_data i x s) j m"
      then have j: "caches s j m" by (simp add: K)
      have "j = i \<longleftrightarrow> m = n" using uncached_others [OF assms(1) c] j c by (auto simp: caches_def)
      then show "b_data (bufs (set_data i x s) ! j) = ((view s)(n := x)) m"
        using view_cached [OF assms(1) j] by (auto simp: set_data_def nth_set_buf len)
    next
      assume "\<And>j. \<not> caches (set_data i x s) j m"
      then have "\<And>j. \<not> caches s j m" by (simp add: K)
      then show "disk (set_data i x s) m = ((view s)(n := x)) m"
        using view_uncached [OF assms(1)] c by (auto simp: set_data_def)
    qed
  qed
  have e: "locked (bufs (set_data i x s) ! j) = locked (bufs s ! j)"
    "dirty (bufs (set_data i x s) ! j) = dirty (bufs s ! j)" for j
    by (simp_all add: set_data_def nth_set_buf len)
  show "held_blocks (set_data i x s) = held_blocks s" "dirty_blocks (set_data i x s) = dirty_blocks s"
    "owns_buf (set_data i x s) j m = owns_buf s j m"
    by (simp_all add: held_blocks_def dirty_blocks_def owns_buf_def K e)
  show "bio_frame s (set_data i x s)" "disk (set_data i x s) = disk s" "dhist (set_data i x s) = dhist s"
    by (simp_all add: set_data_def)
qed


lemma set_dirty_spec:
  fixes s :: "'a bio_scheme"
  defines "D \<equiv> \<lambda>i. set_buf i (\<lambda>b. b\<lparr>b_flags := b_flags b OR B_DIRTY\<rparr>) :: 'a bio_scheme \<Rightarrow> _"
  assumes "bio_inv s" and "owns_buf s i n"
  shows "bio_inv (D i s)" "view (D i s) = view s" "held_blocks (D i s) = held_blocks s"
    "dirty_blocks (D i s) = insert n (dirty_blocks s)" "owns_buf (D i s) j m = owns_buf s j m"
proof -
  let ?f = "\<lambda>b. b\<lparr>b_flags := b_flags b OR B_DIRTY\<rparr> :: buf"
  have c: "caches s i n" and l: "locked (bufs s ! i)" using assms(3) by (simp_all add: owns_buf_def)
  have ok: "buf_ok (disk s) (disksize s) (?f (bufs s ! i))"
    using caches_ok [OF assms(2) c] c l by (simp add: buf_ok_def caches_def) (simp add: valid_def)
  have K: "bio_inv (D i s)" "\<And>j m. caches (D i s) j m = caches s j m"
    unfolding D_def using keep_buf_inv [OF assms(2) c, of ?f] ok by auto
  have len: "i < length (bufs s)" using assms(2) c by (simp add: caches_def)
  show "bio_inv (D i s)" by (rule K)
  show "view (D i s) = view s"
    by (rule view_keep [OF assms(2) K]) (simp_all add: D_def nth_set_buf len)
  have e: "locked (bufs (D i s) ! j) = locked (bufs s ! j)"
    "dirty (bufs (D i s) ! j) = (j = i \<or> dirty (bufs s ! j))" for j
    by (simp_all add: D_def nth_set_buf len)
  show "held_blocks (D i s) = held_blocks s" "owns_buf (D i s) j m = owns_buf s j m"
    by (simp_all add: held_blocks_def owns_buf_def K e)
  show "dirty_blocks (D i s) = insert n (dirty_blocks s)"
    unfolding dirty_blocks_def K e using c by (auto dest: caches_block [OF c])
qed

section \<open>The operations\<close>

lemma acquire_buf_eq:
  assumes "bio_idle s" and "\<not> locked (bufs s ! i)"
  shows "\<exists>pid. acquire_buf i s =
    Inr ((), set_buf i (\<lambda>b. b\<lparr>b_lock := \<lparr>sl_locked = True, sl_pid = pid\<rparr>\<rparr>) s)"
proof -
  obtain p where "cur s = Some p" using assms(1) by (auto simp: bio_idle_def)
  with assms buf_cell.acquiresleep_free [of i s p] show ?thesis
    by (auto simp: acquire_buf_def bio_idle_def buf_lock_def locked_def set_buf_lock_def)
qed

lemma release_buf_eq:
  assumes "bio_idle s"
  shows "release_buf i s = Inr ((), wakeup1 (Some (ChBufLock i))
    (set_buf i (\<lambda>b. b\<lparr>b_lock := \<lparr>sl_locked = False, sl_pid = 0\<rparr>\<rparr>) s))"
  using assms buf_cell.releasesleep_eq [of i s]
  by (simp add: release_buf_def bio_idle_def set_buf_lock_def)

lemma holding_buf_eq: "bio_idle s \<Longrightarrow> holding_buf i s = Inr (locked (bufs s ! i), s)"
  using buf_cell.holdingsleep_eq [of i s]
  by (simp add: holding_buf_def bio_idle_def buf_lock_def locked_def)

lemma bio_idle_set_buf [simp]: "bio_idle (set_buf i f s) = bio_idle s"
  by (simp add: bio_idle_def)

lemma B_DIRTY_nonzero [simp]: "B_DIRTY \<noteq> 0"
  by (simp add: B_DIRTY_def)

text \<open>What \<open>bwrite\<close> does: the disk gets the contents of the buffer, which is then clean.\<close>

lemma bwrite_spec:
  assumes I: "bio_inv s" and idle: "bio_idle s" and o: "owns_buf s i n"
  shows "\<exists>s'. bwrite i s = Inr ((), s') \<and> bio_inv s' \<and> bio_frame s s' \<and> view s' = view s \<and>
    disk s' = (disk s)(n := view s n) \<and> dhist s' = dhist s @ [(n, view s n)] \<and>
    held_blocks s' = held_blocks s \<and> dirty_blocks s' = dirty_blocks s - {n} \<and>
    owns_buf s' = owns_buf s"
proof -
  let ?f = "\<lambda>b. b\<lparr>b_flags := ((b_flags b OR B_DIRTY) AND NOT B_DIRTY) OR B_VALID\<rparr> :: buf"
  let ?d = "(disk s)(n := view s n)"
  define s' where "s' = set_buf i ?f (s\<lparr>disk := ?d, dhist := dhist s @ [(n, view s n)]\<rparr>)"
  have c: "caches s i n" and l: "locked (bufs s ! i)" using o by (simp_all add: owns_buf_def)
  have i: "i < NBUF" "b_dev (bufs s ! i) = 1" "b_blockno (bufs s ! i) = n"
    using c by (simp_all add: caches_def)
  have len: "i < length (bufs s)" using I i by simp
  have b: "buf_ok (disk s) (disksize s) (bufs s ! i)" by (rule caches_ok [OF I c])
  have v: "view s n = b_data (bufs s ! i)" by (rule view_cached [OF I c])
  have eq: "bwrite i s = Inr ((), s')"
    using idle l b i len v unfolding s'_def
    by (simp add: bwrite_def holding_buf_eq iderw_def Let_def nth_set_buf buf_ok_def not_le)
       (simp add: set_buf_def bio_idle_def)
  have n': "bufs s' ! j = (if j = i then ?f (bufs s ! i) else bufs s ! j)" for j
    by (simp add: s'_def set_buf_def len)
  have d': "disk s' = ?d" "disksize s' = disksize s" "dhist s' = dhist s @ [(n, view s n)]"
    by (simp_all add: s'_def)
  have ca: "caches s' j m = caches s j m" for j m
    using i by (auto simp: caches_def n')
  have oth: "buf_ok ?d (disksize s) (bufs s' ! j)" if "j < NBUF" for j
  proof (cases "j = i")
    case True
    with b l i v show ?thesis by (simp add: n' buf_ok_def)
  next
    case False
    have "buf_ok (disk s) (disksize s) (bufs s ! j)" using I that by (simp add: bio_inv_def)
    moreover have "b_blockno (bufs s ! j) \<noteq> n" if "b_dev (bufs s ! j) = 1"
      using uncached_others [OF I c False] that \<open>j < NBUF\<close> by (simp add: caches_def)
    ultimately show ?thesis using False by (auto simp: n' buf_ok_def)
  qed
  obtain xs where "lru (bufs s) xs" using I by (auto simp: bio_inv_def)
  then have "lru (bufs s') xs" unfolding s'_def by (intro lru_set_buf) simp_all
  then have I': "bio_inv s'"
    using oth I unfolding bio_inv_def ca d' by auto
  have e: "locked (bufs s' ! j) = locked (bufs s ! j)"
    "dirty (bufs s' ! j) = (j \<noteq> i \<and> dirty (bufs s ! j))"
    "b_data (bufs s' ! j) = b_data (bufs s ! j)" for j
    by (simp_all add: n')
  have vw: "view s' m = view s m" for m
  proof (rule view_eqI [OF I'])
    fix j assume "caches s' j m"
    then show "b_data (bufs s' ! j) = view s m" using view_cached [OF I] by (simp add: ca e)
  next
    assume "\<And>j. \<not> caches s' j m"
    then have "\<And>j. \<not> caches s j m" by (simp add: ca)
    moreover from this have "m \<noteq> n" using c by auto
    ultimately show "disk s' m = view s m" using view_uncached [OF I] by (simp add: d')
  qed
  have fr: "bio_frame s s'"
    unfolding bio_frame_def s'_def set_buf_def
    by (intro exI [of _ "ptable s"] exI [of _ "bufs s'"] exI [of _ ?d]
          exI [of _ "dhist s @ [(n, view s n)]"]) (simp add: s'_def set_buf_def)
  have ob: "owns_buf s' = owns_buf s" by (simp add: fun_eq_iff owns_buf_def ca e)
  have db: "dirty_blocks s' = dirty_blocks s - {n}"
    unfolding dirty_blocks_def ca e using uncached_others [OF I c] by (auto dest: caches_block [OF c])
  have hb: "held_blocks s' = held_blocks s" by (simp add: held_blocks_def ca e)
  show ?thesis
    by (intro exI [of _ s'] conjI eq I' fr d' ob db hb) (simp add: fun_eq_iff vw)
qed

lemma find_SomeD: "find P xs = Some x \<Longrightarrow> x \<in> set xs \<and> P x"
  by (induction xs) (auto split: if_splits)

lemma find_ex: "x \<in> set xs \<Longrightarrow> P x \<Longrightarrow> \<exists>y. find P xs = Some y"
  by (induction xs) auto

lemma unlock_relock: "(set_buf i f (s\<lparr>klk := K\<rparr>))\<lparr>klk := klk s\<rparr> = set_buf i f s"
  by (simp add: set_buf_def)

text \<open>A buffer that is neither locked nor dirty exists as long as fewer than \<open>NBUF\<close> blocks are.\<close>

lemma spare_buf:
  assumes I: "bio_inv s" and "card (held_blocks s \<union> dirty_blocks s) < NBUF"
  shows "\<exists>i < NBUF. \<not> locked (bufs s ! i) \<and> \<not> dirty (bufs s ! i)"
proof (rule ccontr)
  assume "\<not> ?thesis"
  then have a: "locked (bufs s ! i) \<or> dirty (bufs s ! i)" if "i < NBUF" for i using that by blast
  have c: "caches s i (b_blockno (bufs s ! i))" if "i < NBUF" for i
    using a [OF that] I that by (auto simp: caches_def bio_inv_def buf_ok_def)
  have "inj_on (\<lambda>i. b_blockno (bufs s ! i)) {0..<NBUF}"
  proof (rule inj_onI)
    fix i j assume "i \<in> {0..<NBUF}" "j \<in> {0..<NBUF}" "b_blockno (bufs s ! i) = b_blockno (bufs s ! j)"
    then have "caches s i (b_blockno (bufs s ! i))" "caches s j (b_blockno (bufs s ! i))"
      using c [of i] c [of j] by simp_all
    with I show "i = j" unfolding bio_inv_def by blast
  qed
  then have "card ((\<lambda>i. b_blockno (bufs s ! i)) ` {0..<NBUF}) = NBUF" by (simp add: card_image)
  moreover have "(\<lambda>i. b_blockno (bufs s ! i)) ` {0..<NBUF} \<subseteq> held_blocks s \<union> dirty_blocks s"
  proof (rule image_subsetI)
    fix i assume "i \<in> {0..<NBUF}"
    then show "b_blockno (bufs s ! i) \<in> held_blocks s \<union> dirty_blocks s"
      using a [of i] c [of i] by (auto simp: held_blocks_def dirty_blocks_def)
  qed
  moreover have "finite (held_blocks s \<union> dirty_blocks s)"
    by (rule finite_subset [of _ "UNIV :: u32 set"]) auto
  ultimately have "NBUF \<le> card (held_blocks s \<union> dirty_blocks s)" by (metis card_mono)
  with assms(2) show False by simp
qed

lemma bread_hit:
  assumes I: "bio_inv s" and idle: "bio_idle s" and c: "caches s i n" and l: "\<not> locked (bufs s ! i)"
  shows "\<exists>pid. bread 1 n s = Inr (i, set_buf i (\<lambda>b. b\<lparr>b_refcnt := b_refcnt b + 1,
    b_lock := \<lparr>sl_locked = True, sl_pid = pid\<rparr>\<rparr>) s)"
proof -
  obtain xs where xs: "lru (bufs s) xs" using I by (auto simp: bio_inv_def)
  have len: "i < length (bufs s)" using I c by (simp add: caches_def)
  let ?P = "\<lambda>b. b_dev b = 1 \<and> b_blockno b = n"
  have "i \<in> set xs" using xs c by (auto simp: lru_def caches_def)
  then obtain j where j: "find (\<lambda>k. ?P (bufs s ! k)) xs = Some j"
    using find_ex [of i xs "\<lambda>k. ?P (bufs s ! k)"] c by (auto simp: caches_def)
  have "caches s j n" using find_SomeD [OF j] xs by (auto simp: caches_def lru_def)
  then have "j = i" using I c unfolding bio_inv_def by blast
  let ?s = "set_buf i (\<lambda>b. b\<lparr>b_refcnt := b_refcnt b + 1\<rparr>) s"
  have "\<not> locked (bufs ?s ! i)" using l len by (simp add: nth_set_buf)
  then obtain pid where p: "acquire_buf i ?s =
      Inr ((), set_buf i (\<lambda>b. b\<lparr>b_lock := \<lparr>sl_locked = True, sl_pid = pid\<rparr>\<rparr>) ?s)"
    using acquire_buf_eq [of ?s i] idle by auto
  have "valid (bufs s ! i)" using caches_ok [OF I c] c by (auto simp: buf_ok_def caches_def)
  then show ?thesis
    using idle p lru_find_next [OF xs, of ?P] j \<open>j = i\<close> len
    by (intro exI [of _ pid])
       (simp add: bread_def bget_def bio_idle_def unlock_relock set_buf_comp nth_set_buf)
qed

lemma bread_miss:
  assumes I: "bio_inv s" and idle: "bio_idle s" and c: "\<And>i. \<not> caches s i n" and n: "n < disksize s"
    and sp: "card (held_blocks s \<union> dirty_blocks s) < NBUF"
  shows "\<exists>i pid. i < NBUF \<and> \<not> locked (bufs s ! i) \<and> \<not> dirty (bufs s ! i) \<and>
    bread 1 n s = Inr (i, set_buf i (\<lambda>b. b\<lparr>b_dev := 1, b_blockno := n, b_refcnt := 1,
      b_lock := \<lparr>sl_locked = True, sl_pid = pid\<rparr>, b_data := disk s n, b_flags := 0 OR B_VALID\<rparr>) s)"
proof -
  obtain xs where xs: "lru (bufs s) xs" using I by (auto simp: bio_inv_def)
  have sx: "set xs = {0..<NBUF}" using xs by (simp add: lru_def)
  let ?P = "\<lambda>b. b_dev b = 1 \<and> b_blockno b = n"
  let ?Q = "\<lambda>b. b_refcnt b = 0 \<and> b_flags b AND B_DIRTY = 0"
  have f1: "find (\<lambda>k. ?P (bufs s ! k)) xs = None"
    using c sx by (auto simp: find_None_iff caches_def)
  obtain i0 where i0: "i0 < NBUF" "\<not> locked (bufs s ! i0)" "\<not> dirty (bufs s ! i0)"
    using spare_buf [OF I sp] by blast
  then have "?Q (bufs s ! i0)" using I by (simp add: bio_inv_def buf_ok_def)
  then obtain i where i: "find (\<lambda>k. ?Q (bufs s ! k)) (rev xs) = Some i"
    using find_ex [of i0 "rev xs" "\<lambda>k. ?Q (bufs s ! k)"] i0 sx by auto
  have iN: "i < NBUF" and q: "?Q (bufs s ! i)" using find_SomeD [OF i] sx by auto
  have ul: "\<not> locked (bufs s ! i)" using q I iN by (auto simp: bio_inv_def buf_ok_def)
  have len: "i < length (bufs s)" using I iN by simp
  let ?s = "set_buf i (\<lambda>b. b\<lparr>b_dev := 1, b_blockno := n, b_flags := 0, b_refcnt := 1\<rparr>) s"
  have "\<not> locked (bufs ?s ! i)" using ul len by (simp add: nth_set_buf)
  then obtain pid where p: "acquire_buf i ?s =
      Inr ((), set_buf i (\<lambda>b. b\<lparr>b_lock := \<lparr>sl_locked = True, sl_pid = pid\<rparr>\<rparr>) ?s)"
    using acquire_buf_eq [of ?s i] idle by auto
  let ?s1 = "set_buf i (\<lambda>b. b\<lparr>b_lock := \<lparr>sl_locked = True, sl_pid = pid\<rparr>\<rparr>) ?s"
  have g: "bget 1 n s = Inr (i, ?s1)"
    using idle p lru_find_next [OF xs, of ?P] lru_find_prev [OF xs, of ?Q] f1 i
    by (simp add: bget_def bio_idle_def unlock_relock)
  have b1: "bufs ?s1 ! i = (bufs s ! i)\<lparr>b_dev := 1, b_blockno := n, b_flags := 0, b_refcnt := 1,
      b_lock := \<lparr>sl_locked = True, sl_pid = pid\<rparr>\<rparr>" by (simp add: nth_set_buf len)
  have "iderw i ?s1 = Inr ((), set_buf i (\<lambda>b. b\<lparr>b_data := disk s n, b_flags := b_flags b OR B_VALID\<rparr>) ?s1)"
    using idle n unfolding iderw_def b1
    by (simp add: holding_buf_eq b1 Let_def not_le) (simp add: set_buf_comp len)
  then have "bread 1 n s = Inr (i, set_buf i (\<lambda>b. b\<lparr>b_data := disk s n,
      b_flags := b_flags b OR B_VALID\<rparr>) ?s1)"
    by (simp add: bread_def g b1)
  with iN ul q len show ?thesis
    by (intro exI [of _ i] exI [of _ pid]) (simp add: set_buf_comp)
qed


text \<open>What \<open>bread\<close> promises: it returns a buffer, locked for the caller, with the contents of the
  block; no block changes.\<close>

lemma bread_hit_spec:
  assumes I: "bio_inv s" and idle: "bio_idle s" and c: "caches s i n" and l: "\<not> locked (bufs s ! i)"
  shows "\<exists>s'. bread 1 n s = Inr (i, s') \<and> bio_inv s' \<and> bio_frame s s' \<and> view s' = view s \<and>
    disk s' = disk s \<and> dhist s' = dhist s \<and> owns_buf s' i n \<and>
    held_blocks s' = insert n (held_blocks s) \<and> dirty_blocks s' = dirty_blocks s \<and>
    (\<forall>j m. owns_buf s j m \<longrightarrow> owns_buf s' j m)"
proof -
  obtain pid where r: "bread 1 n s = Inr (i, set_buf i (\<lambda>b. b\<lparr>b_refcnt := b_refcnt b + 1,
      b_lock := \<lparr>sl_locked = True, sl_pid = pid\<rparr>\<rparr>) s)"
    using bread_hit [OF I idle c l] by blast
  let ?f = "\<lambda>b. b\<lparr>b_refcnt := b_refcnt b + 1, b_lock := \<lparr>sl_locked = True, sl_pid = pid\<rparr>\<rparr> :: buf"
  define s' where "s' = set_buf i ?f s"
  have b: "buf_ok (disk s) (disksize s) (?f (bufs s ! i))"
    using caches_ok [OF I c] c l by (simp add: buf_ok_def caches_def)
  have K: "bio_inv s'" "\<And>j m. caches s' j m = caches s j m"
    unfolding s'_def using keep_buf_inv [OF I c, of ?f] b by auto
  have len: "i < length (bufs s)" using I c by (simp add: caches_def)
  have n': "bufs s' ! j = (if j = i then ?f (bufs s ! i) else bufs s ! j)" for j
    by (simp add: s'_def nth_set_buf len)
  have e: "locked (bufs s' ! j) = (j = i \<or> locked (bufs s ! j))"
    "dirty (bufs s' ! j) = dirty (bufs s ! j)" "b_data (bufs s' ! j) = b_data (bufs s ! j)" for j
    by (simp_all add: n')
  have "view s' = view s" by (rule view_keep [OF I K]) (simp_all add: e, simp add: s'_def)
  moreover have "held_blocks s' = insert n (held_blocks s)"
    unfolding held_blocks_def K e using c by (auto dest: caches_block [OF c])
  moreover have "dirty_blocks s' = dirty_blocks s" by (simp add: dirty_blocks_def K e)
  moreover have "owns_buf s' i n" "\<forall>j m. owns_buf s j m \<longrightarrow> owns_buf s' j m"
    using c by (simp_all add: owns_buf_def K e)
  moreover have "disk s' = disk s" "dhist s' = dhist s" "bio_frame s s'" by (simp_all add: s'_def)
  ultimately show ?thesis using r K(1) by (intro exI [of _ s']) (simp add: s'_def)
qed

lemma bread_miss_spec:
  assumes I: "bio_inv s" and idle: "bio_idle s" and c: "\<And>i. \<not> caches s i n" and n: "n < disksize s"
    and sp: "card (held_blocks s \<union> dirty_blocks s) < NBUF"
  shows "\<exists>i s'. bread 1 n s = Inr (i, s') \<and> bio_inv s' \<and> bio_frame s s' \<and> view s' = view s \<and>
    disk s' = disk s \<and> dhist s' = dhist s \<and> owns_buf s' i n \<and>
    held_blocks s' = insert n (held_blocks s) \<and> dirty_blocks s' = dirty_blocks s \<and>
    (\<forall>j m. owns_buf s j m \<longrightarrow> owns_buf s' j m)"
proof -
  let ?f = "\<lambda>pid b. b\<lparr>b_dev := 1, b_blockno := n, b_refcnt := 1,
      b_lock := \<lparr>sl_locked = True, sl_pid = pid\<rparr>, b_data := disk s n, b_flags := 0 OR B_VALID\<rparr> :: buf"
  obtain i pid where i: "i < NBUF" "\<not> locked (bufs s ! i)" "\<not> dirty (bufs s ! i)"
    and r: "bread 1 n s = Inr (i, set_buf i (?f pid) s)"
    using bread_miss [OF I idle c n sp] by blast
  define s' where "s' = set_buf i (?f pid) s"
  have len: "i < length (bufs s)" using I i by simp
  have b: "buf_ok (disk s) (disksize s) (?f pid (bufs s ! i))"
    using n by (simp add: buf_ok_def del: or.left_neutral)
  have I': "bio_inv s'"
    unfolding s'_def by (rule bio_inv_set_buf [OF I i(1)]) (use b c in auto)
  have n': "bufs s' ! j = (if j = i then ?f pid (bufs s ! i) else bufs s ! j)" for j
    by (simp add: s'_def nth_set_buf len)
  have ca: "caches s' j m \<longleftrightarrow> (if j = i then m = n else caches s j m)" for j m
    using i by (auto simp: caches_def n')
  have d: "\<not> dirty (?f pid (bufs s ! i))" unfolding flags_update by simp
  have own: "j \<noteq> i" if "caches s j m" "locked (bufs s ! j) \<or> dirty (bufs s ! j)" for j m
    using that i by auto
  have vw: "view s' m = view s m" for m
  proof (rule view_eqI [OF I'])
    fix j assume j: "caches s' j m"
    show "b_data (bufs s' ! j) = view s m"
    proof (cases "j = i")
      case True
      then have "m = n" using j by (simp add: ca)
      with True view_uncached [OF I c] show ?thesis by (simp add: n')
    next
      case False
      then have "caches s j m" using j by (simp add: ca)
      with False view_cached [OF I] show ?thesis by (simp add: n')
    qed
  next
    assume u: "\<And>j. \<not> caches s' j m"
    have "m \<noteq> n" using u [of i] by (simp add: ca)
    have "\<not> (caches s j m \<and> (locked (bufs s ! j) \<or> dirty (bufs s ! j)))" for j
      using u [of j] own [of j m] by (auto simp: ca)
    then have "m \<notin> held_blocks s" "m \<notin> dirty_blocks s"
      unfolding held_blocks_def dirty_blocks_def by blast+
    then show "disk s' m = view s m" using view_disk [OF I] by (simp add: s'_def)
  qed
  have hb: "held_blocks s' = insert n (held_blocks s)"
    using own i(2) by (auto simp: held_blocks_def ca n')
  have db: "dirty_blocks s' = dirty_blocks s"
    using own i(3) d by (auto simp: dirty_blocks_def ca n')
  have ob: "owns_buf s' i n" "\<forall>j m. owns_buf s j m \<longrightarrow> owns_buf s' j m"
    using own i(2) by (auto simp: owns_buf_def ca n')
  have "disk s' = disk s" "dhist s' = dhist s" "bio_frame s s'" by (simp_all add: s'_def)
  with r I' vw hb db ob show ?thesis
    by (intro exI [of _ i] exI [of _ s']) (simp add: s'_def fun_eq_iff)
qed

lemma bread_spec:
  assumes I: "bio_inv s" and idle: "bio_idle s" and n: "n < disksize s" "n \<notin> held_blocks s"
    and sp: "n \<in> dirty_blocks s \<or> card (held_blocks s \<union> dirty_blocks s) < NBUF"
  shows "\<exists>i s'. bread 1 n s = Inr (i, s') \<and> bio_inv s' \<and> bio_frame s s' \<and> view s' = view s \<and>
    disk s' = disk s \<and> dhist s' = dhist s \<and> owns_buf s' i n \<and>
    held_blocks s' = insert n (held_blocks s) \<and> dirty_blocks s' = dirty_blocks s \<and>
    (\<forall>j m. owns_buf s j m \<longrightarrow> owns_buf s' j m)"
proof (cases "\<exists>i. caches s i n")
  case True
  then obtain i where "caches s i n" by blast
  moreover from this n(2) have "\<not> locked (bufs s ! i)" by (auto simp: held_blocks_def)
  ultimately show ?thesis using bread_hit_spec [OF I idle, of i n] by blast
next
  case False
  with sp have "card (held_blocks s \<union> dirty_blocks s) < NBUF" by (auto simp: dirty_blocks_def)
  with False show ?thesis using bread_miss_spec [OF I idle _ n(1)] by blast
qed

text \<open>A buffer without its links.\<close>

definition unlinked :: "buf \<Rightarrow> buf" where
  "unlinked b = b\<lparr>b_next := 0, b_prev := 0\<rparr>"

lemma unlinked_fields:
  assumes "unlinked b = unlinked b'"
  shows "b_flags b = b_flags b'" "b_dev b = b_dev b'" "b_blockno b = b_blockno b'"
    "b_lock b = b_lock b'" "b_refcnt b = b_refcnt b'" "b_data b = b_data b'"
  using arg_cong [OF assms, of b_flags] arg_cong [OF assms, of b_dev]
    arg_cong [OF assms, of b_blockno] arg_cong [OF assms, of b_lock]
    arg_cong [OF assms, of b_refcnt] arg_cong [OF assms, of b_data]
  by (simp_all add: unlinked_def)

lemma unlinked_set [simp]:
  "unlinked (bufs (set_buf k (\<lambda>x. x\<lparr>b_next := v\<rparr>) s) ! j) = unlinked (bufs s ! j)"
  "unlinked (bufs (set_buf k (\<lambda>x. x\<lparr>b_prev := v\<rparr>) s) ! j) = unlinked (bufs s ! j)"
  by (cases "k < length (bufs s)"; simp add: set_buf_def nth_list_update list_update_beyond unlinked_def)+

lemma unlinked_move: "unlinked (bufs (move_to_front i s) ! j) = unlinked (bufs s ! j)"
  by (simp add: move_to_front_def Let_def)

lemma move_to_front_rest: "move_to_front i s = s\<lparr>bufs := bufs (move_to_front i s)\<rparr>"
  by (simp add: move_to_front_def Let_def set_buf_def)


lemma same_status:
  assumes "unlinked b = unlinked b'"
  shows "locked b = locked b'" "dirty b = dirty b'" "valid b = valid b'"
    "buf_ok d sz b = buf_ok d sz b'"
  using unlinked_fields [OF assms] by (simp_all add: locked_def dirty_def valid_def buf_ok_def)

lemma move_to_front_spec:
  assumes I: "bio_inv s" and i: "i < NBUF"
  shows "bio_inv (move_to_front i s)" "view (move_to_front i s) = view s"
    "held_blocks (move_to_front i s) = held_blocks s" "dirty_blocks (move_to_front i s) = dirty_blocks s"
    "owns_buf (move_to_front i s) = owns_buf s"
proof -
  define s' where "s' = move_to_front i s"
  note S = same_status [OF unlinked_move] and F = unlinked_fields [OF unlinked_move]
  have d: "disk s' = disk s" "disksize s' = disksize s"
    unfolding s'_def by (subst move_to_front_rest, simp)+
  have ca: "caches s' j m = caches s j m" for j m
    unfolding caches_def s'_def by (simp add: F)
  obtain xs where "lru (bufs s) xs" using I by (auto simp: bio_inv_def)
  from move_to_front_lru [OF this i] have "\<exists>ys. lru (bufs s') ys" unfolding s'_def by blast
  then have I': "bio_inv s'"
    using I unfolding bio_inv_def ca d by (auto simp: s'_def S)
  moreover have "view s' = view s" by (rule view_keep [OF I I' ca _ d(1)]) (simp add: s'_def F)
  ultimately show "bio_inv (move_to_front i s)" "view (move_to_front i s) = view s"
    "held_blocks (move_to_front i s) = held_blocks s" "dirty_blocks (move_to_front i s) = dirty_blocks s"
    "owns_buf (move_to_front i s) = owns_buf s"
    using ca unfolding s'_def held_blocks_def dirty_blocks_def owns_buf_def [abs_def] by (simp_all add: S)
qed

lemma wakeup1_bio [simp]:
  "bufs (wakeup1 c s) = bufs s" "disk (wakeup1 c s) = disk s" "dhist (wakeup1 c s) = dhist s"
  "disksize (wakeup1 c s) = disksize s" "bio_inv (wakeup1 c s) = bio_inv s"
  "view (wakeup1 c s) = view s" "held_blocks (wakeup1 c s) = held_blocks s"
  "dirty_blocks (wakeup1 c s) = dirty_blocks s" "owns_buf (wakeup1 c s) = owns_buf s"
  by (simp_all add: wakeup1_def bio_inv_def view_def held_blocks_def dirty_blocks_def owns_buf_def
        caches_def fun_eq_iff split: option.split)

lemma bio_frame_wakeup1 [simp]: "bio_frame s (wakeup1 c s)"
  unfolding bio_frame_def
  by (intro exI [of _ "ptable (wakeup1 c s)"] exI [of _ "bufs s"] exI [of _ "disk s"]
    exI [of _ "dhist s"] conjI woken_wakeup1) (simp add: wakeup1_def)

lemma bio_frame_move [simp]: "bio_frame s (move_to_front i s)"
  unfolding bio_frame_def
  by (intro exI [of _ "ptable s"] exI [of _ "bufs (move_to_front i s)"] exI [of _ "disk s"]
    exI [of _ "dhist s"]) (subst move_to_front_rest, simp)

lemma caches_unique: "bio_inv s \<Longrightarrow> caches s i n \<Longrightarrow> caches s j n \<Longrightarrow> j = i"
  unfolding bio_inv_def by blast

lemma klk_same: "klk t = L \<Longrightarrow> t\<lparr>klk := L\<rparr> = t"
  by auto

lemma brelse_eq:
  assumes I: "bio_inv s" and idle: "bio_idle s" and o: "owns_buf s i n"
  shows "brelse i s = Inr ((), move_to_front i (wakeup1 (Some (ChBufLock i))
    (set_buf i (\<lambda>b. b\<lparr>b_lock := \<lparr>sl_locked = False, sl_pid = 0\<rparr>, b_refcnt := b_refcnt b - 1\<rparr>) s)))"
proof -
  have c: "caches s i n" and l: "locked (bufs s ! i)" using o by (simp_all add: owns_buf_def)
  have len: "i < length (bufs s)" using I c by (simp add: caches_def)
  have r: "b_refcnt (bufs s ! i) = 1" using caches_ok [OF I c] l by (simp add: buf_ok_def)
  let ?s1 = "wakeup1 (Some (ChBufLock i)) (set_buf i (\<lambda>b. b\<lparr>b_lock := \<lparr>sl_locked = False, sl_pid = 0\<rparr>\<rparr>) s)"
  let ?s2 = "wakeup1 (Some (ChBufLock i)) (set_buf i (\<lambda>b. b\<lparr>b_lock := \<lparr>sl_locked = False, sl_pid = 0\<rparr>,
     b_refcnt := b_refcnt b - 1\<rparr>) s)"
  have 1: "set_buf i (\<lambda>b. b\<lparr>b_refcnt := b_refcnt b - 1\<rparr>) (?s1\<lparr>klk := L\<rparr>) = ?s2\<lparr>klk := L\<rparr>" for L
    using len by (simp add: set_buf_def wakeup1_def)
  have 2: "b_refcnt (bufs (set_buf i (\<lambda>b. b\<lparr>b_lock := \<lparr>sl_locked = False, sl_pid = 0\<rparr>,
     b_refcnt := b_refcnt b - 1\<rparr>) s) ! i) = 0"
    using len r by (simp add: nth_set_buf)
  have 3: "move_to_front i (t\<lparr>klk := L\<rparr>) = (move_to_front i t)\<lparr>klk := L\<rparr>" for t :: "'a bio_scheme" and L
    by (simp add: move_to_front_def Let_def set_buf_def)
  have 4: "klk (move_to_front i ?s2) = klk s" using bio_frame_simps(1) [OF bio_frame_move, of i ?s2] by simp
  then have 6: "(move_to_front i ?s2)\<lparr>klk := klk s\<rparr> = move_to_front i ?s2" by (rule klk_same)
  have 5: "BcacheLock \<notin> klk ?s1" using idle by (simp add: bio_idle_def)
  show ?thesis
    using l 5 idle
    by (simp add: brelse_def holding_buf_eq release_buf_eq 1 2 3 Let_def) (simp add: bio_idle_def 6)
qed

text \<open>What \<open>brelse\<close> promises, for a buffer that was not changed since it was read or written, or
  that \<open>log_write\<close> has pinned.\<close>

lemma brelse_spec:
  assumes I: "bio_inv s" and idle: "bio_idle s" and o: "owns_buf s i n"
    and cl: "n \<in> dirty_blocks s \<or> view s n = disk s n"
  shows "\<exists>s'. brelse i s = Inr ((), s') \<and> bio_inv s' \<and> bio_frame s s' \<and> view s' = view s \<and>
    disk s' = disk s \<and> dhist s' = dhist s \<and> held_blocks s' = held_blocks s - {n} \<and>
    dirty_blocks s' = dirty_blocks s \<and> (\<forall>j m. m \<noteq> n \<longrightarrow> owns_buf s j m \<longrightarrow> owns_buf s' j m)"
proof -
  let ?f = "\<lambda>b. b\<lparr>b_lock := \<lparr>sl_locked = False, sl_pid = 0\<rparr>, b_refcnt := b_refcnt b - 1\<rparr> :: buf"
  have c: "caches s i n" and l: "locked (bufs s ! i)" using o by (simp_all add: owns_buf_def)
  have i: "i < NBUF" using c by (simp add: caches_def)
  have len: "i < length (bufs s)" using I i by simp
  have dd: "dirty (bufs s ! i) \<longleftrightarrow> n \<in> dirty_blocks s"
    using c by (auto simp: dirty_blocks_def dest: caches_unique [OF I c])
  have b: "buf_ok (disk s) (disksize s) (?f (bufs s ! i))"
    using caches_ok [OF I c] c l cl dd view_cached [OF I c] by (auto simp: buf_ok_def caches_def)
  define s1 where "s1 = set_buf i ?f s"
  have K: "bio_inv s1" "\<And>j m. caches s1 j m = caches s j m"
    unfolding s1_def using keep_buf_inv [OF I c, of ?f] b by auto
  have n': "bufs s1 ! j = (if j = i then ?f (bufs s ! i) else bufs s ! j)" for j
    by (simp add: s1_def nth_set_buf len)
  have e: "locked (bufs s1 ! j) = (j \<noteq> i \<and> locked (bufs s ! j))"
    "dirty (bufs s1 ! j) = dirty (bufs s ! j)" "b_data (bufs s1 ! j) = b_data (bufs s ! j)" for j
    by (simp_all add: n')
  have v: "view s1 = view s" by (rule view_keep [OF I K]) (simp_all add: e, simp add: s1_def)
  have h: "held_blocks s1 = held_blocks s - {n}"
    unfolding held_blocks_def K e using uncached_others [OF I c] by (auto dest: caches_block [OF c])
  have d: "dirty_blocks s1 = dirty_blocks s" by (simp add: dirty_blocks_def K e)
  have ow: "\<forall>j m. m \<noteq> n \<longrightarrow> owns_buf s j m \<longrightarrow> owns_buf s1 j m"
    by (auto simp: owns_buf_def K e dest: caches_block [OF c])
  define s2 where "s2 = wakeup1 (Some (ChBufLock i)) s1"
  have I2: "bio_inv s2" using K by (simp add: s2_def)
  note M = move_to_front_spec [OF I2 i]
  have fr: "bio_frame s (move_to_front i s2)"
    by (rule bio_frame_trans [OF _ bio_frame_move], rule bio_frame_trans [of _ s1])
       (simp_all add: s1_def s2_def)
  have "disk (move_to_front i s2) = disk s" "dhist (move_to_front i s2) = dhist s"
    by (subst move_to_front_rest, simp add: s2_def s1_def)+
  with brelse_eq [OF I idle o] M fr v h d ow show ?thesis
    by (intro exI [of _ "move_to_front i s2"]) (simp add: s2_def s1_def)
qed

section \<open>Initialisation\<close>

lemma links_set_lock [simp]:
  "nexts (set_buf_lock i f s) = nexts s" "prevs (set_buf_lock i f s) = prevs s"
  "length (bufs (set_buf_lock i f s)) = length (bufs s)"
  "nexts (s\<lparr>klk := L\<rparr>) = nexts s" "prevs (s\<lparr>klk := L\<rparr>) = prevs s"
  by (cases "i < length (bufs s)"; simp add: fun_eq_iff nexts_def prevs_def set_buf_lock_def set_buf_def
        nth_list_update list_update_beyond not_less)+

lemma binit_loop_lru:
  assumes "length (bufs s) = Suc NBUF" and "chain (nexts s) NBUF (rev [0..<k]) NBUF"
    and "chain (prevs s) NBUF [0..<k] NBUF" and "k + m = NBUF"
  shows "lru (bufs (binit_loop [k..<k + m] s)) (rev [0..<NBUF])"
  using assms
proof (induction m arbitrary: k s)
  case 0
  then show ?case by (simp add: lru_iff)
next
  case (Suc m)
  let ?h = "nexts s NBUF"
  let ?s1 = "set_buf k (\<lambda>x. x\<lparr>b_prev := NBUF\<rparr>) (set_buf k (\<lambda>x. x\<lparr>b_next := ?h\<rparr>) s)"
  let ?s2 = "initsleeplock (BufLk k) (set_buf_lock k) ?s1"
  let ?s3 = "set_buf ?h (\<lambda>x. x\<lparr>b_prev := k\<rparr>) ?s2"
  let ?s4 = "set_buf NBUF (\<lambda>x. x\<lparr>b_next := k\<rparr>) ?s3"
  have kN: "k < NBUF" using Suc.prems(4) by simp
  have h: "?h = last (NBUF # [0..<k])"
    using chain_fst [OF Suc.prems(2)] by (cases k) auto
  then have hN: "?h \<le> NBUF" using kN by (cases k) auto
  have h2: "b_next (bufs ?s2 ! NBUF) = ?h"
    using kN Suc.prems(1) by (simp add: initsleeplock_def set_buf_lock_def set_buf_def nexts_def)
  have 1: "set_buf k (\<lambda>x. x\<lparr>b_next := b_next (bufs s ! NBUF), b_prev := NBUF\<rparr>) s = ?s1"
    using kN Suc.prems(1) by (simp add: set_buf_comp nexts_def)
  have step: "binit_loop [k..<k + Suc m] s = binit_loop [Suc k..<Suc k + m] ?s4"
    by (simp add: upt_conv_Cons 1 h2 Let_def del: upt_Suc)
  have len: "length (bufs ?s1) = Suc NBUF" "length (bufs ?s2) = Suc NBUF"
    using Suc.prems(1) by (simp_all add: initsleeplock_def)
  have n: "nexts ?s4 = (nexts s)(k := nexts s NBUF, NBUF := k)"
    using len Suc.prems(1) kN by (simp add: links_set initsleeplock_def)
  have p: "prevs ?s4 = (prevs s)(k := NBUF, ?h := k)"
    using len Suc.prems(1) kN hN by (simp add: links_set initsleeplock_def)
  have "lru (bufs (binit_loop [Suc k..<Suc k + m] ?s4)) (rev [0..<NBUF])"
  proof (rule Suc.IH)
    show "chain (nexts ?s4) NBUF (rev [0..<Suc k]) NBUF"
      unfolding n using chain_link_front [OF Suc.prems(2), of k] kN by auto
    show "chain (prevs ?s4) NBUF [0..<Suc k] NBUF"
    proof -
      have "chain ((prevs s)(k := NBUF, ?h := k)) NBUF ([0..<k] @ [k]) NBUF"
        unfolding h by (rule chain_link_back [OF Suc.prems(3)]) (use kN in auto)
      then show ?thesis unfolding p by simp
    qed
  qed (use len Suc.prems in simp_all)
  then show ?case by (simp only: step)
qed

lemma binit_loop_unlinked:
  assumes "\<forall>b \<in> set bs. b < NBUF" and "length (bufs s) = Suc NBUF" and "b_lock (bufs s ! j) = \<lparr>sl_locked = False, sl_pid = 0\<rparr>"
  shows "unlinked (bufs (binit_loop bs s) ! j) = unlinked (bufs s ! j) \<and>
     (\<exists>L B. L \<subseteq> klk s \<and> binit_loop bs s = s\<lparr>klk := L, bufs := B\<rparr>)"
  using assms
proof (induction bs arbitrary: s)
  case Nil
  show ?case by (intro conjI exI [of _ "klk s"] exI [of _ "bufs s"]) simp_all
next
  case (Cons b bs)
  let ?s1 = "set_buf b (\<lambda>x. x\<lparr>b_next := b_next (bufs s ! NBUF), b_prev := NBUF\<rparr>) s"
  let ?s2 = "initsleeplock (BufLk b) (set_buf_lock b) ?s1"
  let ?s3 = "set_buf (b_next (bufs ?s2 ! NBUF)) (\<lambda>x. x\<lparr>b_prev := b\<rparr>) ?s2"
  let ?s4 = "set_buf NBUF (\<lambda>x. x\<lparr>b_next := b\<rparr>) ?s3"
  have b: "b < length (bufs s)" using Cons.prems by simp
  have "unlinked (bufs ?s1 ! j) = unlinked (bufs s ! j)"
    using b by (simp add: nth_set_buf unlinked_def)
  moreover have "bufs ?s2 ! j = bufs ?s1 ! j"
    using b Cons.prems(3) by (simp add: initsleeplock_def set_buf_lock_def set_buf_def nth_list_update)
  ultimately have u: "unlinked (bufs ?s4 ! j) = unlinked (bufs s ! j)" by simp
  have l: "length (bufs ?s4) = Suc NBUF" using Cons.prems by (simp add: initsleeplock_def)
  have k: "b_lock (bufs ?s4 ! j) = \<lparr>sl_locked = False, sl_pid = 0\<rparr>"
    using unlinked_fields(4) [OF u] Cons.prems(3) by simp
  from Cons.IH [OF _ l k] Cons.prems(1) obtain L B where
    1: "unlinked (bufs (binit_loop bs ?s4) ! j) = unlinked (bufs ?s4 ! j)"
       "L \<subseteq> klk ?s4" "binit_loop bs ?s4 = ?s4\<lparr>klk := L, bufs := B\<rparr>" by auto
  have 2: "?s4\<lparr>klk := L, bufs := B\<rparr> = s\<lparr>klk := L, bufs := B\<rparr>"
    by (simp add: initsleeplock_def set_buf_lock_def set_buf_def)
  have "binit_loop (b # bs) s = binit_loop bs ?s4" by (simp add: Let_def)
  moreover have "klk ?s4 \<subseteq> klk s" by (auto simp: initsleeplock_def set_buf_lock_def)
  ultimately show ?case using 1 2 u by auto
qed

text \<open>The zeroed state the cache starts from, with a process running.\<close>

definition buf_bss :: buf where
  "buf_bss = \<lparr>b_flags = 0, b_dev = 0, b_blockno = 0, b_lock = \<lparr>sl_locked = False, sl_pid = 0\<rparr>,
     b_refcnt = 0, b_prev = 0, b_next = 0, b_data = (\<lambda>_. 0)\<rparr>"

lemma binit_spec:
  assumes "bufs s = replicate (Suc NBUF) buf_bss"
  shows "bio_inv (binit s) \<and> lru (bufs (binit s)) (rev [0..<NBUF]) \<and> view (binit s) = disk s \<and>
    held_blocks (binit s) = {} \<and> dirty_blocks (binit s) = {} \<and>
    (\<exists>L B. L \<subseteq> klk s \<and> binit s = s\<lparr>klk := L, bufs := B\<rparr>)"
proof -
  let ?s = "set_buf NBUF (\<lambda>x. x\<lparr>b_prev := NBUF, b_next := NBUF\<rparr>) (s\<lparr>klk := klk s - {BcacheLock}\<rparr>)"
  have lS: "length (bufs s) = Suc NBUF" using assms by simp
  have nS: "bufs s ! j = buf_bss" if "j \<le> NBUF" for j
    using that unfolding assms by (intro nth_replicate) simp
  have nth: "bufs ?s ! j = (if j = NBUF then buf_bss\<lparr>b_prev := NBUF, b_next := NBUF\<rparr> else buf_bss)"
    if "j \<le> NBUF" for j using that lS nS by (simp add: nth_set_buf)
  have len: "length (bufs ?s) = Suc NBUF" using lS by simp
  have "nexts ?s NBUF = NBUF" "prevs ?s NBUF = NBUF" using nth [of NBUF]
    by (simp_all add: nexts_def prevs_def)
  then have l: "lru (bufs (binit s)) (rev [0..<NBUF])"
    using binit_loop_lru [OF len, of 0 NBUF] by (simp add: binit_def)
  have ub: "unlinked (bufs ?s ! j) = buf_bss" if "j < NBUF" for j
    using that nth [of j] by (simp add: unlinked_def buf_bss_def)
  have lk: "b_lock (bufs ?s ! j) = \<lparr>sl_locked = False, sl_pid = 0\<rparr>" if "j < NBUF" for j
    using that nth [of j] by (simp add: buf_bss_def)
  have u: "unlinked (bufs (binit s) ! j) = unlinked buf_bss" if "j < NBUF" for j
    using binit_loop_unlinked [of "[0..<NBUF]" ?s j, OF _ len lk [OF that]] ub [OF that]
    by (simp add: binit_def unlinked_def buf_bss_def)
  have u': "b_dev (bufs (binit s) ! j) = 0" "b_flags (bufs (binit s) ! j) = 0"
      "b_refcnt (bufs (binit s) ! j) = 0" "\<not> sl_locked (b_lock (bufs (binit s) ! j))" if "j < NBUF" for j
    using unlinked_fields [OF u [OF that]] by (simp_all add: buf_bss_def)
  have c: "\<not> caches (binit s) j n" for j n using u'(1) [of j] by (auto simp: caches_def)
  have I: "bio_inv (binit s)"
    using l c u' by (auto simp: bio_inv_def buf_ok_def valid_def dirty_def locked_def)
  have N: "(0::nat) < NBUF" by (simp add: NBUF_def)
  obtain L B where r: "L \<subseteq> klk s" "binit s = s\<lparr>klk := L, bufs := B\<rparr>"
    using binit_loop_unlinked [of "[0..<NBUF]" ?s 0, OF _ len lk [OF N]]
    by (auto simp: binit_def set_buf_def)
  then have "disk (binit s) = disk s" by simp
  with I l c r show ?thesis
    using view_uncached [OF I] by (auto simp: held_blocks_def dirty_blocks_def)
qed

lemma owns_data: "bio_inv s \<Longrightarrow> owns_buf s i n \<Longrightarrow> b_data (bufs s ! i) = view s n"
  using view_cached [of s i n] by (simp add: owns_buf_def)

definition proc_bss :: proc where
  "proc_bss = \<lparr>p_sz = 0, p_pgdir = 0, p_kstack = 0, p_state = UNUSED, p_pid = 0, p_parent = None,
     p_tf = 0, p_context = 0, p_chan = None, p_killed = False, p_ofile = replicate NOFILE None,
     p_cwd = None, p_name = []\<rparr>"

definition bio_bss :: "(u32 \<Rightarrow> block) \<Rightarrow> u32 \<Rightarrow> bio" where
  "bio_bss d sz = \<lparr>klk = {}, ptable = replicate NPROC proc_bss, nextpid = 1, initproc = None,
     cur = Some 0, ts_esp0 = 0, ts_ss0 = 0, ts_iomb = 0, cr3 = 0, kpgdir = 0,
     cons_locking = False, panicked = False, crt = (\<lambda>_. 0), cursor_hi = 0, cursor_lo = 0,
     uart = False, com1 = [], pic = [], ioapic_reg = (\<lambda>_. 0), inp_buf = (\<lambda>_. 0), inp_r = 0,
     inp_w = 0, inp_e = 0, kbd_in = [], kbd_shift = 0, com1_in = [],
     mem = (\<lambda>_. 0),
     freelist = 0, use_lock = False, kend = 0, kdata = 0x80108000, bufs = replicate (Suc NBUF) buf_bss,
     disk = d, disksize = sz, dhist = []\<rparr>"

lemma binit_bss_idle:
  "bio_idle (binit (bio_bss d sz))" "disk (binit (bio_bss d sz)) = d" "disksize (binit (bio_bss d sz)) = sz"
proof -
  obtain L B where "binit (bio_bss d sz) = (bio_bss d sz)\<lparr>klk := L, bufs := B\<rparr>" "L \<subseteq> klk (bio_bss d sz)"
    using binit_spec [of "bio_bss d sz"] by (auto simp: bio_bss_def)
  then show "bio_idle (binit (bio_bss d sz))" "disk (binit (bio_bss d sz)) = d"
      "disksize (binit (bio_bss d sz)) = sz"
    by (auto simp: bio_idle_def bio_bss_def)
qed

section \<open>Properties\<close>

text \<open>C9. A block written through the cache is what the disk holds and what a later reader gets, and
  no other block changes: with no buffer in use, \<open>bread\<close> returns a locked buffer with the
  block's contents; after a change of its data, \<open>bwrite\<close> and \<open>brelse\<close>, the disk differs in
  this block only and the next \<open>bread\<close> returns the new contents.  None of the calls panics,
  loops or blocks.\<close>

theorem bcache_write_then_read:
  assumes "bio_inv s" and "bio_idle s" and "held_blocks s = {}" and "dirty_blocks s = {}"
    and "n < disksize s"
  shows "\<exists>i s1 s2 s3 j s4. bread 1 n s = Inr (i, s1) \<and> b_data (bufs s1 ! i) = disk s n \<and>
    bwrite i (set_data i x s1) = Inr ((), s2) \<and> brelse i s2 = Inr ((), s3) \<and>
    disk s3 = (disk s)(n := x) \<and> dhist s3 = dhist s @ [(n, x)] \<and> view s3 = (view s)(n := x) \<and>
    bio_inv s3 \<and> held_blocks s3 = {} \<and> dirty_blocks s3 = {} \<and>
    bread 1 n s3 = Inr (j, s4) \<and> b_data (bufs s4 ! j) = x"
proof -
  have N: "card {} < NBUF" by (simp add: NBUF_def)
  obtain i s1 where r: "bread 1 n s = Inr (i, s1)" and s1: "bio_inv s1" "bio_frame s s1"
      "view s1 = view s" "disk s1 = disk s" "dhist s1 = dhist s" "owns_buf s1 i n"
      "held_blocks s1 = {n}" "dirty_blocks s1 = {}"
    using bread_spec [OF assms(1,2,5)] assms(3,4) N by auto
  note D = set_data_spec [OF s1(1,6), of x]
  have i1: "bio_idle (set_data i x s1)"
    using assms(2) bio_frame_simps(9) [OF s1(2)] bio_frame_simps(9) [OF D(6)] by simp
  obtain s2 where w: "bwrite i (set_data i x s1) = Inr ((), s2)" and s2: "bio_inv s2"
      "bio_frame (set_data i x s1) s2" "view s2 = view (set_data i x s1)"
      "disk s2 = (disk s)(n := x)" "dhist s2 = dhist s @ [(n, x)]" "held_blocks s2 = {n}"
      "dirty_blocks s2 = {}" "owns_buf s2 i n"
    using bwrite_spec [OF D(1) i1, of i n] D s1 by auto
  have i2: "bio_idle s2" using i1 bio_frame_simps(9) [OF s2(2)] by simp
  have v2: "view s2 = (view s)(n := x)" using s2(3) D(2) s1(3) by simp
  obtain s3 where b: "brelse i s2 = Inr ((), s3)" and s3: "bio_inv s3" "bio_frame s2 s3"
      "view s3 = view s2" "disk s3 = disk s2" "dhist s3 = dhist s2" "held_blocks s3 = {}"
      "dirty_blocks s3 = {}"
    using brelse_spec [OF s2(1) i2 s2(8)] s2(4,6,7) fun_cong [OF v2, of n] by auto
  have i3: "bio_idle s3" "n < disksize s3"
    using i2 assms(5) bio_frame_simps [OF s3(2)] bio_frame_simps [OF s2(2)]
      bio_frame_simps [OF D(6)] bio_frame_simps [OF s1(2)] by simp_all
  obtain j s4 where r2: "bread 1 n s3 = Inr (j, s4)" and s4: "bio_inv s4" "view s4 = view s3"
      "owns_buf s4 j n"
    using bread_spec [OF s3(1) i3] s3(6,7) N by auto
  have "b_data (bufs s1 ! i) = disk s n"
    using owns_data [OF s1(1,6)] s1(3) view_disk [OF assms(1)] assms(3,4) by simp
  moreover have "b_data (bufs s4 ! j) = x" using owns_data [OF s4(1,3)] s4(2) s3(3) v2 by simp
  ultimately show ?thesis using r w b r2 s2(4,5) s3 v2
    by (intro exI [of _ i] exI [of _ s1] exI [of _ s2] exI [of _ s3] exI [of _ j] exI [of _ s4]) simp
qed

theorem bcache_write_then_read_witness:
  "\<exists>i s1 s2 s3 j s4. bread 1 7 (binit (bio_bss (\<lambda>_ _. 0) 1000)) = Inr (i, s1) \<and>
    b_data (bufs s1 ! i) = (\<lambda>_. 0) \<and>
    bwrite i (set_data i (\<lambda>_. 5) s1) = Inr ((), s2) \<and> brelse i s2 = Inr ((), s3) \<and>
    disk s3 7 0 = 5 \<and> disk s3 8 0 = 0 \<and>
    bread 1 7 s3 = Inr (j, s4) \<and> b_data (bufs s4 ! j) = (\<lambda>_. 5)"
proof -
  let ?s = "bio_bss (\<lambda>_ _. 0) 1000"
  have S: "bio_inv (binit ?s)" "held_blocks (binit ?s) = {}" "dirty_blocks (binit ?s) = {}"
    using binit_spec [of ?s] by (simp_all add: bio_bss_def)
  note idle = binit_bss_idle [of "\<lambda>_ _. 0" 1000]
  have "bio_idle (binit ?s)" "disk (binit ?s) = (\<lambda>_ _. 0)" "7 < disksize (binit ?s)"
    using idle by simp_all
  with bcache_write_then_read [OF S(1) _ S(2,3), of 7 "\<lambda>_. 5"] show ?thesis by fastforce
qed

text \<open>C10. The pointer surgery of \<open>brelse\<close> keeps the doubly linked list of buffers: if following
  \<open>next\<close> from the head visits the buffers \<open>xs\<close>, each once, and \<open>prev\<close> visits them backwards,
  then after \<open>brelse\<close> of buffer \<open>i\<close> the same holds of the list in which \<open>i\<close> has moved to the
  front, so that the list is in order of last release.\<close>

theorem brelse_keeps_lru_list:
  assumes "bio_inv s" and "bio_idle s" and "owns_buf s i n" and "lru (bufs s) xs"
  shows "\<exists>s'. brelse i s = Inr ((), s') \<and> lru (bufs s') (to_front i xs)"
proof -
  let ?t = "wakeup1 (Some (ChBufLock i))
    (set_buf i (\<lambda>b. b\<lparr>b_lock := \<lparr>sl_locked = False, sl_pid = 0\<rparr>, b_refcnt := b_refcnt b - 1\<rparr>) s)"
  have "lru (bufs ?t) xs" using assms(4) by (simp add: lru_set_buf)
  moreover have "i < NBUF" using assms(3) by (simp add: owns_buf_def caches_def)
  ultimately show ?thesis using brelse_eq [OF assms(1-3)] move_to_front_lru by blast
qed

theorem brelse_keeps_lru_list_witness:
  "\<exists>i s1 s2 xs. bread 1 7 (binit (bio_bss (\<lambda>_ _. 0) 1000)) = Inr (i, s1) \<and> lru (bufs s1) xs \<and>
    brelse i s1 = Inr ((), s2) \<and> lru (bufs s2) (to_front i xs)"
proof -
  let ?s = "binit (bio_bss (\<lambda>_ _. 0) 1000)"
  have S: "bio_inv ?s" "held_blocks ?s = {}" "dirty_blocks ?s = {}"
    using binit_spec [of "bio_bss (\<lambda>_ _. 0) 1000"] by (simp_all add: bio_bss_def)
  note idle = binit_bss_idle [of "\<lambda>_ _. 0" 1000]
  have "7 < disksize ?s" using idle by simp
  from bread_spec [OF S(1) idle(1) this] S(2,3) obtain i s1 where
    r: "bread 1 7 ?s = Inr (i, s1)" "bio_inv s1" "bio_frame ?s s1" "owns_buf s1 i 7"
    by (auto simp: NBUF_def)
  obtain xs where "lru (bufs s1) xs" using r(2) by (auto simp: bio_inv_def)
  with brelse_keeps_lru_list [OF r(2) _ r(4) this] bio_frame_simps(9) [OF r(3)] idle(1) r(1)
  show ?thesis by auto
qed

end
