(* ===== verification/Log.thy ===== *)
theory Log
  imports Bio
begin

text \<open>
  The write-ahead log (\<open>log.c\<close>) and the superblock.  A file-system operation modifies blocks in
  the cache between \<open>begin_op\<close> and \<open>end_op\<close> and records them with \<open>log_write\<close>; the last operation
  to end commits them: copies them to the log, writes the header (the commit point), installs
  them at home and erases the header.  \<open>recover_from_log\<close> does the last two at boot.  What is
  proved of it is in theory \<open>Log_Crash\<close>.
\<close>

section \<open>Superblock\<close>

record superblock =
  sb_size :: u32
  sb_nblocks :: u32
  sb_ninodes :: u32
  sb_nlog :: u32
  sb_logstart :: u32
  sb_inodestart :: u32
  sb_bmapstart :: u32

definition sb_of_block :: "block \<Rightarrow> superblock" where
  "sb_of_block b = \<lparr>sb_size = rd32 b 0, sb_nblocks = rd32 b 4, sb_ninodes = rd32 b 8,
     sb_nlog = rd32 b 12, sb_logstart = rd32 b 16, sb_inodestart = rd32 b 20, sb_bmapstart = rd32 b 24\<rparr>"

definition readsb :: "u32 \<Rightarrow> 'a bio_scheme \<Rightarrow> (superblock, 'a bio_scheme) kresult" where
  "readsb dev s =
     bindE (bread dev 1 s) (\<lambda>bp s.
       let sb = sb_of_block (b_data (bufs s ! bp)) in
       bindE (brelse bp s) (\<lambda>_ s. Inr (sb, s)))"

section \<open>State\<close>

definition MAXOPBLOCKS :: int where "MAXOPBLOCKS = 10"
definition LOGSIZE :: int where "LOGSIZE = MAXOPBLOCKS * 3"

text \<open>\<open>l_n\<close> and \<open>l_block\<close> are the in-memory header \<open>log.lh\<close>.\<close>

record log = bio +
  l_start :: u32
  l_size :: int
  l_outstanding :: int
  l_committing :: bool
  l_dev :: u32
  l_n :: int
  l_block :: "u32 list"

section \<open>Recovery and commit\<close>

fun install_trans_loop :: "nat list \<Rightarrow> 'a log_scheme \<Rightarrow> (unit, 'a log_scheme) kresult" where
  "install_trans_loop [] s = Inr ((), s)"
| "install_trans_loop (tail # ts) s =
     bindE (bread (l_dev s) (l_start s + of_nat tail + 1) s) (\<lambda>lbuf s.
     bindE (bread (l_dev s) (l_block s ! tail) s) (\<lambda>dbuf s.
     bindE (bwrite dbuf (set_data dbuf (b_data (bufs s ! lbuf)) s)) (\<lambda>_ s.
     bindE (brelse lbuf s) (\<lambda>_ s.
     bindE (brelse dbuf s) (\<lambda>_ s.
     install_trans_loop ts s)))))"

definition install_trans :: "'a log_scheme \<Rightarrow> (unit, 'a log_scheme) kresult" where
  "install_trans s = install_trans_loop [0..<nat (l_n s)] s"

text \<open>A header of more than \<open>LOGSIZE\<close> blocks would run over the array.\<close>

definition read_head :: "'a log_scheme \<Rightarrow> (unit, 'a log_scheme) kresult" where
  "read_head s =
     bindE (bread (l_dev s) (l_start s) s) (\<lambda>buf s.
       let lh = b_data (bufs s ! buf); n = sint (rd32 lh 0) in
       if n > LOGSIZE then Inl BadAccess
       else
         brelse buf (s\<lparr>l_n := n,
           l_block := map (\<lambda>i. rd32 lh (4 + 4 * i)) [0..<nat n] @ drop (nat n) (l_block s)\<rparr>))"

definition head_block :: "int \<Rightarrow> u32 list \<Rightarrow> block \<Rightarrow> block" where
  "head_block n bs hb = fold (\<lambda>i b. wr32 b (4 + 4 * i) (bs ! i)) [0..<nat n] (wr32 hb 0 (of_int n))"

definition write_head :: "'a log_scheme \<Rightarrow> (unit, 'a log_scheme) kresult" where
  "write_head s =
     bindE (bread (l_dev s) (l_start s) s) (\<lambda>buf s.
     bindE (bwrite buf (set_data buf (head_block (l_n s) (l_block s) (b_data (bufs s ! buf))) s)) (\<lambda>_ s.
     brelse buf s))"

definition recover_from_log :: "'a log_scheme \<Rightarrow> (unit, 'a log_scheme) kresult" where
  "recover_from_log s =
     bindE (read_head s) (\<lambda>_ s.
     bindE (install_trans s) (\<lambda>_ s.
     write_head (s\<lparr>l_n := 0\<rparr>)))"

text \<open>The size of \<open>struct logheader\<close> is 4 bytes for \<open>n\<close> and 4 for each of the \<open>LOGSIZE\<close> blocks.\<close>

definition initlog :: "u32 \<Rightarrow> 'a log_scheme \<Rightarrow> (unit, 'a log_scheme) kresult" where
  "initlog dev s =
     (if 4 + 4 * nat LOGSIZE \<ge> BSIZE then Inl (Panic ''initlog: too big logheader'')
      else
        bindE (readsb dev (s\<lparr>klk := klk s - {LogLock}\<rparr>)) (\<lambda>sb s.
        recover_from_log (s\<lparr>l_start := sb_logstart sb, l_size := sint (sb_nlog sb), l_dev := dev\<rparr>)))"

fun write_log_loop :: "nat list \<Rightarrow> 'a log_scheme \<Rightarrow> (unit, 'a log_scheme) kresult" where
  "write_log_loop [] s = Inr ((), s)"
| "write_log_loop (tail # ts) s =
     bindE (bread (l_dev s) (l_start s + of_nat tail + 1) s) (\<lambda>to s.
     bindE (bread (l_dev s) (l_block s ! tail) s) (\<lambda>from1 s.
     bindE (bwrite to (set_data to (b_data (bufs s ! from1)) s)) (\<lambda>_ s.
     bindE (brelse from1 s) (\<lambda>_ s.
     bindE (brelse to s) (\<lambda>_ s.
     write_log_loop ts s)))))"

definition write_log :: "'a log_scheme \<Rightarrow> (unit, 'a log_scheme) kresult" where
  "write_log s = write_log_loop [0..<nat (l_n s)] s"

definition commit :: "'a log_scheme \<Rightarrow> (unit, 'a log_scheme) kresult" where
  "commit s =
     (if l_n s > 0 then
        bindE (write_log s) (\<lambda>_ s.
        bindE (write_head s) (\<lambda>_ s.
        bindE (install_trans s) (\<lambda>_ s.
        write_head (s\<lparr>l_n := 0\<rparr>))))
      else Inr ((), s))"

section \<open>Operations\<close>

text \<open>One turn of the loop of \<open>begin_op\<close>, with \<open>log.lock\<close> held: the operation is admitted, or the
  process goes to sleep, giving up the lock.\<close>

definition begin_op_turn :: "'a log_scheme \<Rightarrow> (bool, 'a log_scheme) kresult" where
  "begin_op_turn s =
     (if l_committing s then bindE (sleep_enter ChLog (Some LogLock) s) (\<lambda>_ s. Inr (False, s))
      else if l_n s + (l_outstanding s + 1) * MAXOPBLOCKS > LOGSIZE then
        bindE (sleep_enter ChLog (Some LogLock) s) (\<lambda>_ s. Inr (False, s))
      else
        bindE (lk_release LogLock (s\<lparr>l_outstanding := l_outstanding s + 1\<rparr>)) (\<lambda>_ s. Inr (True, s)))"

definition begin_op :: "'a log_scheme \<Rightarrow> (unit, 'a log_scheme) kresult" where
  "begin_op s =
     bindE (lk_acquire LogLock s) (\<lambda>_ s.
     bindE (begin_op_turn s) (\<lambda>admitted s.
       if admitted then Inr ((), s) else Inl (Blocked ChLog)))"

definition end_op :: "'a log_scheme \<Rightarrow> (unit, 'a log_scheme) kresult" where
  "end_op s =
     bindE (lk_acquire LogLock s) (\<lambda>_ s.
       let s = s\<lparr>l_outstanding := l_outstanding s - 1\<rparr> in
       if l_committing s then Inl (Panic ''log.committing'')
       else
         let do_commit = (l_outstanding s = 0) in
         bindE (if do_commit then Inr ((), s\<lparr>l_committing := True\<rparr>) else wakeup ChLog s) (\<lambda>_ s.
         bindE (lk_release LogLock s) (\<lambda>_ s.
           if do_commit then
             bindE (commit s) (\<lambda>_ s.
             bindE (lk_acquire LogLock s) (\<lambda>_ s.
             bindE (wakeup ChLog (s\<lparr>l_committing := False\<rparr>)) (\<lambda>_ s.
             lk_release LogLock s)))
           else Inr ((), s))))"

text \<open>The slot that \<open>log_write\<close> uses for block \<open>bn\<close>: the one it already has, or the next.\<close>

definition log_slot :: "u32 \<Rightarrow> 'a log_scheme \<Rightarrow> nat" where
  "log_slot bn s =
     (case first_index (\<lambda>x. x = bn) (take (nat (l_n s)) (l_block s)) of
        Some i \<Rightarrow> i
      | None \<Rightarrow> nat (l_n s))"

definition log_write :: "nat \<Rightarrow> 'a log_scheme \<Rightarrow> (unit, 'a log_scheme) kresult" where
  "log_write b s =
     (if l_n s \<ge> LOGSIZE \<or> l_n s \<ge> l_size s - 1 then Inl (Panic ''too big a transaction'')
      else if l_outstanding s < 1 then Inl (Panic ''log_write outside of trans'')
      else
        bindE (lk_acquire LogLock s) (\<lambda>_ s.
          let bn = b_blockno (bufs s ! b);
              i = log_slot bn s;
              s = s\<lparr>l_block := (l_block s)[i := bn],
                    l_n := (if int i = l_n s then l_n s + 1 else l_n s)\<rparr>;
              s = set_buf b (\<lambda>x. x\<lparr>b_flags := b_flags x OR B_DIRTY\<rparr>) s
          in lk_release LogLock s))"

end
