(* ===== verification/Log_Crash.thy ===== *)
theory Log_Crash
  imports Log
begin

text \<open>
  The properties of the write-ahead log.  The loops of \<open>log.c\<close> are described by the block writes
  they make; from these: a commit makes the disk hold the new contents, and the disk after a
  crash between any two writes of a commit, or of a recovery, recovers to the old or to the new
  contents of all blocks.  The second part gives the invariant of a transaction and the rules
  for \<open>bread\<close>, \<open>log_write\<close>, \<open>brelse\<close> and \<open>end_op\<close> under it, on which the file system rests.
\<close>

section \<open>The cache as the log sees it\<close>

text \<open>\<open>bst s V D H hs ds\<close>: the cache is in order; the blocks read \<open>V\<close>, the disk holds \<open>D\<close>, the
  writes so far are \<open>H\<close>, the blocks \<open>hs\<close> are locked and \<open>ds\<close> are dirty.\<close>

definition bst :: "'a bio_scheme \<Rightarrow> (u32 \<Rightarrow> block) \<Rightarrow> (u32 \<Rightarrow> block) \<Rightarrow> (u32 \<times> block) list \<Rightarrow>
    u32 set \<Rightarrow> u32 set \<Rightarrow> bool" where
  "bst s V D H hs ds \<longleftrightarrow> bio_inv s \<and> bio_idle s \<and> view s = V \<and> disk s = D \<and> dhist s = H \<and>
     held_blocks s = hs \<and> dirty_blocks s = ds"

lemma bread_bst:
  assumes "bst s V D H hs ds" and "n < disksize s" and "n \<notin> hs" and "n \<in> ds \<or> card (hs \<union> ds) < NBUF"
  shows "\<exists>i s'. bread 1 n s = Inr (i, s') \<and> bst s' V D H (insert n hs) ds \<and> owns_buf s' i n \<and>
    bio_frame s s' \<and> (\<forall>j m. owns_buf s j m \<longrightarrow> owns_buf s' j m)"
proof -
  have "bio_inv s" "bio_idle s" and e: "view s = V" "disk s = D" "dhist s = H" "held_blocks s = hs"
      "dirty_blocks s = ds" using assms(1) by (simp_all add: bst_def)
  from bread_spec [OF this(1,2) assms(2)] assms(3,4) e \<open>bio_idle s\<close> show ?thesis
    by (auto simp: bst_def bio_frame_simps)
qed

lemma set_data_bst:
  assumes "bst s V D H hs ds" and "owns_buf s i n"
  shows "bst (set_data i x s) (V(n := x)) D H hs ds" "owns_buf (set_data i x s) = owns_buf s"
    "bio_frame s (set_data i x s)"
proof -
  have "bio_inv s" using assms(1) by (simp add: bst_def)
  note D = set_data_spec [OF this assms(2), of x]
  show "bst (set_data i x s) (V(n := x)) D H hs ds"
    using assms(1) D bio_frame_simps(9) [OF D(6)] by (simp add: bst_def)
  show "owns_buf (set_data i x s) = owns_buf s" "bio_frame s (set_data i x s)"
    using D by (simp_all add: fun_eq_iff)
qed

lemma bwrite_bst:
  assumes "bst s V D H hs ds" and "owns_buf s i n"
  shows "\<exists>s'. bwrite i s = Inr ((), s') \<and> bst s' V (D(n := V n)) (H @ [(n, V n)]) hs (ds - {n}) \<and>
    owns_buf s' = owns_buf s \<and> bio_frame s s'"
proof -
  have "bio_inv s" "bio_idle s" and e: "view s = V" "disk s = D" "dhist s = H" "held_blocks s = hs"
      "dirty_blocks s = ds" using assms(1) by (simp_all add: bst_def)
  from bwrite_spec [OF this(1,2) assms(2)] e \<open>bio_idle s\<close> show ?thesis
    by (auto simp: bst_def bio_frame_simps)
qed

lemma brelse_bst:
  assumes "bst s V D H hs ds" and "owns_buf s i n" and "n \<in> ds \<or> V n = D n"
  shows "\<exists>s'. brelse i s = Inr ((), s') \<and> bst s' V D H (hs - {n}) ds \<and>
    (\<forall>j m. m \<noteq> n \<longrightarrow> owns_buf s j m \<longrightarrow> owns_buf s' j m) \<and> bio_frame s s'"
proof -
  have "bio_inv s" "bio_idle s" and e: "view s = V" "disk s = D" "dhist s = H" "held_blocks s = hs"
      "dirty_blocks s = ds" using assms(1) by (simp_all add: bst_def)
  from brelse_spec [OF this(1,2) assms(2)] assms(3) e \<open>bio_idle s\<close> show ?thesis
    by (auto simp: bst_def bio_frame_simps)
qed

lemma bst_data: "bst s V D H hs ds \<Longrightarrow> owns_buf s i n \<Longrightarrow> b_data (bufs s ! i) = V n"
  using owns_data [of s i n] by (auto simp: bst_def)

text \<open>Copying a block into another and writing it: the body of the loops of \<open>write_log\<close> and
  \<open>install_trans\<close>, up to the order of the two releases.\<close>

lemma copy_block_bst:
  assumes b: "bst s V D H {} ds" and a: "a < disksize s" "c < disksize s" "a \<noteq> c"
    and sp: "card ds < NBUF" "c \<in> ds \<or> card (insert a ds) < NBUF"
  shows "\<exists>i j s1 s2. bread 1 a s = Inr (i, s1) \<and> bread 1 c s1 = Inr (j, s2) \<and>
    bio_frame s s1 \<and> bio_frame s1 s2 \<and> owns_buf s2 i a \<and> owns_buf s2 j c \<and> bst s2 V D H {a, c} ds"
proof -
  obtain i s1 where 1: "bread 1 a s = Inr (i, s1)" "bst s1 V D H {a} ds" "owns_buf s1 i a" "bio_frame s s1"
    using bread_bst [OF b a(1)] sp(1) by auto
  obtain j s2 where 2: "bread 1 c s1 = Inr (j, s2)" "bst s2 V D H {c, a} ds" "owns_buf s2 j c"
      "bio_frame s1 s2" "\<forall>j m. owns_buf s1 j m \<longrightarrow> owns_buf s2 j m"
    using bread_bst [OF 1(2), of c] a bio_frame_simps(3) [OF 1(4)] sp(2) by auto
  have "owns_buf s2 i a" using 1(3) 2(5) by blast
  then show ?thesis using 1 2 by (auto simp: insert_commute)
qed

lemma log_frame:
  fixes s :: "'a log_scheme"
  assumes "bio_frame s s'"
  shows "l_start s' = l_start s" "l_size s' = l_size s" "l_outstanding s' = l_outstanding s"
    "l_committing s' = l_committing s" "l_dev s' = l_dev s" "l_n s' = l_n s" "l_block s' = l_block s"
    "disksize s' = disksize s"
  using assms by (auto simp: bio_frame_def)

section \<open>Writes and the places they go to\<close>

definition apply_writes :: "(u32 \<times> block) list \<Rightarrow> (u32 \<Rightarrow> block) \<Rightarrow> (u32 \<Rightarrow> block)" where
  "apply_writes W d = fold (\<lambda>(n, x) d. d(n := x)) W d"

lemma apply_writes_simps [simp]:
  "apply_writes [] d = d" "apply_writes ((n, x) # W) d = apply_writes W (d(n := x))"
  "apply_writes (W @ W') d = apply_writes W' (apply_writes W d)"
  by (simp_all add: apply_writes_def)

lemma apply_writes_other: "n \<notin> fst ` set W \<Longrightarrow> apply_writes W d n = d n"
  by (induction W arbitrary: d) auto

lemma apply_writes_in:
  "distinct (map fst W) \<Longrightarrow> (n, x) \<in> set W \<Longrightarrow> apply_writes W d n = x"
proof (induction W arbitrary: d)
  case (Cons w W)
  obtain m y where w: "w = (m, y)" by (cases w)
  show ?case
  proof (cases "w = (n, x)")
    case True
    with Cons.prems w have "n \<notin> fst ` set W" by auto
    with True show ?thesis by (simp add: apply_writes_other)
  next
    case False
    with Cons w show ?thesis by auto
  qed
qed simp

definition logblk :: "'a log_scheme \<Rightarrow> nat \<Rightarrow> u32" where
  "logblk s t = l_start s + of_nat t + 1"

text \<open>\<open>log_ok s n\<close>: the header and the \<open>n\<close> blocks of the log lie on the disk, the first \<open>n\<close> entries of
  the in-memory header are distinct and lie on the disk outside the header and the log.\<close>

definition log_ok :: "'a log_scheme \<Rightarrow> nat \<Rightarrow> bool" where
  "log_ok s n \<longleftrightarrow> l_dev s = 1 \<and> unat (l_start s) + n < unat (disksize s) \<and> n \<le> length (l_block s) \<and>
     distinct (take n (l_block s)) \<and>
     (\<forall>b \<in> set (take n (l_block s)). b < disksize s \<and>
        \<not> (unat (l_start s) \<le> unat b \<and> unat b \<le> unat (l_start s) + n))"

lemma logblk_unat:
  assumes "log_ok s n" and "t < n"
  shows "unat (logblk s t) = unat (l_start s) + t + 1"
proof -
  have "unat (l_start s) + n < 2 ^ 32"
    using assms(1) unsigned_less [where ?'a = nat, of "disksize s"] by (simp add: log_ok_def)
  then have "unat (l_start s) + Suc t < 2 ^ 32" using assms(2) by linarith
  then show ?thesis using unat_plus_nat [of "l_start s" "Suc t"]
    by (simp add: logblk_def algebra_simps)
qed

lemma logblk_less: "log_ok s n \<Longrightarrow> t < n \<Longrightarrow> logblk s t < disksize s"
  using logblk_unat [of s n t] by (simp add: word_less_nat_alt log_ok_def)

lemma logblk_eq: "log_ok s n \<Longrightarrow> t < n \<Longrightarrow> u < n \<Longrightarrow> logblk s t = logblk s u \<longleftrightarrow> t = u"
  using logblk_unat [of s n t] logblk_unat [of s n u] by (auto simp: word_unat_eq_iff)

lemma logblk_start: "log_ok s n \<Longrightarrow> t < n \<Longrightarrow> logblk s t \<noteq> l_start s"
  using logblk_unat [of s n t] by (auto simp: word_unat_eq_iff)

lemma home_in: "log_ok s n \<Longrightarrow> t < n \<Longrightarrow> l_block s ! t \<in> set (take n (l_block s))"
  by (auto simp: log_ok_def in_set_conv_nth intro!: exI [of _ t])

lemma home_ok:
  assumes "log_ok s n" and "b \<in> set (take n (l_block s))"
  shows "b < disksize s" "b \<noteq> l_start s" "\<And>t. t < n \<Longrightarrow> logblk s t \<noteq> b"
proof -
  show "b < disksize s" "b \<noteq> l_start s" using assms by (auto simp: log_ok_def)
  fix t assume "t < n"
  from logblk_unat [OF assms(1) this] assms \<open>t < n\<close> show "logblk s t \<noteq> b"
    by (auto simp: log_ok_def)
qed

lemma home_distinct:
  assumes "log_ok s n" and "t < n" and "u < n"
  shows "l_block s ! t = l_block s ! u \<longleftrightarrow> t = u"
  using assms nth_eq_iff_index_eq [of "take n (l_block s)" t u] by (auto simp: log_ok_def)

lemma start_less: "log_ok s n \<Longrightarrow> l_start s < disksize s"
  by (simp add: log_ok_def word_less_nat_alt)

lemma log_ok_frame:
  assumes "bio_frame s s'"
  shows "log_ok s' n = log_ok s n" "logblk s' = logblk s"
  by (simp_all add: log_ok_def logblk_def [abs_def] log_frame [OF assms])

section \<open>The loops\<close>

definition log_writes :: "'a log_scheme \<Rightarrow> (u32 \<Rightarrow> block) \<Rightarrow> nat list \<Rightarrow> (u32 \<times> block) list" where
  "log_writes s V ts = map (\<lambda>t. (logblk s t, V (l_block s ! t))) ts"

definition home_writes :: "'a log_scheme \<Rightarrow> (u32 \<Rightarrow> block) \<Rightarrow> nat list \<Rightarrow> (u32 \<times> block) list" where
  "home_writes s V ts = map (\<lambda>t. (l_block s ! t, V (logblk s t))) ts"

lemma write_log_loop_bst:
  assumes "log_ok s n" and "set ts \<subseteq> {0..<n}" and "bst s V D H {} ds" and "card ds < NBUF"
    and "set (take n (l_block s)) \<subseteq> ds" and "\<And>t. t < n \<Longrightarrow> logblk s t \<notin> ds"
  shows "\<exists>s'. write_log_loop ts s = Inr ((), s') \<and> bio_frame s s' \<and>
    bst s' (apply_writes (log_writes s V ts) V) (apply_writes (log_writes s V ts) D)
      (H @ log_writes s V ts) {} ds"
  using assms
proof (induction ts arbitrary: s V D H)
  case Nil
  then show ?case by (simp add: log_writes_def)
next
  case (Cons t ts)
  let ?a = "logblk s t" and ?c = "l_block s ! t"
  have t: "t < n" using Cons.prems(2) by simp
  have c: "?c \<in> set (take n (l_block s))" by (rule home_in [OF Cons.prems(1) t])
  have cd: "?c \<in> ds" using c Cons.prems(5) by blast
  have ac: "?a \<noteq> ?c" by (rule home_ok(3) [OF Cons.prems(1) c t])
  have adev: "l_dev s = 1" using Cons.prems(1) by (simp add: log_ok_def)
  have sp: "?c \<in> ds \<or> card (insert ?a ds) < NBUF" using cd by simp
  obtain i j s1 s2 where r: "bread 1 ?a s = Inr (i, s1)" "bread 1 ?c s1 = Inr (j, s2)"
      "bio_frame s s1" "bio_frame s1 s2" "owns_buf s2 i ?a" "owns_buf s2 j ?c" "bst s2 V D H {?a, ?c} ds"
    using copy_block_bst [OF Cons.prems(3) logblk_less [OF Cons.prems(1) t]
        home_ok(1) [OF Cons.prems(1) c] ac Cons.prems(4) sp] by blast
  let ?x = "V ?c"
  have x: "b_data (bufs s2 ! j) = ?x" by (rule bst_data [OF r(7,6)])
  note D2 = set_data_bst [OF r(7,5), of ?x]
  have o2: "owns_buf (set_data i ?x s2) i ?a" using D2(2) r(5) by simp
  obtain s3 where w: "bwrite i (set_data i ?x s2) = Inr ((), s3)"
    and b3: "bst s3 (V(?a := ?x)) (D(?a := ?x)) (H @ [(?a, ?x)]) {?a, ?c} (ds - {?a})"
    and o3: "owns_buf s3 = owns_buf s2" and f3: "bio_frame (set_data i ?x s2) s3"
    using bwrite_bst [OF D2(1) o2] D2(2) by auto
  have ds: "ds - {?a} = ds" using Cons.prems(6) [OF t] by simp
  have hs: "{?a, ?c} - {?c} = {?a}" using ac by auto
  obtain s4 where q: "brelse j s3 = Inr ((), s4)"
    and b4: "bst s4 (V(?a := ?x)) (D(?a := ?x)) (H @ [(?a, ?x)]) {?a} ds"
    and o4: "\<forall>k m. m \<noteq> ?c \<longrightarrow> owns_buf s3 k m \<longrightarrow> owns_buf s4 k m" and f4: "bio_frame s3 s4"
    using brelse_bst [OF b3, of j ?c] o3 r(6) cd ds hs by auto
  have o4': "owns_buf s4 i ?a" using o4 o3 r(5) ac by auto
  obtain s5 where q': "brelse i s4 = Inr ((), s5)"
    and b5: "bst s5 (V(?a := ?x)) (D(?a := ?x)) (H @ [(?a, ?x)]) {} ds" and f5: "bio_frame s4 s5"
    using brelse_bst [OF b4 o4'] ac by auto
  have f: "bio_frame s s5"
    by (meson r(3,4) D2(3) f3 f4 f5 bio_frame_trans)
  have body: "write_log_loop (t # ts) s = write_log_loop ts s5"
    using r(1,2) w q q' x adev
    by (simp add: logblk_def log_frame [OF r(3)])
  have e: "(V(?a := ?x)) (l_block s ! u) = V (l_block s ! u)" if "u \<in> set ts" for u
  proof -
    have "u < n" using that Cons.prems(2) by auto
    from home_ok(3) [OF Cons.prems(1) home_in [OF Cons.prems(1) this] t] show ?thesis by simp
  qed
  have lw: "log_writes s5 (V(?a := ?x)) ts = log_writes s V ts"
    using e by (simp add: log_writes_def log_frame [OF f] log_ok_frame [OF f])
  have ih: "log_ok s5 n" "set ts \<subseteq> {0..<n}" "set (take n (l_block s5)) \<subseteq> ds"
      "\<And>u. u < n \<Longrightarrow> logblk s5 u \<notin> ds"
    using Cons.prems by (simp_all add: log_ok_frame [OF f] log_frame [OF f])
  from Cons.IH [OF ih(1,2) b5 Cons.prems(4) ih(3,4), unfolded lw]
  obtain s' where s': "write_log_loop ts s5 = Inr ((), s')" "bio_frame s5 s'"
    "bst s' (apply_writes (log_writes s V ts) (V(?a := ?x))) (apply_writes (log_writes s V ts) (D(?a := ?x)))
      ((H @ [(?a, ?x)]) @ log_writes s V ts) {} ds"
    by blast
  have "log_writes s V (t # ts) = (?a, ?x) # log_writes s V ts" by (simp add: log_writes_def)
  with s' body bio_frame_trans [OF f s'(2)] show ?case by simp
qed


lemma install_trans_loop_bst:
  assumes "log_ok s n" and "set ts \<subseteq> {0..<n}" and "distinct ts" and "bst s V D H {} ds"
    and "card ds < NBUF" and "ds = {} \<or> (\<lambda>t. l_block s ! t) ` set ts \<subseteq> ds"
    and "\<And>t. t < n \<Longrightarrow> V (logblk s t) = D (logblk s t)"
  shows "\<exists>s'. install_trans_loop ts s = Inr ((), s') \<and> bio_frame s s' \<and>
    bst s' (apply_writes (home_writes s V ts) V) (apply_writes (home_writes s V ts) D)
      (H @ home_writes s V ts) {} (ds - (\<lambda>t. l_block s ! t) ` set ts)"
  using assms
proof (induction ts arbitrary: s V D H ds)
  case Nil
  then show ?case by (simp add: home_writes_def)
next
  case (Cons t ts)
  let ?a = "logblk s t" and ?c = "l_block s ! t"
  have t: "t < n" using Cons.prems(2) by simp
  have c: "?c \<in> set (take n (l_block s))" by (rule home_in [OF Cons.prems(1) t])
  have ac: "?a \<noteq> ?c" by (rule home_ok(3) [OF Cons.prems(1) c t])
  have adev: "l_dev s = 1" using Cons.prems(1) by (simp add: log_ok_def)
  have sp: "?c \<in> ds \<or> card (insert ?a ds) < NBUF"
    using Cons.prems(6) by (auto simp: NBUF_def)
  obtain i j s1 s2 where r: "bread 1 ?a s = Inr (i, s1)" "bread 1 ?c s1 = Inr (j, s2)"
      "bio_frame s s1" "bio_frame s1 s2" "owns_buf s2 i ?a" "owns_buf s2 j ?c" "bst s2 V D H {?a, ?c} ds"
    using copy_block_bst [OF Cons.prems(4) logblk_less [OF Cons.prems(1) t]
        home_ok(1) [OF Cons.prems(1) c] ac Cons.prems(5) sp] by blast
  let ?x = "V ?a"
  have x: "b_data (bufs s2 ! i) = ?x" by (rule bst_data [OF r(7,5)])
  note D2 = set_data_bst [OF r(7,6), of ?x]
  have o2: "owns_buf (set_data j ?x s2) j ?c" using D2(2) r(6) by simp
  obtain s3 where w: "bwrite j (set_data j ?x s2) = Inr ((), s3)"
    and b3: "bst s3 (V(?c := ?x)) (D(?c := ?x)) (H @ [(?c, ?x)]) {?a, ?c} (ds - {?c})"
    and o3: "owns_buf s3 = owns_buf s2" and f3: "bio_frame (set_data j ?x s2) s3"
    using bwrite_bst [OF D2(1) o2] D2(2) by auto
  have hs: "{?a, ?c} - {?a} = {?c}" using ac by auto
  obtain s4 where q: "brelse i s3 = Inr ((), s4)"
    and b4: "bst s4 (V(?c := ?x)) (D(?c := ?x)) (H @ [(?c, ?x)]) {?c} (ds - {?c})"
    and o4: "\<forall>k m. m \<noteq> ?a \<longrightarrow> owns_buf s3 k m \<longrightarrow> owns_buf s4 k m" and f4: "bio_frame s3 s4"
    using brelse_bst [OF b3, of i ?a] o3 r(5) hs Cons.prems(7) [OF t] ac by auto
  have o4': "owns_buf s4 j ?c" using o4 o3 r(6) ac by auto
  obtain s5 where q': "brelse j s4 = Inr ((), s5)"
    and b5: "bst s5 (V(?c := ?x)) (D(?c := ?x)) (H @ [(?c, ?x)]) {} (ds - {?c})" and f5: "bio_frame s4 s5"
    using brelse_bst [OF b4 o4'] by auto
  have f: "bio_frame s s5"
    by (meson r(3,4) D2(3) f3 f4 f5 bio_frame_trans)
  have body: "install_trans_loop (t # ts) s = install_trans_loop ts s5"
    using r(1,2) w q q' x adev by (simp add: logblk_def log_frame [OF r(3)])
  have e: "(V(?c := ?x)) (logblk s u) = V (logblk s u)" "(D(?c := ?x)) (logblk s u) = D (logblk s u)"
    if "u < n" for u using home_ok(3) [OF Cons.prems(1) c that] by simp_all
  have lw: "home_writes s5 (V(?c := ?x)) ts = home_writes s V ts"
    using home_ok(3) [OF Cons.prems(1) c] Cons.prems(2)
    by (auto simp: home_writes_def log_frame [OF f] log_ok_frame [OF f])
  have nc: "?c \<notin> (\<lambda>t. l_block s ! t) ` set ts"
  proof
    assume "?c \<in> (\<lambda>t. l_block s ! t) ` set ts"
    then obtain u where "u \<in> set ts" "?c = l_block s ! u" by blast
    with Cons.prems(2,3) home_distinct [OF Cons.prems(1) t, of u] show False by auto
  qed
  have "ds = {} \<or> (\<lambda>t. l_block s ! t) ` set ts \<subseteq> ds" using Cons.prems(6) by auto
  then have dc: "ds - {?c} = {} \<or> (\<lambda>t. l_block s ! t) ` set ts \<subseteq> ds - {?c}" using nc by blast
  have ih: "log_ok s5 n" "set ts \<subseteq> {0..<n}" "distinct ts"
      "ds - {?c} = {} \<or> (\<lambda>t. l_block s5 ! t) ` set ts \<subseteq> ds - {?c}"
      "\<And>u. u < n \<Longrightarrow> (V(?c := ?x)) (logblk s5 u) = (D(?c := ?x)) (logblk s5 u)"
    using Cons.prems(1-3,7) dc e by (simp_all add: log_ok_frame [OF f] log_frame [OF f])
  have cd: "card (ds - {?c}) < NBUF" using Cons.prems(5) by (meson card_Diff1_le le_less_trans)
  from Cons.IH [OF ih(1-3) b5 cd ih(4,5), unfolded lw]
  obtain s' where s': "install_trans_loop ts s5 = Inr ((), s')" "bio_frame s5 s'"
    "bst s' (apply_writes (home_writes s V ts) (V(?c := ?x))) (apply_writes (home_writes s V ts) (D(?c := ?x)))
      ((H @ [(?c, ?x)]) @ home_writes s V ts) {} (ds - {?c} - (\<lambda>t. l_block s5 ! t) ` set ts)"
    by blast
  have "home_writes s V (t # ts) = (?c, ?x) # home_writes s V ts" by (simp add: home_writes_def)
  moreover have "ds - {?c} - (\<lambda>t. l_block s5 ! t) ` set ts = ds - (\<lambda>t. l_block s ! t) ` set (t # ts)"
    by (auto simp: log_frame [OF f])
  ultimately show ?case using s' body bio_frame_trans [OF f s'(2)] by simp
qed

lemma write_head_bst:
  assumes "log_ok s n" and "bst s V D H {} ds" and "card ds < NBUF" and "l_start s \<notin> ds"
  shows "\<exists>s'. write_head s = Inr ((), s') \<and> bio_frame s s' \<and>
    (let x = head_block (l_n s) (l_block s) (V (l_start s)) in
     bst s' (V(l_start s := x)) (D(l_start s := x)) (H @ [(l_start s, x)]) {} ds)"
proof -
  let ?h = "l_start s" and ?x = "head_block (l_n s) (l_block s) (V (l_start s))"
  obtain i s1 where 1: "bread 1 ?h s = Inr (i, s1)" "bst s1 V D H {?h} ds" "owns_buf s1 i ?h"
      "bio_frame s s1"
    using bread_bst [OF assms(2) start_less [OF assms(1)]] assms(3) by auto
  have x: "b_data (bufs s1 ! i) = V ?h" by (rule bst_data [OF 1(2,3)])
  note D = set_data_bst [OF 1(2,3), of ?x]
  have o: "owns_buf (set_data i ?x s1) i ?h" using D(2) 1(3) by simp
  obtain s2 where 2: "bwrite i (set_data i ?x s1) = Inr ((), s2)"
      "bst s2 (V(?h := ?x)) (D(?h := ?x)) (H @ [(?h, ?x)]) {?h} (ds - {?h})"
      "owns_buf s2 i ?h" "bio_frame (set_data i ?x s1) s2"
    using bwrite_bst [OF D(1) o] o by auto
  obtain s3 where 3: "brelse i s2 = Inr ((), s3)"
      "bst s3 (V(?h := ?x)) (D(?h := ?x)) (H @ [(?h, ?x)]) {} (ds - {?h})" "bio_frame s2 s3"
    using brelse_bst [OF 2(2,3)] by auto
  have "bio_frame s s3" by (meson 1(4) D(3) 2(4) 3(3) bio_frame_trans)
  moreover have "write_head s = Inr ((), s3)"
    using 1 2 3 x assms(1) by (simp add: write_head_def log_ok_def log_frame [OF 1(4)])
  ultimately show ?thesis using 3(2) assms(4) by (auto simp: Let_def)
qed

section \<open>The header block\<close>

lemma head_fold_outside:
  "j + 4 \<le> 4 + 4 * a \<or> 4 + 4 * b \<le> j \<Longrightarrow>
   rd32 (fold (\<lambda>i h. wr32 h (4 + 4 * i) (bs ! i)) [a..<b] h) j = rd32 h j"
proof (induction b arbitrary: j)
  case (Suc b)
  show ?case
  proof (cases "a \<le> b")
    case True
    then have "j + 4 \<le> 4 + 4 * b \<or> 4 + 4 * b + 4 \<le> j" using Suc.prems by auto
    then have "rd32 (wr32 h' (4 + 4 * b) w) j = rd32 h' j" for h' w
      by (intro rd32_wr32_other) auto
    moreover have "j + 4 \<le> 4 + 4 * a \<or> 4 + 4 * b \<le> j" using Suc.prems by auto
    ultimately show ?thesis using Suc.IH [of j] True by simp
  qed simp
qed simp

lemma head_fold_inside:
  "a \<le> i \<Longrightarrow> i < b \<Longrightarrow> rd32 (fold (\<lambda>i h. wr32 h (4 + 4 * i) (bs ! i)) [a..<b] h) (4 + 4 * i) = bs ! i"
proof (induction b)
  case (Suc b)
  show ?case
  proof (cases "i = b")
    case False
    then have "rd32 (wr32 h' (4 + 4 * b) w) (4 + 4 * i) = rd32 h' (4 + 4 * i)" for h' w
      using Suc.prems by (intro rd32_wr32_other) auto
    with Suc False show ?thesis by simp
  qed (use Suc in simp)
qed simp

lemma head_block_n: "rd32 (head_block n bs hb) 0 = of_int n"
  by (simp add: head_block_def head_fold_outside)

lemma head_block_nth: "i < nat n \<Longrightarrow> rd32 (head_block n bs hb) (4 + 4 * i) = bs ! i"
  by (simp add: head_block_def head_fold_inside)

lemma sint_small: "0 \<le> n \<Longrightarrow> n < 2 ^ 31 \<Longrightarrow> sint (of_int n :: u32) = n"
  by (simp add: sint_sbintrunc' signed_take_bit_int_eq_self)

text \<open>The entries a header block lists, and the copies that \<open>install_trans\<close> makes from a disk.\<close>

definition head_n :: "block \<Rightarrow> int" where
  "head_n h = sint (rd32 h 0)"

definition head_list :: "block \<Rightarrow> u32 list" where
  "head_list h = map (\<lambda>i. rd32 h (4 + 4 * i)) [0..<nat (head_n h)]"

lemma head_block_list:
  assumes "0 \<le> n" and "n \<le> LOGSIZE" and "nat n \<le> length bs"
  shows "head_n (head_block n bs hb) = n" "head_list (head_block n bs hb) = take (nat n) bs"
proof -
  show n: "head_n (head_block n bs hb) = n"
    using assms sint_small [of n] by (simp add: head_n_def head_block_n LOGSIZE_def MAXOPBLOCKS_def)
  show "head_list (head_block n bs hb) = take (nat n) bs"
    by (rule nth_equalityI) (use assms in \<open>simp_all add: head_list_def n head_block_nth\<close>)
qed

section \<open>Recovery\<close>

lemma bst_log_upd [simp]:
  "bst (s\<lparr>l_n := x\<rparr>) = bst s" "bst (s\<lparr>l_block := y\<rparr>) = bst s" "bst (s\<lparr>l_committing := c\<rparr>) = bst s"
  "bst (s\<lparr>l_outstanding := z\<rparr>) = bst s" "owns_buf (s\<lparr>l_n := x\<rparr>) = owns_buf s"
  "owns_buf (s\<lparr>l_block := y\<rparr>) = owns_buf s"
  by (simp_all add: fun_eq_iff bst_def bio_inv_def bio_idle_def caches_def view_def held_blocks_def
        dirty_blocks_def owns_buf_def split: option.split)

lemma read_head_bst:
  assumes "l_dev s = 1" "l_start s < disksize s" "bst s V D H {} {}" "V (l_start s) = D (l_start s)"
    "head_n (V (l_start s)) \<le> LOGSIZE"
  shows "\<exists>s' s''. read_head s = Inr ((), s') \<and> bst s' V D H {} {} \<and> bio_frame s s'' \<and>
    s' = s''\<lparr>l_n := head_n (V (l_start s)), l_block := head_list (V (l_start s)) @
      drop (nat (head_n (V (l_start s)))) (l_block s)\<rparr>"
proof -
  let ?h = "V (l_start s)"
  obtain i s1 where 1: "bread 1 (l_start s) s = Inr (i, s1)" "bst s1 V D H {l_start s} {}"
      "owns_buf s1 i (l_start s)" "bio_frame s s1"
    using bread_bst [OF assms(3,2)] by (auto simp: NBUF_def)
  have x: "b_data (bufs s1 ! i) = ?h" by (rule bst_data [OF 1(2,3)])
  let ?u = "\<lambda>t. t\<lparr>l_n := head_n ?h, l_block := head_list ?h @ drop (nat (head_n ?h)) (l_block s)\<rparr>"
  have b: "bst (?u s1) V D H {l_start s} {}" "owns_buf (?u s1) i (l_start s)" using 1 by simp_all
  obtain s2 where 2: "brelse i (?u s1) = Inr ((), s2)" "bst s2 V D H {} {}" "bio_frame (?u s1) s2"
    using brelse_bst [OF b] assms(4) by auto
  obtain T B D' H' where f: "s2 = (?u s1)\<lparr>ptable := T, bufs := B, disk := D', dhist := H'\<rparr>"
      "woken (ptable s1) T"
    using 2(3) unfolding bio_frame_def by auto
  let ?t = "s1\<lparr>ptable := T, bufs := B, disk := D', dhist := H'\<rparr>"
  have "bio_frame s1 ?t" using f(2) unfolding bio_frame_def by blast
  then have "bio_frame s ?t" using 1(4) bio_frame_trans by blast
  moreover have "s2 = ?u ?t" using f by simp
  moreover have "read_head s = Inr ((), s2)"
    using 1 2 x assms(1,5)
    by (simp add: read_head_def Let_def head_n_def head_list_def log_frame [OF 1(4)])
  ultimately show ?thesis using 2(2) by blast
qed

text \<open>A list of home blocks that fits a log at \<open>st\<close> on a disk of \<open>sz\<close> blocks.\<close>

definition log_geom :: "u32 \<Rightarrow> u32 \<Rightarrow> u32 list \<Rightarrow> bool" where
  "log_geom st sz hl \<longleftrightarrow> unat st + length hl < unat sz \<and> distinct hl \<and>
     (\<forall>b \<in> set hl. b < sz \<and> \<not> (unat st \<le> unat b \<and> unat b \<le> unat st + length hl))"

lemma log_ok_iff:
  "log_ok s n \<longleftrightarrow> l_dev s = 1 \<and> n \<le> length (l_block s) \<and>
     log_geom (l_start s) (disksize s) (take n (l_block s))"
  by (auto simp: log_ok_def log_geom_def min_def)

lemma log_geom_Nil: "st < sz \<Longrightarrow> log_geom st sz []"
  by (simp add: log_geom_def word_less_nat_alt)

definition install_copies :: "u32 \<Rightarrow> (u32 \<Rightarrow> block) \<Rightarrow> u32 list \<Rightarrow> (u32 \<times> block) list" where
  "install_copies st E hl = map (\<lambda>t. (hl ! t, E (st + of_nat t + 1))) [0..<length hl]"

definition recover_writes :: "u32 \<Rightarrow> (u32 \<Rightarrow> block) \<Rightarrow> (u32 \<times> block) list" where
  "recover_writes st E = install_copies st E (head_list (E st)) @ [(st, wr32 (E st) 0 0)]"

lemma head_block_0: "head_block 0 bs h = wr32 h 0 0"
  by (simp add: head_block_def)

lemma fst_install_copies [simp]: "map fst (install_copies st E hl) = hl"
  by (rule nth_equalityI) (simp_all add: install_copies_def)

lemma fst_set_install: "fst ` set (install_copies st E hl) = set hl"
  using arg_cong [OF fst_install_copies, of set st E hl] by (simp del: fst_install_copies)

lemma recover_bst:
  fixes b :: "'a log_scheme"
  assumes "l_dev b = 1" and bst: "bst b E E H {} {}"
    and n: "0 \<le> head_n (E (l_start b))" "head_n (E (l_start b)) \<le> LOGSIZE"
    and geom: "log_geom (l_start b) (disksize b) (head_list (E (l_start b)))"
  shows "\<exists>b'. recover_from_log b = Inr ((), b') \<and>
    (let W = recover_writes (l_start b) E in
     bst b' (apply_writes W E) (apply_writes W E) (H @ W) {} {})"
proof -
  let ?st = "l_start b" and ?h = "E (l_start b)"
  let ?hl = "head_list ?h" and ?n = "nat (head_n ?h)"
  have len: "length ?hl = ?n" by (simp add: head_list_def)
  have st: "?st < disksize b" using geom by (simp add: log_geom_def word_less_nat_alt)
  obtain s1 s'' where 1: "read_head b = Inr ((), s1)" "bst s1 E E H {} {}" "bio_frame b s''"
      "s1 = s''\<lparr>l_n := head_n ?h, l_block := ?hl @ drop ?n (l_block b)\<rparr>"
    using read_head_bst [OF assms(1) st bst refl n(2)] by blast
  have f: "l_start s1 = ?st" "l_dev s1 = 1" "disksize s1 = disksize b" "l_n s1 = head_n ?h"
      "take ?n (l_block s1) = ?hl" "?n \<le> length (l_block s1)"
    using 1(4) log_frame [OF 1(3)] assms(1) len by simp_all
  have ok: "log_ok s1 ?n" using geom f by (simp add: log_ok_iff)
  have hw: "home_writes s1 E [0..<?n] = install_copies ?st E ?hl"
    using f len by (auto simp: home_writes_def install_copies_def logblk_def
      intro!: nth_equalityI) (metis nth_take)
  let ?W = "install_copies ?st E ?hl"
  obtain s2 where 2: "install_trans s1 = Inr ((), s2)" "bio_frame s1 s2"
      "bst s2 (apply_writes ?W E) (apply_writes ?W E) (H @ ?W) {} {}"
    using install_trans_loop_bst [OF ok _ _ 1(2), of "[0..<?n]"] f(4) hw
    by (auto simp: install_trans_def NBUF_def)
  let ?s2 = "s2\<lparr>l_n := 0\<rparr>"
  have g: "l_start ?s2 = ?st" "l_dev ?s2 = 1" "disksize ?s2 = disksize b"
    using log_frame [OF 2(2)] f by simp_all
  have ok2: "log_ok ?s2 0" using g st by (simp add: log_ok_iff log_geom_Nil)
  have b2: "bst ?s2 (apply_writes ?W E) (apply_writes ?W E) (H @ ?W) {} {}" using 2(3) by simp
  have "?st \<notin> fst ` set ?W"
    unfolding fst_set_install using geom by (auto simp: log_geom_def)
  then have e: "apply_writes ?W E ?st = ?h" by (rule apply_writes_other)
  obtain s3 where 3: "write_head ?s2 = Inr ((), s3)"
      "bst s3 ((apply_writes ?W E)(?st := wr32 ?h 0 0)) ((apply_writes ?W E)(?st := wr32 ?h 0 0))
        ((H @ ?W) @ [(?st, wr32 ?h 0 0)]) {} {}"
    using write_head_bst [OF ok2 b2] g e by (auto simp: Let_def head_block_0 NBUF_def)
  show ?thesis
    using 1(1) 2(1) 3 by (intro exI [of _ s3]) (simp add: recover_from_log_def recover_writes_def Let_def)
qed

section \<open>Commit\<close>

text \<open>The state in which \<open>commit\<close> is called: the blocks of the transaction are those the in-memory
  header lists and the only dirty ones, no buffer is locked, and the log on disk is empty.\<close>

definition log_ready :: "'a log_scheme \<Rightarrow> bool" where
  "log_ready s \<longleftrightarrow> bio_inv s \<and> bio_idle s \<and> held_blocks s = {} \<and>
     dirty_blocks s = set (take (nat (l_n s)) (l_block s)) \<and> 0 \<le> l_n s \<and> l_n s < int NBUF \<and>
     log_ok s (nat (l_n s)) \<and> head_n (disk s (l_start s)) = 0"

definition commit_writes :: "'a log_scheme \<Rightarrow> (u32 \<times> block) list" where
  "commit_writes s =
     (let n = nat (l_n s); V = view s; st = l_start s;
          h = head_block (l_n s) (l_block s) (V st)
      in if n = 0 then []
         else log_writes s V [0..<n] @ (st, h) # map (\<lambda>t. (l_block s ! t, V (l_block s ! t))) [0..<n] @
              [(st, wr32 h 0 0)])"

lemma log_writes_fst: "map fst (log_writes s V ts) = map (logblk s) ts"
  by (simp add: log_writes_def o_def)

lemma fst_set_log_writes: "fst ` set (log_writes s V ts) = logblk s ` set ts"
  by (simp add: log_writes_def image_image)

lemma logblk_after_writes:
  assumes "log_ok s n" and "t < n"
  shows "apply_writes (log_writes s V [0..<n]) D (logblk s t) = V (l_block s ! t)"
proof (rule apply_writes_in)
  show "distinct (map fst (log_writes s V [0..<n]))"
    using logblk_eq [OF assms(1)] by (simp add: log_writes_fst distinct_map inj_on_def)
  show "(logblk s t, V (l_block s ! t)) \<in> set (log_writes s V [0..<n])"
    using assms(2) by (auto simp: log_writes_def)
qed

lemma log_writes_elsewhere:
  "m \<notin> logblk s ` set ts \<Longrightarrow> apply_writes (log_writes s V ts) D m = D m"
  by (rule apply_writes_other) (simp add: fst_set_log_writes)

lemma l_n_same: "l_n s = n \<Longrightarrow> s\<lparr>l_n := n\<rparr> = s"
  by auto

lemma bio_frame_l_n:
  assumes "bio_frame s s'"
  shows "bio_frame (s\<lparr>l_n := n\<rparr>) (s'\<lparr>l_n := n\<rparr>)"
proof -
  obtain T B D H where "s' = s\<lparr>ptable := T, bufs := B, disk := D, dhist := H\<rparr>" "woken (ptable s) T"
    using assms unfolding bio_frame_def by blast
  then show ?thesis unfolding bio_frame_def
    by (intro exI [of _ T] exI [of _ B] exI [of _ D] exI [of _ H]) simp
qed

lemma commit_bst:
  assumes R: "log_ready s"
  shows "\<exists>s'. commit s = Inr ((), s') \<and>
    bst s' (apply_writes (commit_writes s) (view s)) (apply_writes (commit_writes s) (disk s))
      (dhist s @ commit_writes s) {} {} \<and> bio_frame (s\<lparr>l_n := 0\<rparr>) s'"
proof (cases "l_n s = 0")
  case True
  have "bio_frame (s\<lparr>l_n := 0\<rparr>) s" using True by (simp add: l_n_same)
  with True R show ?thesis by (simp add: commit_def commit_writes_def bst_def log_ready_def)
next
  case False
  let ?n = "nat (l_n s)" and ?V = "view s" and ?D = "disk s" and ?st = "l_start s"
  let ?h = "head_block (l_n s) (l_block s) (?V ?st)"
  let ?LW = "log_writes s ?V [0..<?n]"
  let ?HW = "map (\<lambda>t. (l_block s ! t, ?V (l_block s ! t))) [0..<?n]"
  let ?ds = "set (take ?n (l_block s))"
  have ok: "log_ok s ?n" and n: "0 < l_n s" "l_n s < int NBUF"
    using R False by (auto simp: log_ready_def)
  have b: "bst s ?V ?D (dhist s) {} ?ds" using R by (simp add: bst_def log_ready_def)
  have cd: "card ?ds < NBUF"
    using n card_length [of "take ?n (l_block s)"] by auto
  have lb: "logblk s t \<notin> ?ds" if "t < ?n" for t using home_ok(3) [OF ok _ that] by blast
  have sd: "?st \<notin> ?ds" using home_ok(2) [OF ok] by blast
  have nl: "m \<notin> logblk s ` set [0..<?n]" if "m \<in> insert ?st ?ds" for m
    using that lb logblk_start [OF ok] by auto
  obtain s1 where 1: "write_log s = Inr ((), s1)" "bio_frame s s1"
      "bst s1 (apply_writes ?LW ?V) (apply_writes ?LW ?D) (dhist s @ ?LW) {} ?ds"
    using write_log_loop_bst [OF ok _ b cd subset_refl lb, of "[0..<?n]"]
    by (auto simp: write_log_def)
  have ok1: "log_ok s1 ?n" using ok by (simp add: log_ok_frame [OF 1(2)])
  have e1: "apply_writes ?LW ?V ?st = ?V ?st" by (rule log_writes_elsewhere) (rule nl, simp)
  let ?V2 = "(apply_writes ?LW ?V)(?st := ?h)" and ?D2 = "(apply_writes ?LW ?D)(?st := ?h)"
  obtain s2 where 2: "write_head s1 = Inr ((), s2)" "bio_frame s1 s2"
      "bst s2 ?V2 ?D2 ((dhist s @ ?LW) @ [(?st, ?h)]) {} ?ds"
    using write_head_bst [OF ok1 1(3) cd] sd e1 by (auto simp: log_frame [OF 1(2)] Let_def)
  note f2 = bio_frame_trans [OF 1(2) 2(2)]
  have ok2: "log_ok s2 ?n" using ok by (simp add: log_ok_frame [OF f2])
  have v2: "?V2 (logblk s t) = ?V (l_block s ! t)" "?D2 (logblk s t) = ?V (l_block s ! t)"
    if "t < ?n" for t
    using that logblk_after_writes [OF ok that] logblk_start [OF ok that] by simp_all
  have hw: "home_writes s2 ?V2 [0..<?n] = ?HW"
    unfolding home_writes_def log_frame [OF f2] log_ok_frame [OF f2] using v2 by auto
  have im: "(\<lambda>t. l_block s ! t) ` {0..<?n} = ?ds"
    using ok nth_image [of ?n "l_block s"] by (simp add: log_ok_def)
  obtain s3 where 3: "install_trans s2 = Inr ((), s3)" "bio_frame s2 s3"
      "bst s3 (apply_writes ?HW ?V2) (apply_writes ?HW ?D2)
        (((dhist s @ ?LW) @ [(?st, ?h)]) @ ?HW) {} {}"
  proof -
    have "\<exists>s'. install_trans_loop [0..<?n] s2 = Inr ((), s') \<and> bio_frame s2 s' \<and>
      bst s' (apply_writes ?HW ?V2) (apply_writes ?HW ?D2)
        (((dhist s @ ?LW) @ [(?st, ?h)]) @ ?HW) {} (?ds - (\<lambda>t. l_block s2 ! t) ` set [0..<?n])"
      unfolding hw [symmetric]
      by (rule install_trans_loop_bst [OF ok2 _ _ 2(3) cd])
         (use v2 im in \<open>auto simp: log_frame [OF f2] log_ok_frame [OF f2]\<close>)
    then show ?thesis using that im by (auto simp: install_trans_def log_frame [OF f2])
  qed
  note f3 = bio_frame_trans [OF f2 3(2)]
  let ?s3 = "s3\<lparr>l_n := 0\<rparr>"
  have ok3: "log_ok ?s3 0"
    using ok start_less [OF ok] by (simp add: log_ok_iff log_frame [OF f3] log_geom_Nil)
  have b3: "bst ?s3 (apply_writes ?HW ?V2) (apply_writes ?HW ?D2)
      (((dhist s @ ?LW) @ [(?st, ?h)]) @ ?HW) {} {}" using 3(3) by simp
  have "?st \<notin> fst ` set ?HW" using sd im by auto
  then have e3: "apply_writes ?HW ?V2 ?st = ?h" by (simp add: apply_writes_other)
  obtain s4 where 4: "write_head ?s3 = Inr ((), s4)" "bio_frame ?s3 s4"
      "bst s4 ((apply_writes ?HW ?V2)(?st := wr32 ?h 0 0)) ((apply_writes ?HW ?D2)(?st := wr32 ?h 0 0))
        ((((dhist s @ ?LW) @ [(?st, ?h)]) @ ?HW) @ [(?st, wr32 ?h 0 0)]) {} {}"
    using write_head_bst [OF ok3 b3] e3
    by (auto simp: Let_def head_block_0 NBUF_def log_frame [OF f3])
  have "commit s = Inr ((), s4)" using n 1(1) 2(1) 3(1) 4(1) by (simp add: commit_def)
  moreover have "commit_writes s = ?LW @ (?st, ?h) # ?HW @ [(?st, wr32 ?h 0 0)]"
    using n by (simp add: commit_writes_def Let_def)
  moreover have "bio_frame (s\<lparr>l_n := 0\<rparr>) s4"
    using bio_frame_trans [OF bio_frame_l_n [OF f3] 4(2)] .
  ultimately show ?thesis using 4(3) by (intro exI [of _ s4]) simp
qed

section \<open>Crashes\<close>

text \<open>The blocks of the log itself: the header and the copies of an \<open>n\<close>-block transaction.\<close>

definition in_log :: "u32 \<Rightarrow> nat \<Rightarrow> u32 \<Rightarrow> bool" where
  "in_log st n m \<longleftrightarrow> unat st \<le> unat m \<and> unat m \<le> unat st + n"

lemma in_log_logblk: "log_ok s n \<Longrightarrow> t < n \<Longrightarrow> in_log (l_start s) n (logblk s t)"
  using logblk_unat [of s n t] by (simp add: in_log_def)

lemma in_log_start: "in_log st n st"
  by (simp add: in_log_def)

lemma home_not_in_log: "log_ok s n \<Longrightarrow> b \<in> set (take n (l_block s)) \<Longrightarrow> \<not> in_log (l_start s) n b"
  by (auto simp: log_ok_def in_log_def)

text \<open>A disk with an empty log recovers to itself.\<close>

lemma recover_empty:
  assumes "head_n (E st) = 0"
  shows "head_list (E st) = []" "m \<noteq> st \<Longrightarrow> apply_writes (recover_writes st E) E m = E m"
  using assms by (simp_all add: head_list_def recover_writes_def install_copies_def)

text \<open>A disk with a committed transaction recovers to its new contents.\<close>

lemma recover_committed:
  assumes ok: "log_ok s n" and n: "n \<le> nat LOGSIZE"
    and st: "E (l_start s) = head_block (int n) (l_block s) h0"
    and copies: "\<And>t. t < n \<Longrightarrow> E (logblk s t) = V (l_block s ! t)"
    and rest: "\<And>m. m \<notin> set (take n (l_block s)) \<Longrightarrow> \<not> in_log (l_start s) n m \<Longrightarrow> E m = V m"
    and m: "\<not> in_log (l_start s) n m"
  shows "head_list (E (l_start s)) = take n (l_block s)" "head_n (E (l_start s)) = int n"
    "apply_writes (recover_writes (l_start s) E) E m = V m"
proof -
  let ?st = "l_start s" and ?hl = "take n (l_block s)"
  have ln: "n \<le> length (l_block s)" using ok by (simp add: log_ok_def)
  have "int n \<le> LOGSIZE" using n by (simp add: LOGSIZE_def MAXOPBLOCKS_def)
  then show hl: "head_list (E ?st) = ?hl" "head_n (E ?st) = int n"
    using head_block_list [of "int n" "l_block s" h0] ln st by simp_all
  have "m \<noteq> ?st" using m in_log_start by auto
  then have "apply_writes (recover_writes ?st E) E m = apply_writes (install_copies ?st E ?hl) E m"
    by (simp add: recover_writes_def hl)
  also have "\<dots> = V m"
  proof (cases "m \<in> set ?hl")
    case True
    then obtain t where t: "t < n" "m = l_block s ! t" using ln by (auto simp: in_set_conv_nth)
    have "(m, V m) \<in> set (install_copies ?st E ?hl)"
      using t ln copies [OF t(1)] by (auto simp: install_copies_def logblk_def intro!: image_eqI [of _ _ t])
    moreover have "distinct (map fst (install_copies ?st E ?hl))" using ok by (simp add: log_ok_def)
    ultimately show ?thesis by (intro apply_writes_in)
  next
    case False
    then have "m \<notin> fst ` set (install_copies ?st E ?hl)" by (simp add: fst_set_install)
    then show ?thesis using rest [OF False m] by (simp add: apply_writes_other)
  qed
  finally show "apply_writes (recover_writes ?st E) E m = V m" .
qed

text \<open>The disk after the first \<open>k\<close> writes of a commit: nothing committed yet, or committed, or
  already erased.\<close>

definition uncommitted :: "'a log_scheme \<Rightarrow> (u32 \<Rightarrow> block) \<Rightarrow> bool" where
  "uncommitted s E \<longleftrightarrow> head_n (E (l_start s)) = 0 \<and>
     (\<forall>m. \<not> in_log (l_start s) (nat (l_n s)) m \<longrightarrow> E m = disk s m)"

definition committed :: "'a log_scheme \<Rightarrow> (u32 \<Rightarrow> block) \<Rightarrow> bool" where
  "committed s E \<longleftrightarrow> E (l_start s) = head_block (l_n s) (l_block s) (view s (l_start s)) \<and>
     (\<forall>t < nat (l_n s). E (logblk s t) = view s (l_block s ! t)) \<and>
     (\<forall>m. m \<notin> set (take (nat (l_n s)) (l_block s)) \<longrightarrow> \<not> in_log (l_start s) (nat (l_n s)) m \<longrightarrow>
        E m = view s m)"

definition erased :: "'a log_scheme \<Rightarrow> (u32 \<Rightarrow> block) \<Rightarrow> bool" where
  "erased s E \<longleftrightarrow> head_n (E (l_start s)) = 0 \<and>
     (\<forall>m. \<not> in_log (l_start s) (nat (l_n s)) m \<longrightarrow> E m = view s m)"

lemma fst_take_subset: "fst ` set (take k W) \<subseteq> fst ` set W"
  by (intro image_mono set_take_subset)

lemma uncommitted_prefix:
  assumes R: "log_ready s"
  shows "uncommitted s (apply_writes (take k (log_writes s V [0..<nat (l_n s)])) (disk s))"
proof -
  let ?n = "nat (l_n s)" let ?W = "take k (log_writes s V [0..<?n])"
  have ok: "log_ok s ?n" using R by (simp add: log_ready_def)
  have sub: "fst ` set ?W \<subseteq> logblk s ` {0..<?n}"
    using fst_take_subset [of k "log_writes s V [0..<?n]"] by (simp add: fst_set_log_writes)
  have e: "apply_writes ?W (disk s) m = disk s m" if "m \<notin> logblk s ` {0..<?n}" for m
    using that sub by (intro apply_writes_other) blast
  have "l_start s \<notin> logblk s ` {0..<?n}" using logblk_start [OF ok]
    by (metis atLeastLessThan_iff imageE)
  moreover have "m \<notin> logblk s ` {0..<?n}" if "\<not> in_log (l_start s) ?n m" for m
    using that in_log_logblk [OF ok] by auto
  ultimately show ?thesis using R e by (simp add: uncommitted_def log_ready_def)
qed

lemma committed_prefix:
  assumes R: "log_ready s" and "0 < l_n s"
  shows "committed s (apply_writes (take k (map (\<lambda>t. (l_block s ! t, view s (l_block s ! t))) [0..<nat (l_n s)]))
    ((apply_writes (log_writes s (view s) [0..<nat (l_n s)]) (disk s))
       (l_start s := head_block (l_n s) (l_block s) (view s (l_start s)))))"
    (is "committed s (apply_writes ?HW ?E)")
proof -
  let ?n = "nat (l_n s)" and ?st = "l_start s"
  have ok: "log_ok s ?n" and I: "bio_inv s" using R by (simp_all add: log_ready_def)
  have im: "(\<lambda>t. l_block s ! t) ` {0..<?n} = set (take ?n (l_block s))"
    using ok nth_image [of ?n "l_block s"] by (simp add: log_ok_def)
  have sub: "fst ` set ?HW \<subseteq> set (take ?n (l_block s))"
    using fst_take_subset [of k "map (\<lambda>t. (l_block s ! t, view s (l_block s ! t))) [0..<?n]"] im
    by (simp add: image_image)
  have e: "apply_writes ?HW ?E m = ?E m" if "m \<notin> set (take ?n (l_block s))" for m
    using that sub by (intro apply_writes_other) blast
  have "?st \<notin> set (take ?n (l_block s))" using home_ok(2) [OF ok] by blast
  then have 1: "apply_writes ?HW ?E ?st = head_block (l_n s) (l_block s) (view s ?st)" by (simp add: e)
  have 2: "apply_writes ?HW ?E (logblk s t) = view s (l_block s ! t)" if "t < ?n" for t
  proof -
    have "logblk s t \<notin> set (take ?n (l_block s))" using home_ok(3) [OF ok _ that] by blast
    then show ?thesis
      using logblk_start [OF ok that] logblk_after_writes [OF ok that] by (simp add: e)
  qed
  have 3: "apply_writes ?HW ?E m = view s m"
    if m: "m \<notin> set (take ?n (l_block s))" "\<not> in_log ?st ?n m" for m
  proof -
    have "m \<notin> logblk s ` set [0..<?n]" "m \<noteq> ?st"
      using m in_log_logblk [OF ok] in_log_start by auto
    then have "apply_writes ?HW ?E m = disk s m" using e [OF m(1)] by (simp add: log_writes_elsewhere)
    also have "\<dots> = view s m" using view_disk [OF I] R m(1) by (simp add: log_ready_def)
    finally show ?thesis .
  qed
  show ?thesis using 1 2 3 by (simp add: committed_def)
qed

lemma erased_all:
  assumes R: "log_ready s" and n: "0 < l_n s"
  shows "erased s (apply_writes (commit_writes s) (disk s))"
proof -
  let ?n = "nat (l_n s)" and ?st = "l_start s" and ?V = "view s"
  let ?h = "head_block (l_n s) (l_block s) (?V ?st)"
  let ?HW = "map (\<lambda>t. (l_block s ! t, ?V (l_block s ! t))) [0..<?n]"
  let ?E = "(apply_writes (log_writes s ?V [0..<?n]) (disk s))(?st := ?h)"
  have ok: "log_ok s ?n" using R by (simp add: log_ready_def)
  have im: "(\<lambda>t. l_block s ! t) ` {0..<?n} = set (take ?n (l_block s))"
    using ok nth_image [of ?n "l_block s"] by (simp add: log_ok_def)
  have c: "committed s (apply_writes ?HW ?E)"
    using committed_prefix [OF R n, of "length ?HW"] by simp
  have d: "distinct (map fst ?HW)"
    using home_distinct [OF ok] by (simp add: o_def distinct_map inj_on_def)
  have e: "apply_writes (commit_writes s) (disk s) = (apply_writes ?HW ?E)(?st := wr32 ?h 0 0)"
    using n by (simp add: commit_writes_def Let_def)
  have "apply_writes ?HW ?E m = ?V m" if "\<not> in_log ?st ?n m" for m
  proof (cases "m \<in> set (take ?n (l_block s))")
    case True
    then have "(m, ?V m) \<in> set ?HW" using im by auto
    then show ?thesis by (rule apply_writes_in [OF d])
  next
    case False
    then show ?thesis using c that by (simp add: committed_def)
  qed
  then show ?thesis
    using in_log_start [of ?st ?n] by (auto simp: erased_def e head_n_def)
qed

lemma commit_prefix_cases:
  assumes R: "log_ready s" and n: "0 < l_n s"
  shows "if k \<le> nat (l_n s) then uncommitted s (apply_writes (take k (commit_writes s)) (disk s))
         else committed s (apply_writes (take k (commit_writes s)) (disk s)) \<or>
              erased s (apply_writes (take k (commit_writes s)) (disk s))"
proof -
  let ?n = "nat (l_n s)" and ?V = "view s"
  let ?LW = "log_writes s ?V [0..<?n]"
  let ?h = "(l_start s, head_block (l_n s) (l_block s) (?V (l_start s)))"
  let ?HW = "map (\<lambda>t. (l_block s ! t, ?V (l_block s ! t))) [0..<?n]"
  have w: "commit_writes s = ?LW @ ?h # ?HW @ [(l_start s, wr32 (snd ?h) 0 0)]"
    using n by (simp add: commit_writes_def Let_def)
  have l: "length ?LW = ?n" "length ?HW = ?n" by (simp_all add: log_writes_def)
  consider "k \<le> ?n" | "?n < k" "k \<le> ?n + Suc ?n" | "?n + Suc ?n < k" by linarith
  then show ?thesis
  proof cases
    case 1
    then show ?thesis using uncommitted_prefix [OF R, of k ?V] l by (simp add: w)
  next
    case 2
    then have "take k (commit_writes s) = ?LW @ ?h # take (k - Suc ?n) ?HW"
      unfolding w using l by (simp add: take_Cons')
    then show ?thesis using committed_prefix [OF R n, of "k - Suc ?n"] 2 by simp
  next
    case 3
    then have "take k (commit_writes s) = commit_writes s" unfolding w using l by simp
    then show ?thesis using erased_all [OF R n] 3 by simp
  qed
qed

text \<open>A machine that has booted with the disk \<open>E\<close>: the cache is empty and the log's position is
  known.\<close>

definition booted :: "'a log_scheme \<Rightarrow> (u32 \<Rightarrow> block) \<Rightarrow> u32 \<Rightarrow> u32 \<Rightarrow> bool" where
  "booted b E st sz \<longleftrightarrow> bst b E E (dhist b) {} {} \<and> l_dev b = 1 \<and> l_start b = st \<and> disksize b = sz"

definition recovers_to :: "'a log_scheme \<Rightarrow> (u32 \<Rightarrow> bool) \<Rightarrow> (u32 \<Rightarrow> block) \<Rightarrow> bool" where
  "recovers_to b P N \<longleftrightarrow> (\<exists>b'. recover_from_log b = Inr ((), b') \<and> bio_inv b' \<and>
     dirty_blocks b' = {} \<and> held_blocks b' = {} \<and> (\<forall>m. P m \<longrightarrow> disk b' m = N m \<and> view b' m = N m))"

lemma recovers_toI:
  assumes "booted b E st sz" and "0 \<le> head_n (E st)" "head_n (E st) \<le> LOGSIZE"
    and "log_geom st sz (head_list (E st))"
    and "\<And>m. P m \<Longrightarrow> apply_writes (recover_writes st E) E m = N m"
  shows "recovers_to b P N"
  using recover_bst [of b E "dhist b"] assms by (auto simp: booted_def recovers_to_def Let_def bst_def)

lemma recovers_empty_log:
  assumes "log_ready s" and B: "booted b E (l_start s) (disksize s)" and h: "head_n (E (l_start s)) = 0"
    and N: "\<And>m. \<not> in_log (l_start s) (nat (l_n s)) m \<Longrightarrow> E m = N m"
  shows "recovers_to b (\<lambda>m. \<not> in_log (l_start s) (nat (l_n s)) m) N"
proof (rule recovers_toI [OF B])
  have "l_start s < disksize s" using assms(1) start_less by (auto simp: log_ready_def)
  then show "0 \<le> head_n (E (l_start s))" "head_n (E (l_start s)) \<le> LOGSIZE"
    "log_geom (l_start s) (disksize s) (head_list (E (l_start s)))"
    using h recover_empty(1) [of E "l_start s"]
    by (simp_all add: log_geom_Nil LOGSIZE_def MAXOPBLOCKS_def)
  fix m assume m: "\<not> in_log (l_start s) (nat (l_n s)) m"
  then have "m \<noteq> l_start s" using in_log_start by auto
  with m recover_empty(2) [of E "l_start s" m] h N
  show "apply_writes (recover_writes (l_start s) E) E m = N m" by simp
qed

lemma recovers_committed:
  assumes R: "log_ready s" and C: "committed s E" and B: "booted b E (l_start s) (disksize s)"
  shows "recovers_to b (\<lambda>m. \<not> in_log (l_start s) (nat (l_n s)) m) (view s)"
proof (rule recovers_toI [OF B])
  let ?n = "nat (l_n s)" and ?st = "l_start s"
  have ok: "log_ok s ?n" and n: "0 \<le> l_n s" "?n \<le> nat LOGSIZE" "l_n s \<le> LOGSIZE"
    using R by (auto simp: log_ready_def LOGSIZE_def MAXOPBLOCKS_def NBUF_def)
  have E: "E ?st = head_block (int ?n) (l_block s) (view s ?st)" using C n by (simp add: committed_def)
  have g: "log_geom ?st (disksize s) (take ?n (l_block s))" using ok by (simp add: log_ok_iff)
  have hl: "head_list (E ?st) = take ?n (l_block s)" "head_n (E ?st) = l_n s"
    using head_block_list [of "l_n s" "l_block s" "view s ?st"] C ok n
    by (simp_all add: log_ok_def committed_def)
  show "0 \<le> head_n (E ?st)" "head_n (E ?st) \<le> LOGSIZE" "log_geom ?st (disksize s) (head_list (E ?st))"
    using hl g n by simp_all
  fix m assume "\<not> in_log ?st ?n m"
  then show "apply_writes (recover_writes ?st E) E m = view s m"
    using recover_committed(3) [of s ?n E "view s ?st" "view s" m, OF ok n(2) E] C
    by (simp add: committed_def)
qed


text \<open>C1. Crash safety of the log.  From a state that is ready to commit, \<open>commit\<close> returns and makes
  the disk hold, outside the log, the blocks as the callers see them.  If the machine stops
  after any number \<open>k\<close> of the block writes that \<open>commit\<close> makes, then \<open>recover_from_log\<close> on a
  machine that boots with the disk of that moment returns and leaves the old contents of every
  block (before the header is written) or the new contents of every block (from then on):
  a transaction is never torn.\<close>

theorem commit_crash_safe:
  assumes R: "log_ready s"
  shows "\<exists>s' W. commit s = Inr ((), s') \<and> dhist s' = dhist s @ W \<and> l_n s' = 0 \<and>
    (\<forall>m. \<not> in_log (l_start s) (nat (l_n s)) m \<longrightarrow> disk s' m = view s m \<and> view s' m = view s m) \<and>
    (\<forall>k (b :: 'b log_scheme). booted b (apply_writes (take k W) (disk s)) (l_start s) (disksize s) \<longrightarrow>
       recovers_to b (\<lambda>m. \<not> in_log (l_start s) (nat (l_n s)) m)
         (if k \<le> nat (l_n s) then disk s else view s))"
proof (cases "l_n s = 0")
  case True
  have v: "view s = disk s" using view_disk [of s] R True by (auto simp: log_ready_def)
  have h: "head_n (disk s (l_start s)) = 0" using R by (simp add: log_ready_def)
  have "recovers_to b (\<lambda>m. \<not> in_log (l_start s) (nat (l_n s)) m) (disk s)"
    if "booted b (disk s) (l_start s) (disksize s)" for b :: "'b log_scheme"
    by (rule recovers_empty_log [OF R that h]) simp
  then show ?thesis
    using True v by (intro exI [of _ s] exI [of _ "[]"]) (simp add: commit_def)
next
  case False
  then have n: "0 < l_n s" using R by (simp add: log_ready_def)
  obtain s' where c: "commit s = Inr ((), s')" "bio_frame (s\<lparr>l_n := 0\<rparr>) s'"
      "bst s' (apply_writes (commit_writes s) (view s)) (apply_writes (commit_writes s) (disk s))
        (dhist s @ commit_writes s) {} {}"
    using commit_bst [OF R] by blast
  have b': "bio_inv s'" "held_blocks s' = {}" "dirty_blocks s' = {}" "dhist s' = dhist s @ commit_writes s"
      "disk s' = apply_writes (commit_writes s) (disk s)"
    using c(3) by (simp_all add: bst_def)
  have e: "disk s' m = view s m \<and> view s' m = view s m" if "\<not> in_log (l_start s) (nat (l_n s)) m" for m
    using erased_all [OF R n] that b' view_disk [of s' m] by (simp add: erased_def)
  have "recovers_to b (\<lambda>m. \<not> in_log (l_start s) (nat (l_n s)) m)
      (if k \<le> nat (l_n s) then disk s else view s)"
    if "booted b (apply_writes (take k (commit_writes s)) (disk s)) (l_start s) (disksize s)"
    for k and b :: "'b log_scheme"
    using commit_prefix_cases [OF R n, of k] recovers_empty_log [OF R that]
      recovers_committed [OF R _ that]
    by (auto simp: uncommitted_def erased_def split: if_splits)
  moreover have "l_n s' = 0" using log_frame(6) [OF c(2)] by simp
  ultimately show ?thesis using c(1) b' e by blast
qed

text \<open>C2. Recovery survives crashes of its own: if the machine stops after any number of the writes
  that \<open>recover_from_log\<close> makes on a disk with a well-formed log header, running it again from
  the disk of that moment ends with the same contents of every block but the header.\<close>

theorem recovery_idempotent:
  fixes b :: "'a log_scheme"
  assumes B: "booted b E st sz" and n: "0 \<le> head_n (E st)" "head_n (E st) \<le> LOGSIZE"
    and g: "log_geom st sz (head_list (E st))"
  shows "\<exists>b' W. recover_from_log b = Inr ((), b') \<and> dhist b' = dhist b @ W \<and>
    head_n (disk b' st) = 0 \<and>
    (\<forall>k (c :: 'b log_scheme). booted c (apply_writes (take k W) E) st sz \<longrightarrow>
       recovers_to c (\<lambda>m. m \<noteq> st) (disk b'))"
proof -
  let ?hl = "head_list (E st)" and ?W = "recover_writes st E"
  let ?C = "install_copies st E ?hl"
  let ?N = "apply_writes ?W E"
  obtain b' where b': "recover_from_log b = Inr ((), b')" "bst b' ?N ?N (dhist b @ ?W) {} {}"
    using recover_bst [of b E "dhist b"] B n g by (auto simp: booted_def Let_def)
  have st: "st \<notin> set ?hl" using g by (auto simp: log_geom_def)
  have sz: "st < sz" using g by (auto simp: log_geom_def word_less_nat_alt)
  have lb: "st + of_nat t + 1 \<notin> set ?hl" if "t < length ?hl" for t
  proof -
    have "unat st + Suc t < 2 ^ 32"
      using g that unsigned_less [where ?'a = nat, of sz] by (simp add: log_geom_def)
    then have "unat (st + of_nat t + 1) = unat st + Suc t"
      using unat_plus_nat [of st "Suc t"] by (simp add: algebra_simps)
    then show ?thesis using g that by (auto simp: log_geom_def)
  qed
  have "recovers_to c (\<lambda>m. m \<noteq> st) ?N"
    if c: "booted c (apply_writes (take k ?W) E) st sz" for k and c :: "'b log_scheme"
  proof (cases "k \<le> length ?hl")
    case True
    define F where "F = apply_writes (take k ?W) E"
    have tk: "take k ?W = take k ?C" using True by (simp add: recover_writes_def install_copies_def)
    have F: "F m = E m" if "m \<notin> set ?hl" for m
      unfolding F_def tk using that fst_take_subset [of k ?C] fst_set_install [of st E ?hl]
      by (intro apply_writes_other) blast
    have Fst: "F st = E st" by (rule F [OF st])
    have "install_copies st F ?hl = ?C" using F lb by (simp add: install_copies_def)
    then have rw: "recover_writes st F = ?W" by (simp add: recover_writes_def Fst)
    have c': "booted c F st sz" using c by (simp add: F_def)
    show ?thesis
    proof (rule recovers_toI [OF c'])
      show "0 \<le> head_n (F st)" "head_n (F st) \<le> LOGSIZE" "log_geom st sz (head_list (F st))"
        using n g by (simp_all add: Fst)
      fix m assume m: "m \<noteq> st"
      show "apply_writes (recover_writes st F) F m = ?N m"
      proof (cases "m \<in> set ?hl")
        case True
        then obtain x where "(m, x) \<in> set ?C" using fst_set_install [of st E ?hl] by force
        moreover have "distinct (map fst ?C)" using g by (simp add: log_geom_def)
        ultimately have "apply_writes ?C d m = x" for d by (intro apply_writes_in)
        then show ?thesis unfolding rw using m by (simp add: recover_writes_def)
      next
        case False
        then have "apply_writes ?C d m = d m" for d
          by (intro apply_writes_other) (simp add: fst_set_install)
        then show ?thesis unfolding rw using m F [OF False] by (simp add: recover_writes_def)
      qed
    qed
  next
    case False
    then have tk: "take k ?W = ?W" by (simp add: recover_writes_def install_copies_def)
    have h: "head_n (?N st) = 0" by (simp add: recover_writes_def head_n_def)
    show ?thesis
    proof (rule recovers_toI [OF c])
      show "0 \<le> head_n (apply_writes (take k ?W) E st)" "head_n (apply_writes (take k ?W) E st) \<le> LOGSIZE"
        "log_geom st sz (head_list (apply_writes (take k ?W) E st))"
        using h recover_empty(1) [of ?N st] sz
        by (simp_all add: tk log_geom_Nil LOGSIZE_def MAXOPBLOCKS_def)
      fix m assume "m \<noteq> st"
      then show "apply_writes (recover_writes st (apply_writes (take k ?W) E)) (apply_writes (take k ?W) E) m = ?N m"
        using recover_empty(2) [of ?N st m] h by (simp add: tk)
    qed
  qed
  moreover have "head_n (?N st) = 0" by (simp add: recover_writes_def head_n_def)
  ultimately show ?thesis using b' by (auto simp: bst_def)
qed

section \<open>Transactions\<close>

text \<open>The invariant of the log between operations of a transaction, with the blocks \<open>ds\<close> logged so
  far: the in-memory header lists exactly these, each once, all outside the log, they are the
  dirty buffers, and the log on disk is empty.\<close>

definition log_inv :: "'a log_scheme \<Rightarrow> bool" where
  "log_inv s \<longleftrightarrow> bio_inv s \<and> bio_idle s \<and> LogLock \<notin> klk s \<and> l_dev s = 1 \<and> \<not> l_committing s \<and>
     0 \<le> l_n s \<and> l_n s < int NBUF \<and> l_n s < l_size s \<and> length (l_block s) = nat LOGSIZE \<and>
     unat (l_start s) + nat (l_size s) \<le> unat (disksize s) \<and>
     distinct (take (nat (l_n s)) (l_block s)) \<and>
     (\<forall>b \<in> set (take (nat (l_n s)) (l_block s)).
        b < disksize s \<and> \<not> in_log (l_start s) (nat (l_size s) - 1) b) \<and>
     dirty_blocks s = set (take (nat (l_n s)) (l_block s)) \<and> head_n (disk s (l_start s)) = 0"

lemma log_inv_ready:
  assumes "log_inv s" and "held_blocks s = {}"
  shows "log_ready s"
proof -
  have "nat (l_n s) \<le> nat (l_size s) - 1" "nat (l_n s) < nat (l_size s)"
    using assms(1) by (auto simp: log_inv_def)
  with assms show ?thesis
    by (auto simp: log_ready_def log_inv_def log_ok_def in_log_def LOGSIZE_def MAXOPBLOCKS_def NBUF_def)
qed

lemma log_inv_bst: "log_inv s \<Longrightarrow> bst s (view s) (disk s) (dhist s) (held_blocks s) (dirty_blocks s)"
  by (simp add: log_inv_def bst_def)

lemma log_inv_frame:
  assumes "log_inv s" and "bio_frame s s'" and "bst s' V D H hs (dirty_blocks s)"
    and "D (l_start s) = disk s (l_start s)"
  shows "log_inv s'"
  using assms log_frame [OF assms(2)] bio_frame_simps [OF assms(2)]
  by (simp add: log_inv_def bst_def)

text \<open>\<open>log_write\<close>: the block of the caller's buffer joins the transaction; it is absorbed if it
  already belongs to it.\<close>

lemma log_slot_klk [simp]: "log_slot bn (s\<lparr>klk := K\<rparr>) = log_slot bn s"
  by (simp add: log_slot_def split: option.split)

lemma log_slot_cases:
  assumes "log_inv s"
  shows "if bn \<in> set (take (nat (l_n s)) (l_block s))
         then log_slot bn s < nat (l_n s) \<and> l_block s ! log_slot bn s = bn
         else log_slot bn s = nat (l_n s)"
proof (cases "first_index (\<lambda>x. x = bn) (take (nat (l_n s)) (l_block s))")
  case None
  then have "bn \<notin> set (take (nat (l_n s)) (l_block s))" by (auto simp: first_index_None_iff)
  then show ?thesis using None by (simp add: log_slot_def)
next
  case (Some i)
  from first_index_SomeD [OF Some] have "i < nat (l_n s)" "l_block s ! i = bn" "bn \<in> set (take (nat (l_n s)) (l_block s))"
    by (auto simp: in_set_conv_nth)
  then show ?thesis using Some by (simp add: log_slot_def)
qed

lemma log_write_spec:
  assumes L: "log_inv s" and o: "owns_buf s b n" and out: "\<not> in_log (l_start s) (nat (l_size s) - 1) n"
    and tx: "1 \<le> l_outstanding s" and room: "l_n s < l_size s - 1" "l_n s + 1 < int NBUF"
  shows "\<exists>s'. log_write b s = Inr ((), s') \<and> log_inv s' \<and> view s' = view s \<and> disk s' = disk s \<and>
    dhist s' = dhist s \<and> held_blocks s' = held_blocks s \<and> owns_buf s' = owns_buf s \<and>
    dirty_blocks s' = insert n (dirty_blocks s) \<and> l_outstanding s' = l_outstanding s \<and>
    l_size s' = l_size s \<and> l_start s' = l_start s \<and> disksize s' = disksize s \<and>
    l_n s' = int (card (dirty_blocks s'))"
proof -
  have I: "bio_inv s" and idle: "bio_idle s" "LogLock \<notin> klk s" using L by (simp_all add: log_inv_def)
  have bn: "b_blockno (bufs s ! b) = n" and bl: "b < length (bufs s)" and nd: "n < disksize s"
    using o I caches_ok [of s b n] by (auto simp: owns_buf_def caches_def buf_ok_def)
  let ?k = "nat (l_n s)" and ?i = "log_slot n s"
  let ?B = "(l_block s)[?i := n]" and ?m = "if int ?i = l_n s then l_n s + 1 else l_n s"
  let ?D = "set_buf b (\<lambda>x. x\<lparr>b_flags := b_flags x OR B_DIRTY\<rparr>)"
  define s' where "s' = ?D (s\<lparr>l_block := ?B, l_n := ?m\<rparr>)"
  have n0: "0 \<le> l_n s" and lb: "?k < length (l_block s)" and dist: "distinct (take ?k (l_block s))"
    and ds: "dirty_blocks s = set (take ?k (l_block s))"
    using L room by (auto simp: log_inv_def LOGSIZE_def MAXOPBLOCKS_def NBUF_def)
  have eq: "log_write b s = Inr ((), s')"
    using room tx idle bn
    by (simp add: log_write_def LOGSIZE_def MAXOPBLOCKS_def NBUF_def Let_def s'_def set_buf_def)
  note D = set_dirty_spec [OF I o]
  have t': "s' = (?D s)\<lparr>l_block := ?B, l_n := ?m\<rparr>" by (simp add: s'_def set_buf_def)
  have B: "bst s' (view s) (disk s) (dhist s) (held_blocks s) (insert n (dirty_blocks s))"
    using D idle unfolding t' by (simp add: bst_def)
  have S: "take (nat ?m) ?B = (if n \<in> set (take ?k (l_block s)) then take ?k (l_block s)
      else take ?k (l_block s) @ [n])"
  proof (cases "n \<in> set (take ?k (l_block s))")
    case True
    then have i: "?i < ?k" "l_block s ! ?i = n" using log_slot_cases [OF L, of n] by auto
    then have "?B = l_block s" using lb list_update_id [of "l_block s" ?i] by simp
    then show ?thesis using True i n0 by auto
  next
    case False
    then have "?i = ?k" using log_slot_cases [OF L, of n] by simp
    moreover have "nat (l_n s + 1) = Suc ?k" using n0 by simp
    ultimately show ?thesis using False n0 lb by (simp add: take_Suc_conv_app_nth)
  qed
  then have S1: "set (take (nat ?m) ?B) = insert n (dirty_blocks s)" "distinct (take (nat ?m) ?B)"
    using ds dist by auto
  have m: "0 \<le> ?m" "?m < int NBUF" "?m < l_size s" "nat ?m \<le> length ?B"
    using n0 room lb by auto
  have f: "l_block s' = ?B" "l_n s' = ?m" "l_size s' = l_size s" "l_start s' = l_start s" "l_dev s' = l_dev s"
     "l_outstanding s' = l_outstanding s" "disksize s' = disksize s" "klk s' = klk s" "l_committing s' = l_committing s"
    by (simp_all add: t' set_buf_def)
  have "log_inv s'"
    using L B S1 m f out nd idle unfolding log_inv_def bst_def ds [symmetric] f
    by (auto simp: bio_idle_def)
  moreover have "?m = int (card (insert n (dirty_blocks s)))"
    using distinct_card [OF S1(2)] S1(1) m by simp
  moreover have "owns_buf s' = owns_buf s" using D(5) unfolding t' by (simp add: fun_eq_iff)
  ultimately show ?thesis using eq B f by (intro exI [of _ s']) (simp add: bst_def)
qed

lemma bio_log_upd [simp]:
  "bio_inv (s\<lparr>l_start := a\<rparr>) = bio_inv s" "bio_inv (s\<lparr>l_size := z\<rparr>) = bio_inv s" "bio_inv (s\<lparr>l_outstanding := z\<rparr>) = bio_inv s" "bio_inv (s\<lparr>l_committing := c\<rparr>) = bio_inv s" "bio_inv (s\<lparr>l_dev := a\<rparr>) = bio_inv s" "bio_inv (s\<lparr>l_n := z\<rparr>) = bio_inv s" "bio_inv (s\<lparr>l_block := y\<rparr>) = bio_inv s"
  "bio_idle (s\<lparr>l_start := a\<rparr>) = bio_idle s" "bio_idle (s\<lparr>l_size := z\<rparr>) = bio_idle s" "bio_idle (s\<lparr>l_outstanding := z\<rparr>) = bio_idle s" "bio_idle (s\<lparr>l_committing := c\<rparr>) = bio_idle s" "bio_idle (s\<lparr>l_dev := a\<rparr>) = bio_idle s" "bio_idle (s\<lparr>l_n := z\<rparr>) = bio_idle s" "bio_idle (s\<lparr>l_block := y\<rparr>) = bio_idle s"
  "held_blocks (s\<lparr>l_start := a\<rparr>) = held_blocks s" "held_blocks (s\<lparr>l_size := z\<rparr>) = held_blocks s" "held_blocks (s\<lparr>l_outstanding := z\<rparr>) = held_blocks s" "held_blocks (s\<lparr>l_committing := c\<rparr>) = held_blocks s" "held_blocks (s\<lparr>l_dev := a\<rparr>) = held_blocks s" "held_blocks (s\<lparr>l_n := z\<rparr>) = held_blocks s" "held_blocks (s\<lparr>l_block := y\<rparr>) = held_blocks s"
  "dirty_blocks (s\<lparr>l_start := a\<rparr>) = dirty_blocks s" "dirty_blocks (s\<lparr>l_size := z\<rparr>) = dirty_blocks s" "dirty_blocks (s\<lparr>l_outstanding := z\<rparr>) = dirty_blocks s" "dirty_blocks (s\<lparr>l_committing := c\<rparr>) = dirty_blocks s" "dirty_blocks (s\<lparr>l_dev := a\<rparr>) = dirty_blocks s" "dirty_blocks (s\<lparr>l_n := z\<rparr>) = dirty_blocks s" "dirty_blocks (s\<lparr>l_block := y\<rparr>) = dirty_blocks s"
  "owns_buf (s\<lparr>l_start := a\<rparr>) = owns_buf s" "owns_buf (s\<lparr>l_size := z\<rparr>) = owns_buf s" "owns_buf (s\<lparr>l_outstanding := z\<rparr>) = owns_buf s" "owns_buf (s\<lparr>l_committing := c\<rparr>) = owns_buf s" "owns_buf (s\<lparr>l_dev := a\<rparr>) = owns_buf s" "owns_buf (s\<lparr>l_n := z\<rparr>) = owns_buf s" "owns_buf (s\<lparr>l_block := y\<rparr>) = owns_buf s"
  "view (s\<lparr>l_start := a\<rparr>) = view s" "view (s\<lparr>l_size := z\<rparr>) = view s" "view (s\<lparr>l_outstanding := z\<rparr>) = view s" "view (s\<lparr>l_committing := c\<rparr>) = view s" "view (s\<lparr>l_dev := a\<rparr>) = view s" "view (s\<lparr>l_n := z\<rparr>) = view s" "view (s\<lparr>l_block := y\<rparr>) = view s"
  by (simp_all add: fun_eq_iff bio_inv_def bio_idle_def caches_def view_def held_blocks_def
        dirty_blocks_def owns_buf_def split: option.split)

lemma cur_wakeup1 [simp]: "cur (wakeup1 c s) = cur s" "bio_idle (wakeup1 c t) = bio_idle t"
  by (simp_all add: wakeup1_def bio_idle_def)

lemma log_wakeup1 [simp]:
  "l_start (wakeup1 c s) = l_start s" "l_size (wakeup1 c s) = l_size s"
  "l_outstanding (wakeup1 c s) = l_outstanding s" "l_committing (wakeup1 c s) = l_committing s"
  "l_dev (wakeup1 c s) = l_dev s" "l_n (wakeup1 c s) = l_n s" "l_block (wakeup1 c s) = l_block s"
  by (simp_all add: wakeup1_def)

lemma log_ready_upd [simp]:
  "log_ready (s\<lparr>l_committing := c\<rparr>) = log_ready s" "log_ready (s\<lparr>l_outstanding := z\<rparr>) = log_ready s"
  by (simp_all add: log_ready_def log_ok_def)

lemma end_op_last:
  assumes L: "log_inv s" and h: "held_blocks s = {}" and o: "l_outstanding s = 1"
  shows "\<exists>s'. end_op s = Inr ((), s') \<and> log_inv s' \<and> l_n s' = 0 \<and> l_outstanding s' = 0 \<and>
    held_blocks s' = {} \<and> dirty_blocks s' = {} \<and>
    (\<forall>m. \<not> in_log (l_start s) (nat (l_n s)) m \<longrightarrow> disk s' m = view s m \<and> view s' m = view s m)"
proof -
  let ?s = "s\<lparr>l_outstanding := 0, l_committing := True\<rparr>"
  have R: "log_ready ?s" using log_inv_ready [OF L h] by simp
  obtain s1 where c: "commit ?s = Inr ((), s1)" "bio_frame (?s\<lparr>l_n := 0\<rparr>) s1"
      "bst s1 (apply_writes (commit_writes ?s) (view ?s)) (apply_writes (commit_writes ?s) (disk ?s))
        (dhist ?s @ commit_writes ?s) {} {}"
    using commit_bst [OF R] by blast
  note f = log_frame [OF c(2)] bio_frame_simps [OF c(2)]
  have k: "LogLock \<notin> klk s" "PtableLock \<notin> klk s" using L by (auto simp: log_inv_def bio_idle_def)
  have k1: "LogLock \<notin> klk s1" "PtableLock \<notin> klk s1" using f k by simp_all
  let ?s' = "wakeup1 (Some ChLog) (s1\<lparr>l_committing := False\<rparr>)"
  have cm: "commit (s\<lparr>klk := klk s, l_outstanding := 0, l_committing := True\<rparr>) = Inr ((), s1)"
    using c(1) by simp
  have e: "end_op s = Inr ((), ?s')"
    using k k1 o c(1) L
    by (simp add: end_op_def Let_def log_inv_def) (simp add: wakeup1_def)
  have E: "head_n (disk s1 (l_start s)) = 0 \<and> (\<forall>m. \<not> in_log (l_start s) (nat (l_n s)) m \<longrightarrow> disk s1 m = view s m)"
  proof (cases "l_n s = 0")
    case True
    then have "disk s1 = disk s" using c(3) by (simp add: bst_def commit_writes_def)
    moreover have "view s m = disk s m" for m
      using view_disk [of s m] L h True by (simp add: log_inv_def)
    ultimately show ?thesis using L by (simp add: log_inv_def)
  next
    case False
    then have "0 < l_n ?s" using L by (simp add: log_inv_def)
    from erased_all [OF R this] c(3) show ?thesis by (simp add: erased_def bst_def)
  qed
  have v: "view ?s' m = disk ?s' m" for m
    using c(3) view_disk [of s1 m] by (simp add: bst_def)
  have b': "bst ?s' (view ?s') (disk ?s') (dhist ?s') {} {}"
    using c(3) by (simp add: bst_def)
  have "log_inv ?s'"
    using L f E k1 c(3) by (simp add: log_inv_def bst_def)
  then show ?thesis using e E v f b' c(3) by (intro exI [of _ ?s']) (simp add: bst_def)
qed

lemma begin_op_ok:
  assumes "LogLock \<notin> klk s" and "\<not> l_committing s"
    and "l_n s + (l_outstanding s + 1) * MAXOPBLOCKS \<le> LOGSIZE"
  shows "begin_op s = Inr ((), s\<lparr>l_outstanding := l_outstanding s + 1\<rparr>)"
  using assms by (simp add: begin_op_def begin_op_turn_def)

lemma log_inv_outstanding [simp]: "log_inv (s\<lparr>l_outstanding := z\<rparr>) = log_inv s"
  by (simp add: log_inv_def)

text \<open>The cache operations inside a transaction keep the log's invariant.\<close>

lemma bread_log:
  assumes L: "log_inv s" and n: "n < disksize s" "n \<notin> held_blocks s"
    and sp: "n \<in> dirty_blocks s \<or> card (held_blocks s \<union> dirty_blocks s) < NBUF"
  shows "\<exists>i s'. bread 1 n s = Inr (i, s') \<and> log_inv s' \<and> bio_frame s s' \<and> owns_buf s' i n \<and>
    view s' = view s \<and> disk s' = disk s \<and> held_blocks s' = insert n (held_blocks s) \<and>
    dirty_blocks s' = dirty_blocks s \<and> (\<forall>j m. owns_buf s j m \<longrightarrow> owns_buf s' j m)"
proof -
  obtain i s' where r: "bread 1 n s = Inr (i, s')"
      "bst s' (view s) (disk s) (dhist s) (insert n (held_blocks s)) (dirty_blocks s)"
      "owns_buf s' i n" "bio_frame s s'" "\<forall>j m. owns_buf s j m \<longrightarrow> owns_buf s' j m"
    using bread_bst [OF log_inv_bst [OF L] n sp] by blast
  with log_inv_frame [OF L r(4,2)] show ?thesis by (auto simp: bst_def)
qed

lemma set_data_log:
  assumes L: "log_inv s" and o: "owns_buf s i n"
  shows "log_inv (set_data i x s)" "view (set_data i x s) = (view s)(n := x)"
    "disk (set_data i x s) = disk s" "held_blocks (set_data i x s) = held_blocks s"
    "dirty_blocks (set_data i x s) = dirty_blocks s" "owns_buf (set_data i x s) = owns_buf s"
    "bio_frame s (set_data i x s)"
proof -
  note D = set_data_bst [OF log_inv_bst [OF L] o, of x]
  show "log_inv (set_data i x s)" by (rule log_inv_frame [OF L D(3,1)]) simp
  show "view (set_data i x s) = (view s)(n := x)" "disk (set_data i x s) = disk s"
    "held_blocks (set_data i x s) = held_blocks s" "dirty_blocks (set_data i x s) = dirty_blocks s"
    "owns_buf (set_data i x s) = owns_buf s" "bio_frame s (set_data i x s)"
    using D by (simp_all add: bst_def)
qed

lemma brelse_log:
  assumes L: "log_inv s" and o: "owns_buf s i n" and c: "n \<in> dirty_blocks s \<or> view s n = disk s n"
  shows "\<exists>s'. brelse i s = Inr ((), s') \<and> log_inv s' \<and> bio_frame s s' \<and> view s' = view s \<and>
    disk s' = disk s \<and> held_blocks s' = held_blocks s - {n} \<and> dirty_blocks s' = dirty_blocks s \<and>
    (\<forall>j m. m \<noteq> n \<longrightarrow> owns_buf s j m \<longrightarrow> owns_buf s' j m)"
proof -
  obtain s' where r: "brelse i s = Inr ((), s')"
      "bst s' (view s) (disk s) (dhist s) (held_blocks s - {n}) (dirty_blocks s)"
      "\<forall>j m. m \<noteq> n \<longrightarrow> owns_buf s j m \<longrightarrow> owns_buf s' j m" "bio_frame s s'"
    using brelse_bst [OF log_inv_bst [OF L] o c] by blast
  with log_inv_frame [OF L r(4,2)] show ?thesis by (auto simp: bst_def)
qed

text \<open>Reading a block, changing it, logging it and releasing it: the pattern of every update of the
  file system.\<close>

lemma update_block_log:
  assumes L: "log_inv s" and h: "held_blocks s = {}" and tx: "1 \<le> l_outstanding s"
    and n: "n < disksize s" "\<not> in_log (l_start s) (nat (l_size s) - 1) n"
    and room: "l_n s < l_size s - 1" "l_n s + 1 < int NBUF"
  shows "\<exists>i s1 s2 s3. bread 1 n s = Inr (i, s1) \<and> b_data (bufs s1 ! i) = view s n \<and>
    log_write i (set_data i x s1) = Inr ((), s2) \<and> brelse i s2 = Inr ((), s3) \<and> log_inv s3 \<and>
    view s3 = (view s)(n := x) \<and> disk s3 = disk s \<and> held_blocks s3 = {} \<and>
    dirty_blocks s3 = insert n (dirty_blocks s) \<and> l_outstanding s3 = l_outstanding s \<and>
    l_size s3 = l_size s \<and> l_start s3 = l_start s \<and> disksize s3 = disksize s \<and>
    l_n s3 = int (card (dirty_blocks s3))"
proof -
  have ds: "dirty_blocks s = set (take (nat (l_n s)) (l_block s))" and n0: "0 \<le> l_n s"
    using L by (simp_all add: log_inv_def)
  have "card (dirty_blocks s) < NBUF"
    using card_length [of "take (nat (l_n s)) (l_block s)"] room(2) n0 by (simp add: ds) linarith
  then obtain i s1 where r: "bread 1 n s = Inr (i, s1)" "log_inv s1" "bio_frame s s1" "owns_buf s1 i n"
      "view s1 = view s" "disk s1 = disk s" "held_blocks s1 = {n}" "dirty_blocks s1 = dirty_blocks s"
    using bread_log [OF L n(1)] h by auto
  note D = set_data_log [OF r(2,4), of x]
  note f = log_frame [OF bio_frame_trans [OF r(3) D(7)]]
  have o: "owns_buf (set_data i x s1) i n" using D(6) r(4) by simp
  obtain s2 where w: "log_write i (set_data i x s1) = Inr ((), s2)" "log_inv s2"
      "view s2 = (view s)(n := x)" "disk s2 = disk s" "held_blocks s2 = {n}" "owns_buf s2 i n"
      "dirty_blocks s2 = insert n (dirty_blocks s)" "l_outstanding s2 = l_outstanding s"
      "l_size s2 = l_size s" "l_start s2 = l_start s" "disksize s2 = disksize s"
      "l_n s2 = int (card (dirty_blocks s2))"
    using log_write_spec [OF D(1) o] n tx room f D r(4-8) by auto
  obtain s3 where b: "brelse i s2 = Inr ((), s3)" "log_inv s3" "bio_frame s2 s3" "view s3 = view s2"
      "disk s3 = disk s2" "held_blocks s3 = {}" "dirty_blocks s3 = dirty_blocks s2"
    using brelse_log [OF w(2,6)] w(5,7) by auto
  have "b_data (bufs s1 ! i) = view s n"
    using owns_data [of s1 i n] r(2,4,5) by (simp add: log_inv_def)
  then show ?thesis using r(1) w b log_frame [OF b(3)]
    by (intro exI [of _ i] exI [of _ s1] exI [of _ s2] exI [of _ s3]) simp
qed

text \<open>C3. A logged write is durable: from a log with no operation in progress, \<open>begin_op\<close>, \<open>bread\<close>, a
  change of the data, \<open>log_write\<close>, \<open>brelse\<close> and \<open>end_op\<close> all return; afterwards the disk holds
  the new contents at this block and the old ones at every other block outside the log, the log
  is empty and ready for the next operation.\<close>

theorem logged_write_durable:
  assumes L: "log_inv s" and idle: "held_blocks s = {}" "l_n s = 0" "l_outstanding s = 0" and sz: "1 < l_size s"
    and n: "n < disksize s" "\<not> in_log (l_start s) (nat (l_size s) - 1) n"
  shows "\<exists>s1 i s2 s3 s4 s5. begin_op s = Inr ((), s1) \<and> bread 1 n s1 = Inr (i, s2) \<and>
    b_data (bufs s2 ! i) = disk s n \<and> log_write i (set_data i x s2) = Inr ((), s3) \<and>
    brelse i s3 = Inr ((), s4) \<and> end_op s4 = Inr ((), s5) \<and> log_inv s5 \<and> l_n s5 = 0 \<and>
    l_outstanding s5 = 0 \<and> disk s5 n = x \<and>
    (\<forall>m. m \<noteq> n \<longrightarrow> \<not> in_log (l_start s) (nat (l_size s) - 1) m \<longrightarrow> disk s5 m = disk s m)"
proof -
  let ?s1 = "s\<lparr>l_outstanding := 1\<rparr>"
  have d: "dirty_blocks s = {}" using L idle(2) by (simp add: log_inv_def)
  have b: "begin_op s = Inr ((), ?s1)"
    using begin_op_ok [of s] L idle by (simp add: log_inv_def LOGSIZE_def MAXOPBLOCKS_def)
  obtain i s2 s3 s4 where r: "bread 1 n ?s1 = Inr (i, s2)" "b_data (bufs s2 ! i) = view s n"
      "log_write i (set_data i x s2) = Inr ((), s3)" "brelse i s3 = Inr ((), s4)" "log_inv s4"
      "view s4 = (view s)(n := x)" "held_blocks s4 = {}" "l_outstanding s4 = 1" "l_start s4 = l_start s"
      "dirty_blocks s4 = {n}" "l_n s4 = int (card (dirty_blocks s4))"
    using update_block_log [of ?s1 n x] L idle sz n d by (auto simp: NBUF_def)
  obtain s5 where e: "end_op s4 = Inr ((), s5)" "log_inv s5" "l_n s5 = 0" "l_outstanding s5 = 0"
      "\<forall>m. \<not> in_log (l_start s) 1 m \<longrightarrow> disk s5 m = view s4 m"
    using end_op_last [OF r(5,7,8)] r(9-11) by auto
  have v: "view s m = disk s m" for m using view_disk [of s m] L idle(1) d by (simp add: log_inv_def)
  have "\<not> in_log (l_start s) 1 m" if "\<not> in_log (l_start s) (nat (l_size s) - 1) m" for m
    using that sz by (auto simp: in_log_def)
  then have "disk s5 n = x" "\<forall>m. m \<noteq> n \<longrightarrow> \<not> in_log (l_start s) (nat (l_size s) - 1) m \<longrightarrow> disk s5 m = disk s m"
    using e(5) r(6) v n(2) by simp_all
  with b r(1-4) e v show ?thesis
    by (intro exI [of _ ?s1] exI [of _ i] exI [of _ s2] exI [of _ s3] exI [of _ s4] exI [of _ s5]) simp
qed

text \<open>A freshly booted machine: an empty cache over the disk \<open>d\<close> of 1000 blocks, a log at block 2.\<close>

definition log_bss :: "(u32 \<Rightarrow> block) \<Rightarrow> log" where
  "log_bss d = \<lparr>klk = {}, ptable = replicate NPROC proc_bss, nextpid = 1, initproc = None,
     cur = Some 0, ts_esp0 = 0, ts_ss0 = 0, ts_iomb = 0, cr3 = 0, kpgdir = 0,
     cons_locking = False, panicked = False, crt = (\<lambda>_. 0), cursor_hi = 0, cursor_lo = 0,
     uart = False, com1 = [], pic = [], ioapic_reg = (\<lambda>_. 0), inp_buf = (\<lambda>_. 0), inp_r = 0,
     inp_w = 0, inp_e = 0, kbd_in = [], kbd_shift = 0, com1_in = [],
     mem = (\<lambda>_. 0),
     freelist = 0, use_lock = False, kend = 0, kdata = 0x80108000, bufs = replicate (Suc NBUF) buf_bss,
     disk = d, disksize = 1000, dhist = [], l_start = 2, l_size = 30, l_outstanding = 0,
     l_committing = False, l_dev = 1, l_n = 0, l_block = replicate (nat LOGSIZE) 0\<rparr>"

definition log_boot :: "(u32 \<Rightarrow> block) \<Rightarrow> log" where
  "log_boot d = binit (log_bss d)"

lemma log_boot_bst:
  "bst (log_boot d) d d [] {} {}" "l_start (log_boot d) = 2" "l_dev (log_boot d) = 1"
  "disksize (log_boot d) = 1000" "dhist (log_boot d) = []"
  "l_size (log_boot d) = 30" "l_n (log_boot d) = 0" "l_outstanding (log_boot d) = 0"
  "\<not> l_committing (log_boot d)" "length (l_block (log_boot d)) = nat LOGSIZE" "klk (log_boot d) = {}"
proof -
  have z: "bufs (log_bss d) = replicate (Suc NBUF) buf_bss" by (simp add: log_bss_def)
  obtain L B where r: "L \<subseteq> klk (log_bss d)" "log_boot d = (log_bss d)\<lparr>klk := L, bufs := B\<rparr>"
    using binit_spec [OF z] unfolding log_boot_def by blast
  then have f: "klk (log_boot d) = {}" "cur (log_boot d) = Some 0" "disk (log_boot d) = d" "dhist (log_boot d) = []"
      "disk (log_bss d) = d"
    by (simp_all add: log_bss_def)
  show "bst (log_boot d) d d [] {} {}"
    using binit_spec [OF z, folded log_boot_def] f by (simp add: bst_def bio_idle_def)
  show "l_start (log_boot d) = 2" "l_dev (log_boot d) = 1" "disksize (log_boot d) = 1000"
    "dhist (log_boot d) = []" "l_size (log_boot d) = 30" "l_n (log_boot d) = 0"
    "l_outstanding (log_boot d) = 0" "\<not> l_committing (log_boot d)"
    "length (l_block (log_boot d)) = nat LOGSIZE" "klk (log_boot d) = {}"
    using r(2) f by (simp_all add: log_bss_def)
qed

lemma log_boot_inv:
  assumes "head_n (d 2) = 0"
  shows "log_inv (log_boot d)" "held_blocks (log_boot d) = {}"
proof -
  have "unat (2 :: u32) + nat 30 \<le> unat (1000 :: u32)" by simp
  then show "log_inv (log_boot d)" "held_blocks (log_boot d) = {}"
    using log_boot_bst [of d] assms by (simp_all add: log_inv_def bst_def NBUF_def)
qed

lemma head_n_zero: "head_n (\<lambda>_. 0) = 0"
  by (simp add: head_n_def rd32_def le32_def)

theorem logged_write_durable_witness:
  "\<exists>s1 i s2 s3 s4 s5. begin_op (log_boot (\<lambda>_ _. 0)) = Inr ((), s1) \<and> bread 1 100 s1 = Inr (i, s2) \<and>
    log_write i (set_data i (\<lambda>_. 9) s2) = Inr ((), s3) \<and> brelse i s3 = Inr ((), s4) \<and>
    end_op s4 = Inr ((), s5) \<and> disk s5 100 = (\<lambda>_. 9) \<and> disk s5 101 = (\<lambda>_. 0)"
proof -
  have z: "head_n ((\<lambda>_ _. 0 :: u8) (2 :: u32)) = 0" by (rule head_n_zero)
  note B = log_boot_bst [of "\<lambda>_ _. 0"]
  have "\<not> in_log 2 29 100" "\<not> in_log 2 29 101" by (simp_all add: in_log_def)
  moreover have "disk (log_boot (\<lambda>_ _. 0)) = (\<lambda>_ _. 0)" using B(1) by (simp add: bst_def)
  ultimately show ?thesis
    using logged_write_durable [OF log_boot_inv [OF z], of 100 "\<lambda>_. 9"] B by fastforce
qed

lemma log_boot_booted: "booted (log_boot d) d 2 1000"
  using log_boot_bst [of d] by (simp add: booted_def)

theorem commit_crash_safe_witness:
  "\<exists>i s1 s2 s s'. bread 1 100 ((log_boot (\<lambda>_ _. 0))\<lparr>l_outstanding := 1\<rparr>) = Inr (i, s1) \<and>
    log_write i (set_data i (\<lambda>_. 9) s1) = Inr ((), s2) \<and> brelse i s2 = Inr ((), s) \<and>
    disk s 100 = (\<lambda>_. 0) \<and> commit s = Inr ((), s') \<and> disk s' 100 = (\<lambda>_. 9) \<and>
    recovers_to (log_boot (disk s)) (\<lambda>m. \<not> in_log 2 1 m) (disk s)"
proof -
  have z: "head_n ((\<lambda>_ _. 0 :: u8) (2 :: u32)) = 0" by (rule head_n_zero)
  let ?b = "(log_boot (\<lambda>_ _. 0))\<lparr>l_outstanding := 1\<rparr>"
  note B = log_boot_bst [of "\<lambda>_ _. 0"] log_boot_inv [OF z]
  have io: "\<not> in_log 2 29 100" "\<not> in_log 2 1 100" by (simp_all add: in_log_def)
  have d: "disk (log_boot (\<lambda>_ _. 0)) = (\<lambda>_ _. 0)" "dirty_blocks (log_boot (\<lambda>_ _. 0)) = {}"
    using B(1) by (simp_all add: bst_def)
  obtain i s1 s2 s where r: "bread 1 100 ?b = Inr (i, s1)"
      "log_write i (set_data i (\<lambda>_. 9) s1) = Inr ((), s2)" "brelse i s2 = Inr ((), s)" "log_inv s"
      "view s = (view ?b)(100 := (\<lambda>_. 9))" "disk s = (\<lambda>_ _. 0)" "held_blocks s = {}" "l_start s = 2"
      "disksize s = 1000" "l_n s = int (card (dirty_blocks s))" "dirty_blocks s = {100}"
    using update_block_log [of ?b 100 "\<lambda>_. 9"] B io d by (auto simp: NBUF_def)
  have n: "nat (l_n s) = 1" using r by simp
  from commit_crash_safe [OF log_inv_ready [OF r(4,7)]] obtain s' W where
    c: "commit s = Inr ((), s')" "\<forall>m. \<not> in_log 2 1 m \<longrightarrow> disk s' m = view s m"
      "\<forall>k (b :: log). booted b (apply_writes (take k W) (disk s)) 2 1000 \<longrightarrow>
         recovers_to b (\<lambda>m. \<not> in_log 2 1 m) (if k \<le> 1 then disk s else view s)"
    unfolding n r(8,9) by blast
  have "recovers_to (log_boot (disk s)) (\<lambda>m. \<not> in_log 2 1 m) (disk s)"
    using c(3) [rule_format, of "log_boot (disk s)" 0] log_boot_booted by simp
  moreover have "disk s' 100 = (\<lambda>_. 9)" using c(2) io r(5) by simp
  ultimately show ?thesis using r(1-3,6) c(1)
    by (intro exI [of _ i] exI [of _ s1] exI [of _ s2] exI [of _ s] exI [of _ s']) simp
qed

definition crashed_disk :: "u32 \<Rightarrow> block" where
  "crashed_disk = (\<lambda>_ _. 0)(2 := head_block 1 [100] (\<lambda>_. 0), 3 := (\<lambda>_. 9))"

theorem recovery_idempotent_witness:
  "\<exists>b' W. recover_from_log (log_boot crashed_disk) = Inr ((), b') \<and> dhist b' = W \<and>
    head_n (disk b' 2) = 0 \<and>
    recovers_to (log_boot (apply_writes (take 1 W) crashed_disk)) (\<lambda>m. m \<noteq> 2) (disk b')"
proof -
  have h: "crashed_disk 2 = head_block 1 [100] (\<lambda>_. 0)" by (simp add: crashed_disk_def)
  have hl: "head_n (crashed_disk 2) = 1" "head_list (crashed_disk 2) = [100]"
    using head_block_list [of 1 "[100]" "\<lambda>_. 0"] by (simp_all add: h LOGSIZE_def MAXOPBLOCKS_def)
  have g: "log_geom 2 1000 (head_list (crashed_disk 2))" by (simp add: hl log_geom_def)
  have n: "0 \<le> head_n (crashed_disk 2)" "head_n (crashed_disk 2) \<le> LOGSIZE"
    by (simp_all add: hl LOGSIZE_def MAXOPBLOCKS_def)
  have d: "dhist (log_boot crashed_disk) = []" by (rule log_boot_bst)
  from recovery_idempotent [OF log_boot_booted [of crashed_disk] n g] obtain b' W where
    r: "recover_from_log (log_boot crashed_disk) = Inr ((), b')" "dhist b' = W" "head_n (disk b' 2) = 0"
      "\<forall>k (c :: log). booted c (apply_writes (take k W) crashed_disk) 2 1000 \<longrightarrow>
         recovers_to c (\<lambda>m. m \<noteq> 2) (disk b')"
    unfolding d by auto
  from r(4) log_boot_booted [of "apply_writes (take 1 W) crashed_disk"]
  have "recovers_to (log_boot (apply_writes (take 1 W) crashed_disk)) (\<lambda>m. m \<noteq> 2) (disk b')" by blast
  with r(1-3) show ?thesis by blast
qed

text \<open>A sequence of logged updates, as the operations in progress make them one after the other.\<close>

fun log_updates :: "(u32 \<times> block) list \<Rightarrow> 'a log_scheme \<Rightarrow> (unit, 'a log_scheme) kresult" where
  "log_updates [] s = Inr ((), s)"
| "log_updates ((n, x) # us) s =
     bindE (bread 1 n s) (\<lambda>i s.
     bindE (log_write i (set_data i x s)) (\<lambda>_ s.
     bindE (brelse i s) (\<lambda>_ s. log_updates us s)))"

lemma log_updates_overflow:
  assumes "log_inv s" and "held_blocks s = {}" and "1 \<le> l_outstanding s" and "l_size s = LOGSIZE"
    and "l_n s = int (card (dirty_blocks s))" and "length us + card (dirty_blocks s) = nat LOGSIZE"
    and "us \<noteq> []" and "distinct (map fst us)" and "fst ` set us \<inter> dirty_blocks s = {}"
    and "\<forall>u \<in> set us. fst u < disksize s \<and> \<not> in_log (l_start s) (nat LOGSIZE - 1) (fst u)"
  shows "log_updates us s = Inl (Panic ''too big a transaction'')"
  using assms
proof (induction us arbitrary: s)
  case (Cons u us)
  obtain n x where u: "u = (n, x)" by (cases u)
  have n: "n < disksize s" "\<not> in_log (l_start s) (nat LOGSIZE - 1) n" "n \<notin> dirty_blocks s"
    using Cons.prems(9,10) u by auto
  have sz: "nat LOGSIZE = 30" "LOGSIZE = 30" "NBUF = 30"
    by (simp_all add: LOGSIZE_def MAXOPBLOCKS_def NBUF_def)
  have fin: "finite (dirty_blocks s)" by (rule finite_subset [of _ UNIV]) auto
  show ?case
  proof (cases us)
    case Nil
    then have c: "card (dirty_blocks s) = 29" using Cons.prems(6) sz by simp
    then obtain i s1 where "bread 1 n s = Inr (i, s1)" "bio_frame s s1"
      using bread_log [OF Cons.prems(1) n(1)] Cons.prems(2) sz by auto
    moreover from this have "log_write i (set_data i x s1) = Inl (Panic ''too big a transaction'')"
      using c Cons.prems(4,5) sz log_frame [of s s1]
      by (simp add: log_write_def set_data_def set_buf_def)
    ultimately show ?thesis using u by simp
  next
    case (Cons v vs)
    then have c: "card (dirty_blocks s) < 29" using Cons.prems(6) sz by simp
    obtain i s1 s2 s3 where r: "bread 1 n s = Inr (i, s1)" "log_write i (set_data i x s1) = Inr ((), s2)"
        "brelse i s2 = Inr ((), s3)" "log_inv s3" "held_blocks s3 = {}" "l_outstanding s3 = l_outstanding s"
        "dirty_blocks s3 = insert n (dirty_blocks s)" "l_size s3 = l_size s" "l_start s3 = l_start s"
        "disksize s3 = disksize s" "l_n s3 = int (card (dirty_blocks s3))"
      using update_block_log [OF Cons.prems(1-3) n(1), of x] n(2) c Cons.prems(4,5) sz by auto
    have "log_updates us s3 = Inl (Panic ''too big a transaction'')"
      by (rule Cons.IH) (use r Cons Cons.prems u n(3) fin in \<open>auto simp: image_iff\<close>)
    then show ?thesis using r(1-3) u by simp
  qed
qed simp

text \<open>C4. The admission test of \<open>begin_op\<close> reserves more blocks than the log has.  With the log that
  \<open>mkfs\<close> writes (\<open>nlog = LOGSIZE\<close> blocks, one of which is the header), three operations are
  admitted at once, each entitled to \<open>MAXOPBLOCKS\<close> blocks; but if together they update that
  many distinct blocks, \<open>log_write\<close> panics.\<close>

theorem begin_op_overcommits:
  assumes "log_inv s" and "held_blocks s = {}" and "l_n s = 0" and "l_outstanding s = 0"
    and "l_size s = LOGSIZE" and "length us = 3 * nat MAXOPBLOCKS" and "distinct (map fst us)"
    and "\<forall>u \<in> set us. fst u < disksize s \<and> \<not> in_log (l_start s) (nat LOGSIZE - 1) (fst u)"
  shows "\<exists>s1 s2 s3. begin_op s = Inr ((), s1) \<and> begin_op s1 = Inr ((), s2) \<and>
    begin_op s2 = Inr ((), s3) \<and> log_updates us s3 = Inl (Panic ''too big a transaction'')"
proof -
  let ?s1 = "s\<lparr>l_outstanding := 1\<rparr>" and ?s2 = "s\<lparr>l_outstanding := 2\<rparr>" and ?s3 = "s\<lparr>l_outstanding := 3\<rparr>"
  have k: "LogLock \<notin> klk s" "\<not> l_committing s" "dirty_blocks s = {}"
    using assms(1,3) by (simp_all add: log_inv_def)
  have "begin_op s = Inr ((), ?s1)" "begin_op ?s1 = Inr ((), ?s2)" "begin_op ?s2 = Inr ((), ?s3)"
    using begin_op_ok [of s] begin_op_ok [of ?s1] begin_op_ok [of ?s2] k assms(3,4)
    by (simp_all add: LOGSIZE_def MAXOPBLOCKS_def)
  moreover have "log_updates us ?s3 = Inl (Panic ''too big a transaction'')"
    using assms k by (intro log_updates_overflow) (auto simp: LOGSIZE_def MAXOPBLOCKS_def)
  ultimately show ?thesis by blast
qed

theorem begin_op_overcommits_witness:
  "\<exists>s1 s2 s3. begin_op (log_boot (\<lambda>_ _. 0)) = Inr ((), s1) \<and> begin_op s1 = Inr ((), s2) \<and>
    begin_op s2 = Inr ((), s3) \<and>
    log_updates (map (\<lambda>k. (of_nat (100 + k), (\<lambda>_. 9))) [0..<30]) s3 = Inl (Panic ''too big a transaction'')"
proof -
  have z: "head_n ((\<lambda>_ _. 0 :: u8) (2 :: u32)) = 0" by (rule head_n_zero)
  note B = log_boot_bst [of "\<lambda>_ _. 0"]
  have "l_size (log_boot (\<lambda>_ _. 0)) = LOGSIZE" using B by (simp add: LOGSIZE_def MAXOPBLOCKS_def)
  moreover have "distinct (map fst (map (\<lambda>k. (of_nat (100 + k) :: u32, (\<lambda>_. 9) :: block)) [0..<30]))"
    by (simp add: upt_rec)
  moreover have "\<forall>u \<in> set (map (\<lambda>k. (of_nat (100 + k) :: u32, (\<lambda>_. 9) :: block)) [0..<30]).
      fst u < disksize (log_boot (\<lambda>_ _. 0)) \<and> \<not> in_log (l_start (log_boot (\<lambda>_ _. 0))) (nat LOGSIZE - 1) (fst u)"
    by (simp add: upt_rec B in_log_def LOGSIZE_def MAXOPBLOCKS_def)
  ultimately show ?thesis
    using begin_op_overcommits [OF log_boot_inv [OF z] B(7,8)] by (simp add: MAXOPBLOCKS_def)
qed

end
