(* ===== verification/Fs.thy ===== *)
theory Fs
  imports Log
begin

text \<open>
  The file system (\<open>fs.c\<close>): the block allocator, the inode table, file contents, directories and
  path names.  A pointer to an inode is its index in \<open>inodes\<close>, an option where the code tests for
  a null pointer.  The on-disk inode and directory entry are read and written at their byte
  offsets in a block.  A C string is the list of its bytes before the NUL; a buffer for a path
  element is a byte array.  \<open>readi\<close> returns the bytes it moves to its destination, \<open>writei\<close> takes
  those it reads from its source; the device switch table \<open>devsw\<close> is an argument of both.
\<close>

section \<open>Data\<close>

definition NINODE :: nat where "NINODE = 50"
definition NDEV :: int where "NDEV = 10"
definition ROOTDEV :: u32 where "ROOTDEV = 1"
definition ROOTINO :: u32 where "ROOTINO = 1"
definition NDIRECT :: nat where "NDIRECT = 12"
definition NINDIRECT :: nat where "NINDIRECT = BSIZE div 4"
definition MAXFILE :: nat where "MAXFILE = NDIRECT + NINDIRECT"
definition IPB :: u32 where "IPB = of_nat BSIZE div 64"
definition BPB :: nat where "BPB = BSIZE * 8"
definition DIRSIZ :: nat where "DIRSIZ = 14"
definition T_DIR :: u16 where "T_DIR = 1"
definition T_FILE :: u16 where "T_FILE = 2"
definition T_DEV :: u16 where "T_DEV = 3"

record inode =
  i_dev :: u32
  i_inum :: u32
  i_ref :: int
  i_lock :: sleeplock
  i_valid :: bool
  i_type :: u16
  i_major :: u16
  i_minor :: u16
  i_nlink :: u16
  i_size :: u32
  i_addrs :: "u32 list"

record stat =
  st_type :: u16
  st_dev :: u32
  st_ino :: u32
  st_nlink :: u16
  st_size :: u32

record fs = log +
  sb :: superblock
  inodes :: "inode list"

definition set_inode :: "nat \<Rightarrow> (inode \<Rightarrow> inode) \<Rightarrow> 'a fs_scheme \<Rightarrow> 'a fs_scheme" where
  "set_inode i f s = s\<lparr>inodes := (inodes s)[i := f (inodes s ! i)]\<rparr>"

definition inode_lock :: "nat \<Rightarrow> 'a fs_scheme \<Rightarrow> sleeplock" where
  "inode_lock i s = i_lock (inodes s ! i)"

definition set_inode_lock :: "nat \<Rightarrow> (sleeplock \<Rightarrow> sleeplock) \<Rightarrow> 'a fs_scheme \<Rightarrow> 'a fs_scheme" where
  "set_inode_lock i f s = set_inode i (\<lambda>ip. ip\<lparr>i_lock := f (i_lock ip)\<rparr>) s"

definition acquire_inode :: "nat \<Rightarrow> 'a fs_scheme \<Rightarrow> (unit, 'a fs_scheme) kresult" where
  "acquire_inode i s = acquiresleep (InodeLk i) (ChInodeLock i) (inode_lock i) (set_inode_lock i) s"

definition release_inode :: "nat \<Rightarrow> 'a fs_scheme \<Rightarrow> (unit, 'a fs_scheme) kresult" where
  "release_inode i s = releasesleep (InodeLk i) (ChInodeLock i) (set_inode_lock i) s"

definition holding_inode :: "nat \<Rightarrow> 'a fs_scheme \<Rightarrow> (bool, 'a fs_scheme) kresult" where
  "holding_inode i s = holdingsleep (InodeLk i) (inode_lock i) s"

definition IBLOCK :: "u32 \<Rightarrow> superblock \<Rightarrow> u32" where
  "IBLOCK i sb0 = i div IPB + sb_inodestart sb0"

definition BBLOCK :: "u32 \<Rightarrow> superblock \<Rightarrow> u32" where
  "BBLOCK b sb0 = b div of_nat BPB + sb_bmapstart sb0"

section \<open>Blocks\<close>

definition bzero :: "u32 \<Rightarrow> u32 \<Rightarrow> 'a fs_scheme \<Rightarrow> (unit, 'a fs_scheme) kresult" where
  "bzero dev bno s =
     bindE (bread dev bno s) (\<lambda>bp s.
     bindE (log_write bp (set_data bp (\<lambda>_. 0) s)) (\<lambda>_ s. brelse bp s))"

definition bitmask :: "nat \<Rightarrow> u8" where
  "bitmask bi = push_bit (bi mod 8) 1"

definition bit_free :: "block \<Rightarrow> nat \<Rightarrow> bool" where
  "bit_free d bi \<longleftrightarrow> d (bi div 8) AND bitmask bi = 0"

text \<open>The values of the loop variable \<open>b\<close> of \<open>balloc\<close>.\<close>

definition bitmap_starts :: "superblock \<Rightarrow> nat list" where
  "bitmap_starts sb0 = map (\<lambda>k. k * BPB) [0..<(unat (sb_size sb0) + BPB - 1) div BPB]"

fun balloc_loop :: "u32 \<Rightarrow> nat list \<Rightarrow> 'a fs_scheme \<Rightarrow> (u32, 'a fs_scheme) kresult" where
  "balloc_loop dev [] s = Inl (Panic ''balloc: out of blocks'')"
| "balloc_loop dev (b # bs) s =
     bindE (bread dev (BBLOCK (of_nat b) (sb s)) s) (\<lambda>bp s.
       let d = b_data (bufs s ! bp) in
       case find (bit_free d) [0..<min BPB (unat (sb_size (sb s)) - b)] of
         Some bi \<Rightarrow>
           bindE (log_write bp (set_data bp (d(bi div 8 := d (bi div 8) OR bitmask bi)) s)) (\<lambda>_ s.
           bindE (brelse bp s) (\<lambda>_ s.
           bindE (bzero dev (of_nat (b + bi)) s) (\<lambda>_ s. Inr (of_nat (b + bi), s))))
       | None \<Rightarrow> bindE (brelse bp s) (\<lambda>_ s. balloc_loop dev bs s))"

definition balloc :: "u32 \<Rightarrow> 'a fs_scheme \<Rightarrow> (u32, 'a fs_scheme) kresult" where
  "balloc dev s = balloc_loop dev (bitmap_starts (sb s)) s"

definition bfree :: "u32 \<Rightarrow> u32 \<Rightarrow> 'a fs_scheme \<Rightarrow> (unit, 'a fs_scheme) kresult" where
  "bfree dev b s =
     bindE (readsb dev s) (\<lambda>sb' s.
       let s = s\<lparr>sb := sb'\<rparr> in
       bindE (bread dev (BBLOCK b (sb s)) s) (\<lambda>bp s.
         let d = b_data (bufs s ! bp); bi = unat b mod BPB in
         if bit_free d bi then Inl (Panic ''freeing free block'')
         else
           bindE (log_write bp (set_data bp (d(bi div 8 := d (bi div 8) AND NOT (bitmask bi))) s)) (\<lambda>_ s.
           brelse bp s)))"

section \<open>Inodes\<close>

fun iinit_loop :: "nat list \<Rightarrow> 'a fs_scheme \<Rightarrow> 'a fs_scheme" where
  "iinit_loop [] s = s"
| "iinit_loop (i # is) s = iinit_loop is (initsleeplock (InodeLk i) (set_inode_lock i) s)"

definition iinit :: "u32 \<Rightarrow> 'a fs_scheme \<Rightarrow> (unit, 'a fs_scheme) kresult" where
  "iinit dev s =
     bindE (readsb dev (iinit_loop [0..<NINODE] (s\<lparr>klk := klk s - {IcacheLock}\<rparr>))) (\<lambda>sb' s.
     let s = s\<lparr>sb := sb'\<rparr> in
     cprintf (msg ''sb: size %d nblocks %d ninodes %d nlog %d logstart %d inodestart %d bmap start %d!'')
       [AInt (sb_size (sb s)), AInt (sb_nblocks (sb s)), AInt (sb_ninodes (sb s)), AInt (sb_nlog (sb s)),
        AInt (sb_logstart (sb s)), AInt (sb_inodestart (sb s)), AInt (sb_bmapstart (sb s))] s)"

text \<open>The byte offset of inode \<open>inum\<close> in its block, and the fields of \<open>struct dinode\<close> there.\<close>

definition dip_off :: "u32 \<Rightarrow> nat" where
  "dip_off inum = unat (inum mod IPB) * 64"

definition dip_write :: "inode \<Rightarrow> block \<Rightarrow> block" where
  "dip_write ip d =
     (let p = dip_off (i_inum ip);
          d = wr16 d p (i_type ip);
          d = wr16 d (p + 2) (i_major ip);
          d = wr16 d (p + 4) (i_minor ip);
          d = wr16 d (p + 6) (i_nlink ip);
          d = wr32 d (p + 8) (i_size ip)
      in fold (\<lambda>k d. wr32 d (p + 12 + 4 * k) (i_addrs ip ! k)) [0..<NDIRECT + 1] d)"

definition dip_read :: "block \<Rightarrow> inode \<Rightarrow> inode" where
  "dip_read d ip =
     (let p = dip_off (i_inum ip) in
      ip\<lparr>i_type := rd16 d p, i_major := rd16 d (p + 2), i_minor := rd16 d (p + 4),
         i_nlink := rd16 d (p + 6), i_size := rd32 d (p + 8),
         i_addrs := map (\<lambda>k. rd32 d (p + 12 + 4 * k)) [0..<NDIRECT + 1]\<rparr>)"

definition dip_clear :: "u32 \<Rightarrow> u16 \<Rightarrow> block \<Rightarrow> block" where
  "dip_clear inum type d =
     wr16 (\<lambda>i. if dip_off inum \<le> i \<and> i < dip_off inum + 64 then 0 else d i) (dip_off inum) type"

definition iget :: "u32 \<Rightarrow> u32 \<Rightarrow> 'a fs_scheme \<Rightarrow> (nat, 'a fs_scheme) kresult" where
  "iget dev inum s =
     bindE (lk_acquire IcacheLock s) (\<lambda>_ s.
       case first_index (\<lambda>ip. i_ref ip > 0 \<and> i_dev ip = dev \<and> i_inum ip = inum) (inodes s) of
         Some i \<Rightarrow>
           bindE (lk_release IcacheLock (set_inode i (\<lambda>ip. ip\<lparr>i_ref := i_ref ip + 1\<rparr>) s)) (\<lambda>_ s.
           Inr (i, s))
       | None \<Rightarrow>
           (case first_index (\<lambda>ip. i_ref ip = 0) (inodes s) of
              None \<Rightarrow> Inl (Panic ''iget: no inodes'')
            | Some i \<Rightarrow>
                bindE (lk_release IcacheLock
                         (set_inode i (\<lambda>ip. ip\<lparr>i_dev := dev, i_inum := inum, i_ref := 1,
                                                i_valid := False\<rparr>) s)) (\<lambda>_ s.
                Inr (i, s))))"

fun ialloc_loop :: "u32 \<Rightarrow> u16 \<Rightarrow> nat list \<Rightarrow> 'a fs_scheme \<Rightarrow> (nat, 'a fs_scheme) kresult" where
  "ialloc_loop dev type [] s = Inl (Panic ''ialloc: no inodes'')"
| "ialloc_loop dev type (inum # is) s =
     bindE (bread dev (IBLOCK (of_nat inum) (sb s)) s) (\<lambda>bp s.
       let d = b_data (bufs s ! bp) in
       if rd16 d (dip_off (of_nat inum)) = 0 then
         bindE (log_write bp (set_data bp (dip_clear (of_nat inum) type d) s)) (\<lambda>_ s.
         bindE (brelse bp s) (\<lambda>_ s. iget dev (of_nat inum) s))
       else bindE (brelse bp s) (\<lambda>_ s. ialloc_loop dev type is s))"

definition ialloc :: "u32 \<Rightarrow> u16 \<Rightarrow> 'a fs_scheme \<Rightarrow> (nat, 'a fs_scheme) kresult" where
  "ialloc dev type s = ialloc_loop dev type [1..<unat (sb_ninodes (sb s))] s"

definition iupdate :: "nat \<Rightarrow> 'a fs_scheme \<Rightarrow> (unit, 'a fs_scheme) kresult" where
  "iupdate i s =
     (let ip = inodes s ! i in
      bindE (bread (i_dev ip) (IBLOCK (i_inum ip) (sb s)) s) (\<lambda>bp s.
      bindE (log_write bp (set_data bp (dip_write ip (b_data (bufs s ! bp))) s)) (\<lambda>_ s.
      brelse bp s)))"

definition idup :: "nat \<Rightarrow> 'a fs_scheme \<Rightarrow> (nat, 'a fs_scheme) kresult" where
  "idup i s =
     bindE (lk_acquire IcacheLock s) (\<lambda>_ s.
     bindE (lk_release IcacheLock (set_inode i (\<lambda>ip. ip\<lparr>i_ref := i_ref ip + 1\<rparr>) s)) (\<lambda>_ s.
     Inr (i, s)))"

definition ilock :: "nat option \<Rightarrow> 'a fs_scheme \<Rightarrow> (unit, 'a fs_scheme) kresult" where
  "ilock p s =
     (case p of
        None \<Rightarrow> Inl (Panic ''ilock'')
      | Some i \<Rightarrow>
          if i_ref (inodes s ! i) < 1 then Inl (Panic ''ilock'')
          else
            bindE (acquire_inode i s) (\<lambda>_ s.
              let ip = inodes s ! i in
              if i_valid ip then Inr ((), s)
              else
                bindE (bread (i_dev ip) (IBLOCK (i_inum ip) (sb s)) s) (\<lambda>bp s.
                  let s = set_inode i (dip_read (b_data (bufs s ! bp))) s in
                  bindE (brelse bp s) (\<lambda>_ s.
                    let s = set_inode i (\<lambda>ip. ip\<lparr>i_valid := True\<rparr>) s in
                    if i_type (inodes s ! i) = 0 then Inl (Panic ''ilock: no type'')
                    else Inr ((), s)))))"

definition iunlock :: "nat option \<Rightarrow> 'a fs_scheme \<Rightarrow> (unit, 'a fs_scheme) kresult" where
  "iunlock p s =
     (case p of
        None \<Rightarrow> Inl (Panic ''iunlock'')
      | Some i \<Rightarrow>
          bindE (holding_inode i s) (\<lambda>h s.
            if \<not> h \<or> i_ref (inodes s ! i) < 1 then Inl (Panic ''iunlock'')
            else release_inode i s))"

section \<open>File contents\<close>

definition bmap :: "nat \<Rightarrow> u32 \<Rightarrow> 'a fs_scheme \<Rightarrow> (u32, 'a fs_scheme) kresult" where
  "bmap i bn s =
     (if unat bn < NDIRECT then
        (let addr = i_addrs (inodes s ! i) ! unat bn in
         if addr = 0 then
           bindE (balloc (i_dev (inodes s ! i)) s) (\<lambda>addr s.
           Inr (addr, set_inode i (\<lambda>ip. ip\<lparr>i_addrs := (i_addrs ip)[unat bn := addr]\<rparr>) s))
         else Inr (addr, s))
      else if unat bn - NDIRECT < NINDIRECT then
        bindE (if i_addrs (inodes s ! i) ! NDIRECT = 0
               then bindE (balloc (i_dev (inodes s ! i)) s) (\<lambda>addr s.
                    Inr (addr, set_inode i (\<lambda>ip. ip\<lparr>i_addrs := (i_addrs ip)[NDIRECT := addr]\<rparr>) s))
               else Inr (i_addrs (inodes s ! i) ! NDIRECT, s)) (\<lambda>addr s.
        bindE (bread (i_dev (inodes s ! i)) addr s) (\<lambda>bp s.
          let k = 4 * (unat bn - NDIRECT); addr = rd32 (b_data (bufs s ! bp)) k in
          if addr = 0 then
            bindE (balloc (i_dev (inodes s ! i)) s) (\<lambda>addr s.
            bindE (log_write bp (set_data bp (wr32 (b_data (bufs s ! bp)) k addr) s)) (\<lambda>_ s.
            bindE (brelse bp s) (\<lambda>_ s. Inr (addr, s))))
          else bindE (brelse bp s) (\<lambda>_ s. Inr (addr, s))))
      else Inl (Panic ''bmap: out of range''))"

fun itrunc_direct :: "nat \<Rightarrow> nat list \<Rightarrow> 'a fs_scheme \<Rightarrow> (unit, 'a fs_scheme) kresult" where
  "itrunc_direct i [] s = Inr ((), s)"
| "itrunc_direct i (k # ks) s =
     (let a = i_addrs (inodes s ! i) ! k in
      if a \<noteq> 0 then
        bindE (bfree (i_dev (inodes s ! i)) a s) (\<lambda>_ s.
        itrunc_direct i ks (set_inode i (\<lambda>ip. ip\<lparr>i_addrs := (i_addrs ip)[k := 0]\<rparr>) s))
      else itrunc_direct i ks s)"

fun itrunc_indirect :: "u32 \<Rightarrow> nat \<Rightarrow> nat list \<Rightarrow> 'a fs_scheme \<Rightarrow> (unit, 'a fs_scheme) kresult" where
  "itrunc_indirect dev bp [] s = Inr ((), s)"
| "itrunc_indirect dev bp (j # js) s =
     (let a = rd32 (b_data (bufs s ! bp)) (4 * j) in
      if a \<noteq> 0 then bindE (bfree dev a s) (\<lambda>_ s. itrunc_indirect dev bp js s)
      else itrunc_indirect dev bp js s)"

definition itrunc :: "nat \<Rightarrow> 'a fs_scheme \<Rightarrow> (unit, 'a fs_scheme) kresult" where
  "itrunc i s =
     bindE (itrunc_direct i [0..<NDIRECT] s) (\<lambda>_ s.
     bindE (let dev = i_dev (inodes s ! i); a = i_addrs (inodes s ! i) ! NDIRECT in
            if a \<noteq> 0 then
              bindE (bread dev a s) (\<lambda>bp s.
              bindE (itrunc_indirect dev bp [0..<NINDIRECT] s) (\<lambda>_ s.
              bindE (brelse bp s) (\<lambda>_ s.
              bindE (bfree dev a s) (\<lambda>_ s.
              Inr ((), set_inode i (\<lambda>ip. ip\<lparr>i_addrs := (i_addrs ip)[NDIRECT := 0]\<rparr>) s)))))
            else Inr ((), s)) (\<lambda>_ s.
     iupdate i (set_inode i (\<lambda>ip. ip\<lparr>i_size := 0\<rparr>) s)))"

definition iput :: "nat \<Rightarrow> 'a fs_scheme \<Rightarrow> (unit, 'a fs_scheme) kresult" where
  "iput i s =
     bindE (acquire_inode i s) (\<lambda>_ s.
     bindE (if i_valid (inodes s ! i) \<and> i_nlink (inodes s ! i) = 0 then
              bindE (lk_acquire IcacheLock s) (\<lambda>_ s.
                let r = i_ref (inodes s ! i) in
                bindE (lk_release IcacheLock s) (\<lambda>_ s.
                  if r = 1 then
                    bindE (itrunc i s) (\<lambda>_ s.
                    bindE (iupdate i (set_inode i (\<lambda>ip. ip\<lparr>i_type := 0\<rparr>) s)) (\<lambda>_ s.
                    Inr ((), set_inode i (\<lambda>ip. ip\<lparr>i_valid := False\<rparr>) s)))
                  else Inr ((), s)))
            else Inr ((), s)) (\<lambda>_ s.
     bindE (release_inode i s) (\<lambda>_ s.
     bindE (lk_acquire IcacheLock s) (\<lambda>_ s.
     lk_release IcacheLock (set_inode i (\<lambda>ip. ip\<lparr>i_ref := i_ref ip - 1\<rparr>) s)))))"

definition iunlockput :: "nat \<Rightarrow> 'a fs_scheme \<Rightarrow> (unit, 'a fs_scheme) kresult" where
  "iunlockput i s = bindE (iunlock (Some i) s) (\<lambda>_ s. iput i s)"

definition stati :: "nat \<Rightarrow> 'a fs_scheme \<Rightarrow> stat" where
  "stati i s =
     (let ip = inodes s ! i in
      \<lparr>st_type = i_type ip, st_dev = i_dev ip, st_ino = i_inum ip, st_nlink = i_nlink ip,
       st_size = i_size ip\<rparr>)"

text \<open>The bytes \<open>[o1, o1 + m)\<close> of a block, and a block with bytes stored at \<open>o1\<close>.\<close>

definition bytes_at :: "block \<Rightarrow> nat \<Rightarrow> nat \<Rightarrow> u8 list" where
  "bytes_at d o1 m = map (\<lambda>k. d (o1 + k)) [0..<m]"

definition put_bytes :: "block \<Rightarrow> nat \<Rightarrow> u8 list \<Rightarrow> block" where
  "put_bytes d o1 bs = (\<lambda>k. if o1 \<le> k \<and> k < o1 + length bs then bs ! (k - o1) else d k)"

definition bsize :: u32 where "bsize = of_nat BSIZE"

text \<open>The number of bytes moved in one turn of the loops of \<open>readi\<close> and \<open>writei\<close>.\<close>

definition chunk :: "u32 \<Rightarrow> u32 \<Rightarrow> u32 \<Rightarrow> u32" where
  "chunk n tot off = (if n - tot < bsize - off mod bsize then n - tot else bsize - off mod bsize)"

lemma chunk_pos:
  assumes "tot < n"
  shows "0 < chunk n tot off" and "chunk n tot off \<le> n - tot"
proof -
  have b: "off mod bsize < bsize" by (simp add: bsize_def BSIZE_def word_mod_less_divisor)
  have "bsize - off mod bsize \<noteq> 0" using b by auto
  then have "0 < bsize - off mod bsize" by (simp add: word_gt_0)
  moreover have "0 < n - tot" using assms by unat_arith
  ultimately show "0 < chunk n tot off" by (simp add: chunk_def)
  show "chunk n tot off \<le> n - tot" by (simp add: chunk_def not_less)
qed

lemma chunk_measure: "tot < n \<Longrightarrow> unat (n - (tot + chunk n tot off)) < unat (n - tot)"
proof -
  assume "tot < n"
  note c = chunk_pos [OF this, of off]
  have e: "n - (tot + chunk n tot off) = (n - tot) - chunk n tot off" by simp
  have "unat (n - (tot + chunk n tot off)) = unat (n - tot) - unat (chunk n tot off)"
    unfolding e by (rule unat_sub [OF c(2)])
  moreover have "0 < unat (chunk n tot off)" "unat (chunk n tot off) \<le> unat (n - tot)"
    using c by (simp_all add: word_less_nat_alt word_le_nat_alt)
  ultimately show ?thesis by linarith
qed

function readi_loop :: "nat \<Rightarrow> u32 \<Rightarrow> u32 \<Rightarrow> u32 \<Rightarrow> 'a fs_scheme \<Rightarrow> (u8 list, 'a fs_scheme) kresult" where
  "readi_loop i tot off n s =
     (if tot < n then
        bindE (bmap i (off div bsize) s) (\<lambda>a s.
        bindE (bread (i_dev (inodes s ! i)) a s) (\<lambda>bp s.
          let m = chunk n tot off;
              bs = bytes_at (b_data (bufs s ! bp)) (unat (off mod bsize)) (unat m) in
          bindE (brelse bp s) (\<lambda>_ s.
          bindE (readi_loop i (tot + m) (off + m) n s) (\<lambda>rest s. Inr (bs @ rest, s)))))
      else Inr ([], s))"
  by pat_completeness auto
termination
  by (relation "measure (\<lambda>(i, tot, off, n, s). unat (n - tot))") (auto simp: chunk_measure)

declare readi_loop.simps [simp del]

type_synonym 's dev_read = "int \<Rightarrow> (nat \<Rightarrow> u32 \<Rightarrow> 's \<Rightarrow> (int \<times> u8 list, 's) kresult) option"
type_synonym 's dev_write = "int \<Rightarrow> (nat \<Rightarrow> u8 list \<Rightarrow> u32 \<Rightarrow> 's \<Rightarrow> (int, 's) kresult) option"

definition readi :: "'a fs_scheme dev_read \<Rightarrow> nat \<Rightarrow> u32 \<Rightarrow> u32 \<Rightarrow> 'a fs_scheme \<Rightarrow>
    (int \<times> u8 list, 'a fs_scheme) kresult" where
  "readi devs i off n s =
     (let ip = inodes s ! i; major = sint (i_major ip) in
      if i_type ip = T_DEV then
        (if major < 0 \<or> major \<ge> NDEV then Inr ((-1, []), s)
         else case devs major of
                None \<Rightarrow> Inr ((-1, []), s)
              | Some rd \<Rightarrow> rd i n s)
      else if off > i_size ip \<or> off + n < off then Inr ((-1, []), s)
      else
        let n = (if off + n > i_size ip then i_size ip - off else n) in
        bindE (readi_loop i 0 off n s) (\<lambda>bs s. Inr ((sint n, bs), s)))"

function writei_loop :: "nat \<Rightarrow> u8 list \<Rightarrow> u32 \<Rightarrow> u32 \<Rightarrow> u32 \<Rightarrow> 'a fs_scheme \<Rightarrow> (u32, 'a fs_scheme) kresult" where
  "writei_loop i src tot off n s =
     (if tot < n then
        bindE (bmap i (off div bsize) s) (\<lambda>a s.
        bindE (bread (i_dev (inodes s ! i)) a s) (\<lambda>bp s.
          let m = chunk n tot off;
              d = put_bytes (b_data (bufs s ! bp)) (unat (off mod bsize)) (take (unat m) src) in
          bindE (log_write bp (set_data bp d s)) (\<lambda>_ s.
          bindE (brelse bp s) (\<lambda>_ s.
          writei_loop i (drop (unat m) src) (tot + m) (off + m) n s))))
      else Inr (off, s))"
  by pat_completeness auto
termination
  by (relation "measure (\<lambda>(i, src, tot, off, n, s). unat (n - tot))") (auto simp: chunk_measure)

declare writei_loop.simps [simp del]

definition writei :: "'a fs_scheme dev_write \<Rightarrow> nat \<Rightarrow> u8 list \<Rightarrow> u32 \<Rightarrow> u32 \<Rightarrow> 'a fs_scheme \<Rightarrow>
    (int, 'a fs_scheme) kresult" where
  "writei devs i src off n s =
     (let ip = inodes s ! i; major = sint (i_major ip) in
      if i_type ip = T_DEV then
        (if major < 0 \<or> major \<ge> NDEV then Inr (-1, s)
         else case devs major of
                None \<Rightarrow> Inr (-1, s)
              | Some wr \<Rightarrow> wr i src n s)
      else if off > i_size ip \<or> off + n < off then Inr (-1, s)
      else if off + n > of_nat (MAXFILE * BSIZE) then Inr (-1, s)
      else
        bindE (writei_loop i src 0 off n s) (\<lambda>off s.
        bindE (if n > 0 \<and> off > i_size (inodes s ! i)
               then iupdate i (set_inode i (\<lambda>ip. ip\<lparr>i_size := off\<rparr>) s)
               else Inr ((), s)) (\<lambda>_ s.
        Inr (sint n, s))))"

section \<open>Directories\<close>

definition namecmp :: "block \<Rightarrow> block \<Rightarrow> int" where
  "namecmp s t = strncmp s t DIRSIZ"

text \<open>The fields of a directory entry in its 16 bytes.\<close>

definition de_inum :: "u8 list \<Rightarrow> u16" where
  "de_inum bs = le16 (bs ! 0) (bs ! 1)"

definition de_name :: "u8 list \<Rightarrow> block" where
  "de_name bs = (\<lambda>k. bs ! (k + 2))"

definition de_bytes :: "u16 \<Rightarrow> block \<Rightarrow> u8 list" where
  "de_bytes inum name = byte16 0 inum # byte16 1 inum # map name [0..<DIRSIZ]"

text \<open>A directory is not a device, so the device table that its reads are given does not matter.\<close>

definition nodev :: "int \<Rightarrow> 'b option" where
  "nodev major = None"

lemma readi_no_wrap:
  assumes "readi nodev i off 16 s = Inr ((16, bs), s')"
  shows "unat (off + 16) = unat off + 16"
proof -
  have "\<not> off + 16 < off" using assms by (auto simp: readi_def Let_def nodev_def split: if_splits)
  then show ?thesis
    by (auto simp: word_less_nat_alt unat_plus_if' not_less split: if_splits)
qed

function dirlookup_loop :: "nat \<Rightarrow> block \<Rightarrow> u32 \<Rightarrow> 'a fs_scheme \<Rightarrow> ((nat \<times> u32) option, 'a fs_scheme) kresult" where
  "dirlookup_loop dp name off s =
     (if off < i_size (inodes s ! dp) then
        bindE (readi nodev dp off 16 s) (\<lambda>r s.
          if fst r \<noteq> 16 then Inl (Panic ''dirlookup read'')
          else if de_inum (snd r) = 0 then dirlookup_loop dp name (off + 16) s
          else if namecmp name (de_name (snd r)) = 0 then
            bindE (iget (i_dev (inodes s ! dp)) (ucast (de_inum (snd r))) s) (\<lambda>ip s.
            Inr (Some (ip, off), s))
          else dirlookup_loop dp name (off + 16) s)
      else Inr (None, s))"
  by pat_completeness auto
termination
  by (relation "measure (\<lambda>(dp, name, off, s). 2 ^ 32 - unat off)")
     (auto dest!: readi_no_wrap intro!: diff_less_mono2 unsigned_less [where ?'a = nat and ?'b = 32, simplified])

declare dirlookup_loop.simps [simp del]

definition dirlookup :: "nat \<Rightarrow> block \<Rightarrow> 'a fs_scheme \<Rightarrow> ((nat \<times> u32) option, 'a fs_scheme) kresult" where
  "dirlookup dp name s =
     (if i_type (inodes s ! dp) \<noteq> T_DIR then Inl (Panic ''dirlookup not DIR'')
      else dirlookup_loop dp name 0 s)"

text \<open>The second loop of \<open>dirlink\<close>: the offset of the first free entry, or the size.\<close>

function dirlink_loop :: "nat \<Rightarrow> u32 \<Rightarrow> 'a fs_scheme \<Rightarrow> (u32, 'a fs_scheme) kresult" where
  "dirlink_loop dp off s =
     (if off < i_size (inodes s ! dp) then
        bindE (readi nodev dp off 16 s) (\<lambda>r s.
          if fst r \<noteq> 16 then Inl (Panic ''dirlink read'')
          else if de_inum (snd r) = 0 then Inr (off, s)
          else dirlink_loop dp (off + 16) s)
      else Inr (off, s))"
  by pat_completeness auto
termination
  by (relation "measure (\<lambda>(dp, off, s). 2 ^ 32 - unat off)")
     (auto dest!: readi_no_wrap intro!: diff_less_mono2 unsigned_less [where ?'a = nat and ?'b = 32, simplified])

declare dirlink_loop.simps [simp del]

definition dirlink :: "nat \<Rightarrow> block \<Rightarrow> u32 \<Rightarrow> 'a fs_scheme \<Rightarrow> (int, 'a fs_scheme) kresult" where
  "dirlink dp name inum s =
     bindE (dirlookup dp name s) (\<lambda>r s.
       case r of
         Some (ip, _) \<Rightarrow> bindE (iput ip s) (\<lambda>_ s. Inr (-1, s))
       | None \<Rightarrow>
           bindE (dirlink_loop dp 0 s) (\<lambda>off s.
             let de = de_bytes (ucast inum) (strncpy (\<lambda>_. 0) name DIRSIZ) in
             bindE (writei nodev dp de off 16 s) (\<lambda>r s.
               if r \<noteq> 16 then Inl (Panic ''dirlink'') else Inr (0, s))))"

section \<open>Paths\<close>

definition SLASH :: u8 where "SLASH = 47"

definition skipelem :: "u8 list \<Rightarrow> block \<Rightarrow> (u8 list \<times> block) option" where
  "skipelem path name =
     (let path = dropWhile (\<lambda>c. c = SLASH) path in
      if path = [] then None
      else
        let e = takeWhile (\<lambda>c. c \<noteq> SLASH) path;
            path = dropWhile (\<lambda>c. c \<noteq> SLASH) path;
            name = (if length e \<ge> DIRSIZ then put_bytes name 0 (take DIRSIZ e)
                    else (put_bytes name 0 e)(length e := 0))
        in Some (dropWhile (\<lambda>c. c = SLASH) path, name))"

lemma skipelem_shorter: "skipelem path name = Some (rest, name') \<Longrightarrow> length rest < length path"
proof -
  assume a: "skipelem path name = Some (rest, name')"
  define p where "p = dropWhile (\<lambda>c. c = SLASH) path"
  have p: "p \<noteq> []" "rest = dropWhile (\<lambda>c. c = SLASH) (dropWhile (\<lambda>c. c \<noteq> SLASH) p)"
    using a by (auto simp: skipelem_def p_def Let_def split: if_splits)
  have "hd p \<noteq> SLASH" using p(1) hd_dropWhile [of "\<lambda>c. c = SLASH" path] by (simp add: p_def)
  then have "length (dropWhile (\<lambda>c. c \<noteq> SLASH) p) < length p"
    using p(1) length_dropWhile_le [of "\<lambda>c. c \<noteq> SLASH" "tl p"] by (cases p) auto
  moreover have "length rest \<le> length (dropWhile (\<lambda>c. c \<noteq> SLASH) p)"
    by (simp add: p(2) length_dropWhile_le)
  moreover have "length p \<le> length path" by (simp add: p_def length_dropWhile_le)
  ultimately show ?thesis by linarith
qed

text \<open>The loop of \<open>namex\<close>; the result is the inode and the contents of the \<open>name\<close> buffer.\<close>

function namex_loop :: "nat \<Rightarrow> u8 list \<Rightarrow> bool \<Rightarrow> block \<Rightarrow> 'a fs_scheme \<Rightarrow>
    ((nat option \<times> block), 'a fs_scheme) kresult" where
  "namex_loop ip path parent name s =
     (case skipelem path name of
        None \<Rightarrow>
          if parent then bindE (iput ip s) (\<lambda>_ s. Inr ((None, name), s))
          else Inr ((Some ip, name), s)
      | Some (path, name) \<Rightarrow>
          bindE (ilock (Some ip) s) (\<lambda>_ s.
            if i_type (inodes s ! ip) \<noteq> T_DIR then
              bindE (iunlockput ip s) (\<lambda>_ s. Inr ((None, name), s))
            else if parent \<and> path = [] then
              bindE (iunlock (Some ip) s) (\<lambda>_ s. Inr ((Some ip, name), s))
            else
              bindE (dirlookup ip name s) (\<lambda>r s.
                case r of
                  None \<Rightarrow> bindE (iunlockput ip s) (\<lambda>_ s. Inr ((None, name), s))
                | Some (next, _) \<Rightarrow>
                    bindE (iunlockput ip s) (\<lambda>_ s. namex_loop next path parent name s))))"
  by pat_completeness auto
termination
  by (relation "measure (\<lambda>(ip, path, parent, name, s). length path)") (auto simp: skipelem_shorter)

declare namex_loop.simps [simp del]

definition namex :: "u8 list \<Rightarrow> bool \<Rightarrow> block \<Rightarrow> 'a fs_scheme \<Rightarrow>
    ((nat option \<times> block), 'a fs_scheme) kresult" where
  "namex path parent name s =
     bindE (if path \<noteq> [] \<and> hd path = SLASH then iget ROOTDEV ROOTINO s
            else case cur s of
                   None \<Rightarrow> Inl BadAccess
                 | Some p \<Rightarrow>
                     (case p_cwd (ptable s ! p) of
                        None \<Rightarrow> Inl BadAccess
                      | Some c \<Rightarrow> idup c s)) (\<lambda>ip s.
     namex_loop ip path parent name s)"

text \<open>The local \<open>name\<close> buffer of \<open>namei\<close> is not initialised; \<open>namex\<close> writes it before it reads it.\<close>

definition namei :: "u8 list \<Rightarrow> 'a fs_scheme \<Rightarrow> (nat option, 'a fs_scheme) kresult" where
  "namei path s = bindE (namex path False (\<lambda>_. 0) s) (\<lambda>r s. Inr (fst r, s))"

definition nameiparent :: "u8 list \<Rightarrow> block \<Rightarrow> 'a fs_scheme \<Rightarrow>
    ((nat option \<times> block), 'a fs_scheme) kresult" where
  "nameiparent path name s = namex path True name s"

section \<open>The lock in an inode\<close>

interpretation inode_cell: sleeplock_cell "InodeLk i" "ChInodeLock i" "inode_lock i" "set_inode_lock i"
    "\<lambda>s. i < length (inodes s)"
  by unfold_locales (simp_all add: inode_lock_def set_inode_lock_def set_inode_def)

end
