(* ===== verification/Kbd.thy ===== *)
theory Kbd
  imports Console
begin

text \<open>
  The keyboard (\<open>kbd.c\<close>, \<open>kbd.h\<close>): scan codes to characters, with the state of the shift, control
  and lock keys.  \<open>kbd_in\<close> is the queue of the keyboard controller: its status port says that
  there is data when the queue is not empty, and its data port delivers the first byte.
\<close>

section \<open>Key tables\<close>

definition SHIFT :: u32 where "SHIFT = 1"
definition CTL :: u32 where "CTL = 2"
definition ALT :: u32 where "ALT = 4"
definition CAPSLOCK :: u32 where "CAPSLOCK = 8"
definition NUMLOCK :: u32 where "NUMLOCK = 16"
definition SCROLLLOCK :: u32 where "SCROLLLOCK = 32"
definition E0ESC :: u32 where "E0ESC = 64"

definition assoc :: "(nat \<times> 'v) list \<Rightarrow> 'v \<Rightarrow> nat \<Rightarrow> 'v" where
  "assoc xs d k = (case map_of xs k of None \<Rightarrow> d | Some v \<Rightarrow> v)"

definition shiftcode :: "nat \<Rightarrow> u32" where
  "shiftcode = assoc [(0x1D, CTL), (0x2A, SHIFT), (0x36, SHIFT), (0x38, ALT), (0x9D, CTL), (0xB8, ALT)] 0"

definition togglecode :: "nat \<Rightarrow> u32" where
  "togglecode = assoc [(0x3A, CAPSLOCK), (0x45, NUMLOCK), (0x46, SCROLLLOCK)] 0"

text \<open>The rows of a table that are written out, and its designated entries.\<close>

definition table :: "u8 list \<Rightarrow> (nat \<times> u8) list \<Rightarrow> nat \<Rightarrow> u8" where
  "table rows ext k = (if k < length rows then rows ! k else assoc ext 0 k)"

definition key_pad :: "(nat \<times> u8) list" where
  "key_pad = [(0xC8, 0xE2), (0xD0, 0xE3), (0xC9, 0xE6), (0xD1, 0xE7), (0xCB, 0xE4), (0xCD, 0xE5),
              (0x97, 0xE0), (0xCF, 0xE1), (0xD2, 0xE8), (0xD3, 0xE9)]"

definition normalmap :: "nat \<Rightarrow> u8" where
  "normalmap = table
     ([0, 0x1B] @ bytes ''1234567890-='' @ [8, 9] @ bytes ''qwertyuiop[]'' @ [10, 0] @
      bytes ''asdfghjkl;'' @ [39, 96, 0, 92] @ bytes ''zxcvbnm,./'' @ [0] @ bytes ''*'' @
      [0] @ bytes '' '' @ replicate 13 0 @ bytes ''789-456+1230.'' @ replicate 4 0)
     ([(0x9C, 10), (0xB5, of_char CHR ''/'')] @ key_pad)"

definition shiftmap :: "nat \<Rightarrow> u8" where
  "shiftmap = table
     ([0, 27] @ bytes ''!@#$%^&*()_+'' @ [8, 9] @ bytes ''QWERTYUIOP{}'' @ [10, 0] @
      bytes ''ASDFGHJKL:'' @ [34] @ bytes ''~'' @ [0] @ bytes ''|ZXCVBNM<>?'' @ [0] @ bytes ''*'' @
      [0] @ bytes '' '' @ replicate 13 0 @ bytes ''789-456+1230.'' @ replicate 4 0)
     ([(0x9C, 10), (0xB5, of_char CHR ''/'')] @ key_pad)"

text \<open>The control character of a key, \<open>C(x)\<close>.\<close>

definition ctl :: "string \<Rightarrow> u8 list" where
  "ctl cs = map (\<lambda>c. of_char c - 64) cs"

definition ctlmap :: "nat \<Rightarrow> u8" where
  "ctlmap = table
     (replicate 16 0 @ ctl ''QWERTYUIOP'' @ [0, 0, 13, 0] @ ctl ''ASDFGHJKL'' @ [0, 0, 0, 0] @
      [28] @ ctl ''ZXCVBNM'' @ [0, 0] @ ctl ''/'' @ [0, 0])
     ([(0x9C, 13), (0xB5, of_char CHR ''/'' - 64)] @ key_pad)"

definition charcode :: "u32 \<Rightarrow> nat \<Rightarrow> u8" where
  "charcode k = [normalmap, shiftmap, ctlmap, ctlmap] ! unat k"

section \<open>Reading a character\<close>

definition swap_case :: "u32 \<Rightarrow> u32" where
  "swap_case c = (if 97 \<le> c \<and> c \<le> 122 then c + 65 - 97
                  else if 65 \<le> c \<and> c \<le> 90 then c + 97 - 65 else c)"

definition kbdgetc :: "'a cons_scheme \<Rightarrow> int \<times> 'a cons_scheme" where
  "kbdgetc s =
     (case kbd_in s of
        [] \<Rightarrow> (-1, s)
      | b # bs \<Rightarrow>
          let s = s\<lparr>kbd_in := bs\<rparr>; data = ucast b :: u32; shift = kbd_shift s in
          if data = 0xE0 then (0, s\<lparr>kbd_shift := shift OR E0ESC\<rparr>)
          else if data AND 0x80 \<noteq> 0 then
            let data = (if shift AND E0ESC \<noteq> 0 then data else data AND 0x7F)
            in (0, s\<lparr>kbd_shift := shift AND NOT (shiftcode (unat data) OR E0ESC)\<rparr>)
          else
            let esc = (shift AND E0ESC \<noteq> 0);
                data = (if esc then data OR 0x80 else data);
                shift = (if esc then shift AND NOT E0ESC else shift);
                shift = (shift OR shiftcode (unat data)) XOR togglecode (unat data);
                c = ucast (charcode (shift AND (CTL OR SHIFT)) (unat data)) :: u32
            in (sint (if shift AND CAPSLOCK \<noteq> 0 then swap_case c else c), s\<lparr>kbd_shift := shift\<rparr>))"

end
