(* ===== verification/Consdev.thy ===== *)
theory Consdev
  imports Fs Kbd
begin

text \<open>
  Console input and the console as a device (the input half of \<open>console.c\<close>, \<open>procdump\<close> of \<open>proc.c\<close>).
  \<open>inp_buf\<close> is a ring indexed by three free-running counters: \<open>inp_r\<close> and \<open>inp_w\<close> delimit the
  lines that a reader may take, \<open>inp_w\<close> and \<open>inp_e\<close> the line that is being edited.
\<close>

section \<open>Process listing\<close>

definition state_name :: "procstate \<Rightarrow> string" where
  "state_name st = (case st of UNUSED \<Rightarrow> ''unused'' | EMBRYO \<Rightarrow> ''embryo'' | SLEEPING \<Rightarrow> ''sleep ''
     | RUNNABLE \<Rightarrow> ''runble'' | RUNNING \<Rightarrow> ''run   '' | ZOMBIE \<Rightarrow> ''zombie'')"

fun print_pcs :: "u32 list \<Rightarrow> 'a cons_scheme \<Rightarrow> (unit, 'a cons_scheme) kresult" where
  "print_pcs [] s = Inr ((), s)"
| "print_pcs (pc # pcs) s =
     (if pc = 0 then Inr ((), s)
      else bindE (cprintf (msg '' %p'') [AInt pc] s) (\<lambda>_ s. print_pcs pcs s))"

text \<open>The saved frame pointer is the word at offset 12 of the \<open>context\<close>; the memory is kernel memory.\<close>

fun procdump_loop :: "nat list \<Rightarrow> 'a kmem_scheme \<Rightarrow> (unit, 'a kmem_scheme) kresult" where
  "procdump_loop [] s = Inr ((), s)"
| "procdump_loop (i # is) s =
     (let p = ptable s ! i in
      if p_state p = UNUSED then procdump_loop is s
      else
        bindE (cprintf (msg ''%d %s %s'')
                 [AInt (p_pid p), AStr (Some (bytes (state_name (p_state p)))), AStr (Some (p_name p))] s) (\<lambda>_ s.
        bindE (if p_state p = SLEEPING
               then print_pcs (callerpcs (get32 (mem s)) 10 (get32 (mem s) (p_context p + 12))) s
               else Inr ((), s)) (\<lambda>_ s.
        bindE (cprintf (msg ''!'') [] s) (\<lambda>_ s. procdump_loop is s))))"

definition procdump :: "'a kmem_scheme \<Rightarrow> (unit, 'a kmem_scheme) kresult" where
  "procdump s = procdump_loop [0..<NPROC] s"

section \<open>Input\<close>

definition INPUT_BUF :: u32 where "INPUT_BUF = 128"

definition ring :: "u32 \<Rightarrow> nat" where
  "ring k = unat (k mod INPUT_BUF)"

lemma consputc_inp:
  assumes "consputc c s = Inr (u, s')"
  shows "inp_e s' = inp_e s" "inp_w s' = inp_w s" "inp_r s' = inp_r s" "inp_buf s' = inp_buf s"
    "kbd_in s' = kbd_in s" "com1_in s' = com1_in s" "klk s' = klk s" "cur s' = cur s" "ptable s' = ptable s"
  using consputc_frame [OF assms] by auto

text \<open>The \<open>Kill line\<close> loop.\<close>

function kill_line :: "'a cons_scheme \<Rightarrow> (unit, 'a cons_scheme) kresult" where
  "kill_line s =
     (if inp_e s \<noteq> inp_w s \<and> inp_buf s (ring (inp_e s - 1)) \<noteq> 10 then
        bindE (consputc BACKSPACE (s\<lparr>inp_e := inp_e s - 1\<rparr>)) (\<lambda>_ s. kill_line s)
      else Inr ((), s))"
  by pat_completeness auto
termination
proof (relation "measure (\<lambda>s. unat (inp_e s - inp_w s))", goal_cases)
  case (2 s u s')
  have "inp_e s - inp_w s \<noteq> 0" using 2(1) by auto
  then have "unat (inp_e s - inp_w s - 1) < unat (inp_e s - inp_w s)"
    by (simp add: measure_unat)
  then show ?case using consputc_inp [OF 2(2)] by (simp add: diff_right_commute)
qed simp

declare kill_line.simps [simp del]

text \<open>The handling of one character of \<open>consoleintr\<close>; the result says whether to list the processes.\<close>

definition consoleintr_char :: "int \<Rightarrow> 'a cons_scheme \<Rightarrow> (bool, 'a cons_scheme) kresult" where
  "consoleintr_char c s =
     (if c = 16 then Inr (True, s)
      else if c = 21 then bindE (kill_line s) (\<lambda>_ s. Inr (False, s))
      else if c = 8 \<or> c = 0x7f then
        (if inp_e s \<noteq> inp_w s
         then bindE (consputc BACKSPACE (s\<lparr>inp_e := inp_e s - 1\<rparr>)) (\<lambda>_ s. Inr (False, s))
         else Inr (False, s))
      else if c \<noteq> 0 \<and> inp_e s - inp_r s < INPUT_BUF then
        let c = (if c = 13 then 10 else c);
            s = s\<lparr>inp_buf := (inp_buf s)(ring (inp_e s) := of_int c), inp_e := inp_e s + 1\<rparr> in
        bindE (consputc c s) (\<lambda>_ s.
          if c = 10 \<or> c = 4 \<or> inp_e s = inp_r s + INPUT_BUF
          then bindE (wakeup ChInput (s\<lparr>inp_w := inp_e s\<rparr>)) (\<lambda>_ s. Inr (False, s))
          else Inr (False, s))
      else Inr (False, s))"

text \<open>The loop over \<open>getc\<close>.  Each character takes a byte from one of the two hardware queues, so
  the number of pending bytes bounds the number of turns.\<close>

fun consoleintr_loop ::
  "('a cons_scheme \<Rightarrow> int \<times> 'a cons_scheme) \<Rightarrow> nat \<Rightarrow> bool \<Rightarrow> 'a cons_scheme \<Rightarrow>
     (bool, 'a cons_scheme) kresult" where
  "consoleintr_loop getc 0 dump s = Inl Diverges"
| "consoleintr_loop getc (Suc n) dump s =
     (case getc s of (c, s) \<Rightarrow>
        if c \<ge> 0 then bindE (consoleintr_char c s) (\<lambda>d s. consoleintr_loop getc n (dump \<or> d) s)
        else Inr (dump, s))"

definition consoleintr ::
  "('a kmem_scheme \<Rightarrow> int \<times> 'a kmem_scheme) \<Rightarrow> 'a kmem_scheme \<Rightarrow> (unit, 'a kmem_scheme) kresult" where
  "consoleintr getc s =
     bindE (lk_acquire ConsLock s) (\<lambda>_ s.
     bindE (consoleintr_loop getc (Suc (length (kbd_in s) + length (com1_in s))) False s) (\<lambda>dump s.
     bindE (lk_release ConsLock s) (\<lambda>_ s.
       if dump then procdump s else Inr ((), s))))"

definition kbdintr :: "'a kmem_scheme \<Rightarrow> (unit, 'a kmem_scheme) kresult" where
  "kbdintr s = consoleintr kbdgetc s"

definition uartintr :: "'a kmem_scheme \<Rightarrow> (unit, 'a kmem_scheme) kresult" where
  "uartintr s = consoleintr uartgetc s"

section \<open>The console as a device\<close>

text \<open>\<open>consoleread\<close> is cut into sections at its calls of \<open>sleep\<close>.  Its loop ends with the end of a line, of the
  input or of the request, because the process was killed, or in a call of \<open>sleep\<close>; the bytes stored so far come with
  the result, and \<open>n\<close> less their number is the value of the variable \<open>n\<close> then.\<close>

datatype wait_end = Finished | Killed | Waits

fun consoleread_loop :: "nat \<Rightarrow> nat \<Rightarrow> 'a cons_scheme \<Rightarrow> (wait_end \<times> u8 list, 'a cons_scheme) kresult" where
  "consoleread_loop 0 target s = Inr ((Finished, []), s)"
| "consoleread_loop (Suc n) target s =
     (if inp_r s = inp_w s then
        (case cur s of
           None \<Rightarrow> Inl BadAccess
         | Some p \<Rightarrow>
             if p_killed (ptable s ! p) then Inr ((Killed, []), s)
             else bindE (sleep_enter ChInput (Some ConsLock) s) (\<lambda>_ s. Inr ((Waits, []), s)))
      else
        let c = inp_buf s (ring (inp_r s)); s = s\<lparr>inp_r := inp_r s + 1\<rparr> in
        if c = 4 then
          Inr ((Finished, []), if Suc n < target then s\<lparr>inp_r := inp_r s - 1\<rparr> else s)
        else if c = 10 then Inr ((Finished, [c]), s)
        else bindE (consoleread_loop n target s) (\<lambda>r s. Inr ((fst r, c # snd r), s)))"

text \<open>The section from the call to the end of the loop or the first \<open>sleep\<close>; the one from the return of \<open>sleep\<close> in
  process \<open>p\<close>, with \<open>n\<close> bytes of \<open>target\<close> still wanted, to the end of the loop or the next \<open>sleep\<close>; and what follows the
  loop, with \<open>n\<close> bytes still wanted.\<close>

definition consoleread_enter ::
  "nat \<Rightarrow> u32 \<Rightarrow> 'a fs_scheme \<Rightarrow> (wait_end \<times> u8 list, 'a fs_scheme) kresult" where
  "consoleread_enter ip n s =
     bindE (iunlock (Some ip) s) (\<lambda>_ s.
     bindE (lk_acquire ConsLock s) (\<lambda>_ s.
     consoleread_loop (nat (sint n)) (nat (sint n)) s))"

definition consoleread_resume ::
  "nat \<Rightarrow> nat \<Rightarrow> nat \<Rightarrow> 'a fs_scheme \<Rightarrow> (wait_end \<times> u8 list, 'a fs_scheme) kresult" where
  "consoleread_resume p n target s =
     bindE (sleep_return p ConsLock s) (\<lambda>_ s. consoleread_loop n target s)"

definition consoleread_leave ::
  "nat \<Rightarrow> wait_end \<Rightarrow> nat \<Rightarrow> nat \<Rightarrow> 'a fs_scheme \<Rightarrow> (int, 'a fs_scheme) kresult" where
  "consoleread_leave ip e n target s =
     bindE (lk_release ConsLock s) (\<lambda>_ s.
     bindE (ilock (Some ip) s) (\<lambda>_ s.
     Inr (if e = Killed then -1 else int target - int n, s)))"

text \<open>A call that does not sleep; one that does is \<open>Blocked\<close> and goes on with \<open>consoleread_resume\<close>.\<close>

definition consoleread :: "nat \<Rightarrow> u32 \<Rightarrow> 'a fs_scheme \<Rightarrow> (int \<times> u8 list, 'a fs_scheme) kresult" where
  "consoleread ip n s =
     bindE (consoleread_enter ip n s) (\<lambda>r s.
       case r of (e, bs) \<Rightarrow>
         if e = Waits then Inl (Blocked ChInput)
         else
           bindE (consoleread_leave ip e (nat (sint n) - length bs) (nat (sint n)) s) (\<lambda>r s.
           Inr ((r, bs), s)))"

definition consolewrite :: "nat \<Rightarrow> u8 list \<Rightarrow> u32 \<Rightarrow> 'a fs_scheme \<Rightarrow> (int, 'a fs_scheme) kresult" where
  "consolewrite ip buf n s =
     bindE (iunlock (Some ip) s) (\<lambda>_ s.
     bindE (lk_acquire ConsLock s) (\<lambda>_ s.
     bindE (consputs (map uint (take (nat (sint n)) buf)) s) (\<lambda>_ s.
     bindE (lk_release ConsLock s) (\<lambda>_ s.
     bindE (ilock (Some ip) s) (\<lambda>_ s.
     Inr (sint n, s))))))"

definition CONSOLE :: int where "CONSOLE = 1"

text \<open>The device table after \<open>consoleinit\<close>.\<close>

definition devsw_read :: "'a fs_scheme dev_read" where
  "devsw_read major = (if major = CONSOLE then Some consoleread else None)"

definition devsw_write :: "'a fs_scheme dev_write" where
  "devsw_write major = (if major = CONSOLE then Some consolewrite else None)"

definition consoleinit :: "'a cons_scheme \<Rightarrow> 'a cons_scheme" where
  "consoleinit s =
     ioapicenable IRQ_KBD 0 (s\<lparr>klk := klk s - {ConsLock}, cons_locking := True\<rparr>)"

end
