(* ===== verification/File.thy ===== *)
theory File
  imports Consdev
begin

text \<open>
  Pipes and the file table (\<open>pipe.c\<close>, \<open>file.c\<close>).  A pipe is named by the address of the page it
  lives in, an open file by its index in the file table.  The loops of \<open>pipewrite\<close> and \<open>piperead\<close>
  are cut where they call \<open>sleep\<close>: a section runs until the routine returns or sleeps, and a
  process that is woken goes on with \<open>sleep_return\<close> and the next section.  A read returns its
  result and the bytes it stores at the destination.
\<close>

section \<open>Data\<close>

definition PIPESIZE :: u32 where "PIPESIZE = 512"
definition NFILE :: nat where "NFILE = 100"

record pipe =
  pi_data :: "nat \<Rightarrow> u8"
  nread :: u32
  nwrite :: u32
  readopen :: bool
  writeopen :: bool

datatype fdtype = FD_NONE | FD_PIPE | FD_INODE

record kfile =
  f_type :: fdtype
  f_ref :: int
  f_readable :: bool
  f_writable :: bool
  f_pipe :: u32
  f_ip :: nat
  f_off :: u32

record ftab = fs +
  ftable :: "kfile list"
  pipes :: "u32 \<Rightarrow> pipe"

definition set_file :: "nat \<Rightarrow> (kfile \<Rightarrow> kfile) \<Rightarrow> 'a ftab_scheme \<Rightarrow> 'a ftab_scheme" where
  "set_file f g s = s\<lparr>ftable := (ftable s)[f := g (ftable s ! f)]\<rparr>"

definition set_pipe :: "u32 \<Rightarrow> (pipe \<Rightarrow> pipe) \<Rightarrow> 'a ftab_scheme \<Rightarrow> 'a ftab_scheme" where
  "set_pipe p g s = s\<lparr>pipes := (pipes s)(p := g (pipes s p))\<rparr>"

definition myproc_killed :: "'a ptab_scheme \<Rightarrow> (bool, 'a ptab_scheme) kresult" where
  "myproc_killed s = (case cur s of None \<Rightarrow> Inl BadAccess | Some p \<Rightarrow> Inr (p_killed (ptable s ! p), s))"

section \<open>Pipes\<close>

definition pipeclose :: "u32 \<Rightarrow> bool \<Rightarrow> 'a ftab_scheme \<Rightarrow> (unit, 'a ftab_scheme) kresult" where
  "pipeclose p writable s =
     bindE (lk_acquire (PipeLock p) s) (\<lambda>_ s.
     bindE (if writable then wakeup (ChNread p) (set_pipe p (\<lambda>q. q\<lparr>writeopen := False\<rparr>) s)
            else wakeup (ChNwrite p) (set_pipe p (\<lambda>q. q\<lparr>readopen := False\<rparr>) s)) (\<lambda>_ s.
     bindE (lk_release (PipeLock p) s) (\<lambda>_ s.
       if \<not> readopen (pipes s p) \<and> \<not> writeopen (pipes s p) then kfree p s else Inr ((), s))))"

definition pipe_full :: "pipe \<Rightarrow> bool" where
  "pipe_full q \<longleftrightarrow> nwrite q = nread q + PIPESIZE"

definition pipe_put :: "u8 \<Rightarrow> pipe \<Rightarrow> pipe" where
  "pipe_put b q = q\<lparr>pi_data := (pi_data q)(unat (nwrite q mod PIPESIZE) := b), nwrite := nwrite q + 1\<rparr>"

definition pipe_get :: "pipe \<Rightarrow> u8 \<times> pipe" where
  "pipe_get q = (pi_data q (unat (nread q mod PIPESIZE)), q\<lparr>nread := nread q + 1\<rparr>)"

text \<open>How a section of \<open>pipewrite\<close> ends: with a result, or asleep with the bytes still to write.\<close>

datatype pw_end = PwDone int | PwSleeps "u8 list"

fun pipewrite_loop :: "u32 \<Rightarrow> u8 list \<Rightarrow> int \<Rightarrow> 'a ftab_scheme \<Rightarrow> (pw_end, 'a ftab_scheme) kresult" where
  "pipewrite_loop p [] n s =
     bindE (wakeup (ChNread p) s) (\<lambda>_ s.
     bindE (lk_release (PipeLock p) s) (\<lambda>_ s. Inr (PwDone n, s)))"
| "pipewrite_loop p (b # bs) n s =
     (if pipe_full (pipes s p) then
        bindE (if \<not> readopen (pipes s p) then Inr (True, s) else myproc_killed s) (\<lambda>stop s.
          if stop then bindE (lk_release (PipeLock p) s) (\<lambda>_ s. Inr (PwDone (-1), s))
          else
            bindE (wakeup (ChNread p) s) (\<lambda>_ s.
            bindE (sleep_enter (ChNwrite p) (Some (PipeLock p)) s) (\<lambda>_ s.
            Inr (PwSleeps (b # bs), s))))
      else pipewrite_loop p bs n (set_pipe p (pipe_put b) s))"

definition pipewrite :: "u32 \<Rightarrow> u8 list \<Rightarrow> int \<Rightarrow> 'a ftab_scheme \<Rightarrow> (int, 'a ftab_scheme) kresult" where
  "pipewrite p addr n s =
     bindE (lk_acquire (PipeLock p) s) (\<lambda>_ s.
     bindE (pipewrite_loop p (take (nat n) addr) n s) (\<lambda>e s.
       case e of PwDone r \<Rightarrow> Inr (r, s) | PwSleeps _ \<Rightarrow> Inl (Blocked (ChNwrite p))))"

fun piperead_copy :: "u32 \<Rightarrow> nat \<Rightarrow> 'a ftab_scheme \<Rightarrow> u8 list \<times> 'a ftab_scheme" where
  "piperead_copy p 0 s = ([], s)"
| "piperead_copy p (Suc n) s =
     (if nread (pipes s p) = nwrite (pipes s p) then ([], s)
      else case pipe_get (pipes s p) of (b, q) \<Rightarrow>
             (case piperead_copy p n (set_pipe p (\<lambda>_. q) s) of (bs, s) \<Rightarrow> (b # bs, s)))"

text \<open>A section of \<open>piperead\<close>: \<open>None\<close> if it sleeps.\<close>

definition piperead_sect :: "u32 \<Rightarrow> int \<Rightarrow> 'a ftab_scheme \<Rightarrow> ((int \<times> u8 list) option, 'a ftab_scheme) kresult" where
  "piperead_sect p n s =
     (if nread (pipes s p) = nwrite (pipes s p) \<and> writeopen (pipes s p) then
        bindE (myproc_killed s) (\<lambda>k s.
          if k then bindE (lk_release (PipeLock p) s) (\<lambda>_ s. Inr (Some (-1, []), s))
          else bindE (sleep_enter (ChNread p) (Some (PipeLock p)) s) (\<lambda>_ s. Inr (None, s)))
      else
        case piperead_copy p (nat n) s of (bs, s) \<Rightarrow>
          bindE (wakeup (ChNwrite p) s) (\<lambda>_ s.
          bindE (lk_release (PipeLock p) s) (\<lambda>_ s. Inr (Some (int (length bs), bs), s))))"

definition piperead :: "u32 \<Rightarrow> int \<Rightarrow> 'a ftab_scheme \<Rightarrow> (int \<times> u8 list, 'a ftab_scheme) kresult" where
  "piperead p n s =
     bindE (lk_acquire (PipeLock p) s) (\<lambda>_ s.
     bindE (piperead_sect p n s) (\<lambda>r s.
       case r of Some x \<Rightarrow> Inr (x, s) | None \<Rightarrow> Inl (Blocked (ChNread p))))"

section \<open>The file table\<close>

definition fileinit :: "'a ftab_scheme \<Rightarrow> 'a ftab_scheme" where
  "fileinit s = s\<lparr>klk := klk s - {FtableLock}\<rparr>"

definition filealloc :: "'a ftab_scheme \<Rightarrow> (nat option, 'a ftab_scheme) kresult" where
  "filealloc s =
     bindE (lk_acquire FtableLock s) (\<lambda>_ s.
       case first_index (\<lambda>f. f_ref f = 0) (ftable s) of
         Some f \<Rightarrow>
           bindE (lk_release FtableLock (set_file f (\<lambda>x. x\<lparr>f_ref := 1\<rparr>) s)) (\<lambda>_ s. Inr (Some f, s))
       | None \<Rightarrow> bindE (lk_release FtableLock s) (\<lambda>_ s. Inr (None, s)))"

definition filedup :: "nat \<Rightarrow> 'a ftab_scheme \<Rightarrow> (nat, 'a ftab_scheme) kresult" where
  "filedup f s =
     bindE (lk_acquire FtableLock s) (\<lambda>_ s.
       if f_ref (ftable s ! f) < 1 then Inl (Panic ''filedup'')
       else
         bindE (lk_release FtableLock (set_file f (\<lambda>x. x\<lparr>f_ref := f_ref x + 1\<rparr>) s)) (\<lambda>_ s. Inr (f, s)))"

definition fileclose :: "nat \<Rightarrow> 'a ftab_scheme \<Rightarrow> (unit, 'a ftab_scheme) kresult" where
  "fileclose f s =
     bindE (lk_acquire FtableLock s) (\<lambda>_ s.
       if f_ref (ftable s ! f) < 1 then Inl (Panic ''fileclose'')
       else
         let s = set_file f (\<lambda>x. x\<lparr>f_ref := f_ref x - 1\<rparr>) s in
         if f_ref (ftable s ! f) > 0 then lk_release FtableLock s
         else
           let ff = ftable s ! f; s = set_file f (\<lambda>x. x\<lparr>f_ref := 0, f_type := FD_NONE\<rparr>) s in
           bindE (lk_release FtableLock s) (\<lambda>_ s.
             if f_type ff = FD_PIPE then pipeclose (f_pipe ff) (f_writable ff) s
             else if f_type ff = FD_INODE then
               bindE (begin_op s) (\<lambda>_ s. bindE (iput (f_ip ff) s) (\<lambda>_ s. end_op s))
             else Inr ((), s)))"

definition filestat :: "nat \<Rightarrow> 'a ftab_scheme \<Rightarrow> (stat option, 'a ftab_scheme) kresult" where
  "filestat f s =
     (if f_type (ftable s ! f) = FD_INODE then
        let ip = f_ip (ftable s ! f) in
        bindE (ilock (Some ip) s) (\<lambda>_ s.
          let st = stati ip s in
          bindE (iunlock (Some ip) s) (\<lambda>_ s. Inr (Some st, s)))
      else Inr (None, s))"

definition fileread :: "nat \<Rightarrow> int \<Rightarrow> 'a ftab_scheme \<Rightarrow> (int \<times> u8 list, 'a ftab_scheme) kresult" where
  "fileread f n s =
     (if \<not> f_readable (ftable s ! f) then Inr ((-1, []), s)
      else if f_type (ftable s ! f) = FD_PIPE then piperead (f_pipe (ftable s ! f)) n s
      else if f_type (ftable s ! f) = FD_INODE then
        let ip = f_ip (ftable s ! f) in
        bindE (ilock (Some ip) s) (\<lambda>_ s.
        bindE (readi devsw_read ip (f_off (ftable s ! f)) (of_int n) s) (\<lambda>r s.
          let s = (if fst r > 0 then set_file f (\<lambda>x. x\<lparr>f_off := f_off x + of_int (fst r)\<rparr>) s else s) in
          bindE (iunlock (Some ip) s) (\<lambda>_ s. Inr (r, s))))
      else Inl (Panic ''fileread''))"

text \<open>The largest number of bytes of one transaction.\<close>

definition filewrite_max :: int where
  "filewrite_max = (MAXOPBLOCKS - 1 - 1 - 2) div 2 * 512"

text \<open>The loop of \<open>filewrite\<close>; the result is the final value of \<open>i\<close>.\<close>

function filewrite_loop :: "nat \<Rightarrow> u8 list \<Rightarrow> int \<Rightarrow> int \<Rightarrow> 'a ftab_scheme \<Rightarrow> (int, 'a ftab_scheme) kresult" where
  "filewrite_loop f addr i n s =
     (if i < n then
        let n1 = min (n - i) filewrite_max; ip = f_ip (ftable s ! f) in
        bindE (begin_op s) (\<lambda>_ s.
        bindE (ilock (Some ip) s) (\<lambda>_ s.
        bindE (writei devsw_write ip (drop (nat i) addr) (f_off (ftable s ! f)) (of_int n1) s) (\<lambda>r s.
          let s = (if r > 0 then set_file f (\<lambda>x. x\<lparr>f_off := f_off x + of_int r\<rparr>) s else s) in
          bindE (iunlock (Some ip) s) (\<lambda>_ s.
          bindE (end_op s) (\<lambda>_ s.
            if r < 0 then Inr (i, s)
            else if r \<noteq> n1 then Inl (Panic ''short filewrite'')
            else filewrite_loop f addr (i + r) n s)))))
      else Inr (i, s))"
  by pat_completeness auto
termination
  by (relation "measure (\<lambda>(f, addr, i, n, s). nat (n - i))")
     (auto simp: filewrite_max_def MAXOPBLOCKS_def)

declare filewrite_loop.simps [simp del]

definition filewrite :: "nat \<Rightarrow> u8 list \<Rightarrow> int \<Rightarrow> 'a ftab_scheme \<Rightarrow> (int, 'a ftab_scheme) kresult" where
  "filewrite f addr n s =
     (if \<not> f_writable (ftable s ! f) then Inr (-1, s)
      else if f_type (ftable s ! f) = FD_PIPE then pipewrite (f_pipe (ftable s ! f)) addr n s
      else if f_type (ftable s ! f) = FD_INODE then
        bindE (filewrite_loop f addr 0 n s) (\<lambda>i s. Inr (if i = n then n else -1, s))
      else Inl (Panic ''filewrite''))"

section \<open>Creating a pipe\<close>

text \<open>The label \<open>bad\<close> of \<open>pipealloc\<close>, where the page was not allocated.\<close>

definition close_opt :: "nat option \<Rightarrow> 'a ftab_scheme \<Rightarrow> (unit, 'a ftab_scheme) kresult" where
  "close_opt fo s = (case fo of None \<Rightarrow> Inr ((), s) | Some f \<Rightarrow> fileclose f s)"

definition pipealloc_bad :: "nat option \<Rightarrow> nat option \<Rightarrow> 'a ftab_scheme \<Rightarrow>
    ((nat \<times> nat) option, 'a ftab_scheme) kresult" where
  "pipealloc_bad f0 f1 s =
     bindE (close_opt f0 s) (\<lambda>_ s. bindE (close_opt f1 s) (\<lambda>_ s. Inr (None, s)))"

definition pipealloc :: "'a ftab_scheme \<Rightarrow> ((nat \<times> nat) option, 'a ftab_scheme) kresult" where
  "pipealloc s =
     bindE (filealloc s) (\<lambda>f0 s.
       case f0 of
         None \<Rightarrow> pipealloc_bad None None s
       | Some a \<Rightarrow>
           bindE (filealloc s) (\<lambda>f1 s.
             case f1 of
               None \<Rightarrow> pipealloc_bad (Some a) None s
             | Some b \<Rightarrow>
                 bindE (kalloc s) (\<lambda>p s.
                   if p = 0 then pipealloc_bad (Some a) (Some b) s
                   else
                     let s = set_pipe p (\<lambda>q. q\<lparr>readopen := True, writeopen := True, nwrite := 0,
                                               nread := 0\<rparr>) s;
                         s = s\<lparr>klk := klk s - {PipeLock p}\<rparr>;
                         s = set_file a (\<lambda>x. x\<lparr>f_type := FD_PIPE, f_readable := True,
                                               f_writable := False, f_pipe := p\<rparr>) s;
                         s = set_file b (\<lambda>x. x\<lparr>f_type := FD_PIPE, f_readable := False,
                                               f_writable := True, f_pipe := p\<rparr>) s
                     in Inr (Some (a, b), s))))"

end
