(* ===== verification/Vm.thy ===== *)
theory Vm
  imports Kalloc
begin

text \<open>
  Virtual memory (\<open>vm.c\<close>, with the paging and segmentation parts of \<open>mmu.h\<close>).  Page directories
  and page tables are pages of the kernel memory \<open>mem\<close>, read and written a word at a time; a
  pointer is its kernel virtual address, 0 the null pointer.  \<open>loaduvm\<close>, which reads a file, is
  in theory \<open>Exec\<close>; \<open>switchkvm\<close> and \<open>switchuvm\<close> are in theory \<open>Ptable\<close>.
\<close>

section \<open>Page-table entries\<close>

definition PTE_P :: u32 where "PTE_P = 1"
definition PTE_W :: u32 where "PTE_W = 2"
definition PTE_U :: u32 where "PTE_U = 4"
definition NPDENTRIES :: nat where "NPDENTRIES = 1024"

definition PDX :: "u32 \<Rightarrow> u32" where "PDX va = drop_bit 22 va AND 0x3FF"
definition PTX :: "u32 \<Rightarrow> u32" where "PTX va = drop_bit 12 va AND 0x3FF"
definition PGADDR :: "u32 \<Rightarrow> u32 \<Rightarrow> u32 \<Rightarrow> u32" where
  "PGADDR d t o1 = push_bit 22 d OR push_bit 12 t OR o1"
definition PTE_ADDR :: "u32 \<Rightarrow> u32" where "PTE_ADDR pte = pte AND NOT 0xFFF"
definition PTE_FLAGS :: "u32 \<Rightarrow> u32" where "PTE_FLAGS pte = pte AND 0xFFF"

section \<open>Segments\<close>

record segdesc =
  seg_lim_15_0 :: u32
  seg_base_15_0 :: u32
  seg_base_23_16 :: u32
  seg_type :: u32
  seg_s :: u32
  seg_dpl :: u32
  seg_p :: u32
  seg_lim_19_16 :: u32
  seg_avl :: u32
  seg_rsv1 :: u32
  seg_db :: u32
  seg_g :: u32
  seg_base_31_24 :: u32

definition SEG :: "u32 \<Rightarrow> u32 \<Rightarrow> u32 \<Rightarrow> u32 \<Rightarrow> segdesc" where
  "SEG type base lim dpl =
     \<lparr>seg_lim_15_0 = drop_bit 12 lim AND 0xffff, seg_base_15_0 = base AND 0xffff,
      seg_base_23_16 = drop_bit 16 base AND 0xff, seg_type = type, seg_s = 1, seg_dpl = dpl, seg_p = 1,
      seg_lim_19_16 = drop_bit 28 lim, seg_avl = 0, seg_rsv1 = 0, seg_db = 1, seg_g = 1,
      seg_base_31_24 = drop_bit 24 base\<rparr>"

definition DPL_USER :: u32 where "DPL_USER = 3"
definition STA_X :: u32 where "STA_X = 8"
definition STA_W :: u32 where "STA_W = 2"
definition STA_R :: u32 where "STA_R = 2"

text \<open>The entries \<open>SEG_KCODE\<close>, \<open>SEG_KDATA\<close>, \<open>SEG_UCODE\<close> and \<open>SEG_UDATA\<close> of the CPU's table.\<close>

definition seginit :: "(nat \<Rightarrow> segdesc) \<Rightarrow> nat \<Rightarrow> segdesc" where
  "seginit gdt = gdt(1 := SEG (STA_X OR STA_R) 0 0xffffffff 0,
                     2 := SEG STA_W 0 0xffffffff 0,
                     3 := SEG (STA_X OR STA_R) 0 0xffffffff DPL_USER,
                     4 := SEG STA_W 0 0xffffffff DPL_USER)"

section \<open>Mapping\<close>

text \<open>The address of the entry for \<open>va\<close> if its page table exists, 0 otherwise.\<close>

definition pte_at :: "memory \<Rightarrow> u32 \<Rightarrow> u32 \<Rightarrow> u32" where
  "pte_at m pgdir va =
     (let pde = get32 m (pgdir + 4 * PDX va) in
      if pde AND PTE_P \<noteq> 0 then P2V (PTE_ADDR pde) + 4 * PTX va else 0)"

definition walkpgdir :: "u32 \<Rightarrow> u32 \<Rightarrow> bool \<Rightarrow> 'a kmem_scheme \<Rightarrow> (u32, 'a kmem_scheme) kresult" where
  "walkpgdir pgdir va alloc s =
     (let pde = pgdir + 4 * PDX va in
      if get32 (mem s) pde AND PTE_P \<noteq> 0 then Inr (pte_at (mem s) pgdir va, s)
      else if \<not> alloc then Inr (0, s)
      else
        bindE (kalloc s) (\<lambda>pgtab s.
          if pgtab = 0 then Inr (0, s)
          else
            let m = memset (mem s) pgtab 0 PGSIZE;
                m = put32 m pde (V2P pgtab OR PTE_P OR PTE_W OR PTE_U)
            in Inr (pgtab + 4 * PTX va, s\<lparr>mem := m\<rparr>)))"

text \<open>The loop of \<open>mappages\<close>; \<open>n\<close> is the number of pages from \<open>a\<close> to \<open>last\<close>, so that \<open>a == last\<close>
  when it is 0.\<close>

fun mappages_loop :: "u32 \<Rightarrow> u32 \<Rightarrow> nat \<Rightarrow> u32 \<Rightarrow> u32 \<Rightarrow> 'a kmem_scheme \<Rightarrow> (int, 'a kmem_scheme) kresult" where
  "mappages_loop pgdir a n pa perm s =
     bindE (walkpgdir pgdir a True s) (\<lambda>pte s.
       if pte = 0 then Inr (-1, s)
       else if get32 (mem s) pte AND PTE_P \<noteq> 0 then Inl (Panic ''remap'')
       else
         let s = s\<lparr>mem := put32 (mem s) pte (pa OR perm OR PTE_P)\<rparr> in
         case n of
           0 \<Rightarrow> Inr (0, s)
         | Suc n \<Rightarrow> mappages_loop pgdir (a + PGSIZE) n (pa + PGSIZE) perm s)"

declare mappages_loop.simps [simp del]

definition mappages :: "u32 \<Rightarrow> u32 \<Rightarrow> u32 \<Rightarrow> u32 \<Rightarrow> u32 \<Rightarrow> 'a kmem_scheme \<Rightarrow> (int, 'a kmem_scheme) kresult" where
  "mappages pgdir va sz pa perm s =
     (let a = PGROUNDDOWN va; last = PGROUNDDOWN (va + sz - 1) in
      mappages_loop pgdir a (unat ((last - a) div PGSIZE)) pa perm s)"

section \<open>Unmapping\<close>

text \<open>The loop of \<open>deallocuvm\<close>.  The loop variable wraps only if \<open>oldsz\<close> reaches into the last 4 MB
  of the address space, and then it starts over from 0; user memory ends at \<open>KERNBASE\<close>.\<close>

function deallocuvm_loop :: "u32 \<Rightarrow> u32 \<Rightarrow> u32 \<Rightarrow> 'a kmem_scheme \<Rightarrow> (unit, 'a kmem_scheme) kresult" where
  "deallocuvm_loop pgdir a oldsz s =
     (if a < oldsz then
        let pte = pte_at (mem s) pgdir a;
            a' = (if pte = 0 then PGADDR (PDX a + 1) 0 0 - PGSIZE else a) + PGSIZE in
        bindE (if pte \<noteq> 0 \<and> get32 (mem s) pte AND PTE_P \<noteq> 0 then
                 let pa = PTE_ADDR (get32 (mem s) pte) in
                 if pa = 0 then Inl (Panic ''kfree'')
                 else bindE (kfree (P2V pa) s) (\<lambda>_ s. Inr ((), s\<lparr>mem := put32 (mem s) pte 0\<rparr>))
               else Inr ((), s)) (\<lambda>_ s.
        if a' \<le> a then Inl Diverges else deallocuvm_loop pgdir a' oldsz s)
      else Inr ((), s))"
  by pat_completeness auto
termination
proof (relation "measure (\<lambda>(pgdir, a, oldsz, s). 2 ^ 32 - unat a)", goal_cases)
  case (2 pgdir a oldsz s pte a' u s')
  have "unat a < unat a'" using 2(5) by (simp add: not_le word_less_nat_alt)
  moreover have "unat a' < 2 ^ 32" using unsigned_less [where ?'a = nat, of a'] by simp
  ultimately show ?case by simp
qed simp

declare deallocuvm_loop.simps [simp del]

definition deallocuvm :: "u32 \<Rightarrow> u32 \<Rightarrow> u32 \<Rightarrow> 'a kmem_scheme \<Rightarrow> (u32, 'a kmem_scheme) kresult" where
  "deallocuvm pgdir oldsz newsz s =
     (if newsz \<ge> oldsz then Inr (oldsz, s)
      else bindE (deallocuvm_loop pgdir (PGROUNDUP newsz) oldsz s) (\<lambda>_ s. Inr (newsz, s)))"

fun freevm_loop :: "u32 \<Rightarrow> nat list \<Rightarrow> 'a kmem_scheme \<Rightarrow> (unit, 'a kmem_scheme) kresult" where
  "freevm_loop pgdir [] s = Inr ((), s)"
| "freevm_loop pgdir (i # is) s =
     (let pde = get32 (mem s) (pgdir + 4 * of_nat i) in
      bindE (if pde AND PTE_P \<noteq> 0 then kfree (P2V (PTE_ADDR pde)) s else Inr ((), s)) (\<lambda>_ s.
      freevm_loop pgdir is s))"

definition freevm :: "u32 \<Rightarrow> 'a kmem_scheme \<Rightarrow> (unit, 'a kmem_scheme) kresult" where
  "freevm pgdir s =
     (if pgdir = 0 then Inl (Panic ''freevm: no pgdir'')
      else
        bindE (deallocuvm pgdir KERNBASE 0 s) (\<lambda>_ s.
        bindE (freevm_loop pgdir [0..<NPDENTRIES] s) (\<lambda>_ s.
        kfree pgdir s)))"

section \<open>The kernel part of a page table\<close>

record kmap =
  virt :: u32
  phys_start :: u32
  phys_end :: u32
  kperm :: u32

definition kmap_table :: "u32 \<Rightarrow> kmap list" where
  "kmap_table d =
     [\<lparr>virt = KERNBASE, phys_start = 0, phys_end = EXTMEM, kperm = PTE_W\<rparr>,
      \<lparr>virt = KERNLINK, phys_start = V2P KERNLINK, phys_end = V2P d, kperm = 0\<rparr>,
      \<lparr>virt = d, phys_start = V2P d, phys_end = PHYSTOP, kperm = PTE_W\<rparr>,
      \<lparr>virt = DEVSPACE, phys_start = DEVSPACE, phys_end = 0, kperm = PTE_W\<rparr>]"

fun setupkvm_loop :: "u32 \<Rightarrow> kmap list \<Rightarrow> 'a kmem_scheme \<Rightarrow> (u32, 'a kmem_scheme) kresult" where
  "setupkvm_loop pgdir [] s = Inr (pgdir, s)"
| "setupkvm_loop pgdir (k # ks) s =
     bindE (mappages pgdir (virt k) (phys_end k - phys_start k) (phys_start k) (kperm k) s) (\<lambda>r s.
       if r < 0 then bindE (freevm pgdir s) (\<lambda>_ s. Inr (0, s))
       else setupkvm_loop pgdir ks s)"

definition setupkvm :: "'a kmem_scheme \<Rightarrow> (u32, 'a kmem_scheme) kresult" where
  "setupkvm s =
     bindE (kalloc s) (\<lambda>pgdir s.
       if pgdir = 0 then Inr (0, s)
       else
         let s = s\<lparr>mem := memset (mem s) pgdir 0 PGSIZE\<rparr> in
         if P2V PHYSTOP > DEVSPACE then Inl (Panic ''PHYSTOP too high'')
         else setupkvm_loop pgdir (kmap_table (kdata s)) s)"

definition kvmalloc :: "'a kmem_scheme \<Rightarrow> (unit, 'a kmem_scheme) kresult" where
  "kvmalloc s = bindE (setupkvm s) (\<lambda>pgdir s. Inr ((), switchkvm (s\<lparr>kpgdir := pgdir\<rparr>)))"

section \<open>User memory\<close>

fun store_bytes :: "memory \<Rightarrow> u32 \<Rightarrow> u8 list \<Rightarrow> memory" where
  "store_bytes m a [] = m"
| "store_bytes m a (b # bs) = store_bytes (m(a := b)) (a + 1) bs"

definition inituvm :: "u32 \<Rightarrow> u8 list \<Rightarrow> 'a kmem_scheme \<Rightarrow> (unit, 'a kmem_scheme) kresult" where
  "inituvm pgdir init s =
     (if length init \<ge> unat PGSIZE then Inl (Panic ''inituvm: more than a page'')
      else
        bindE (kalloc s) (\<lambda>pg s.
          if pg = 0 then Inl BadAccess
          else
            bindE (mappages pgdir 0 PGSIZE (V2P pg) (PTE_W OR PTE_U)
                     (s\<lparr>mem := memset (mem s) pg 0 PGSIZE\<rparr>)) (\<lambda>_ s.
            Inr ((), s\<lparr>mem := store_bytes (mem s) pg init\<rparr>))))"

text \<open>The values of a loop variable that goes from \<open>a\<close> in steps of a page as long as it is below \<open>b\<close>;
  the sizes of the callers are below \<open>KERNBASE\<close>, so that it does not wrap.\<close>

definition page_steps :: "u32 \<Rightarrow> u32 \<Rightarrow> u32 list" where
  "page_steps a b = map (\<lambda>k. a + of_nat k * PGSIZE) [0..<(unat b - unat a + 4095) div 4096]"

fun allocuvm_loop :: "u32 \<Rightarrow> u32 \<Rightarrow> u32 \<Rightarrow> u32 list \<Rightarrow> 'a kmem_scheme \<Rightarrow> (u32, 'a kmem_scheme) kresult" where
  "allocuvm_loop pgdir oldsz newsz [] s = Inr (newsz, s)"
| "allocuvm_loop pgdir oldsz newsz (a # as) s =
     bindE (kalloc s) (\<lambda>pg s.
       if pg = 0 then
         bindE (cprintf (msg ''allocuvm out of memory!'') [] s) (\<lambda>_ s.
         bindE (deallocuvm pgdir newsz oldsz s) (\<lambda>_ s. Inr (0, s)))
       else
         bindE (mappages pgdir a PGSIZE (V2P pg) (PTE_W OR PTE_U)
                  (s\<lparr>mem := memset (mem s) pg 0 PGSIZE\<rparr>)) (\<lambda>r s.
           if r < 0 then
             bindE (cprintf (msg ''allocuvm out of memory (2)!'') [] s) (\<lambda>_ s.
             bindE (deallocuvm pgdir newsz oldsz s) (\<lambda>_ s.
             bindE (kfree pg s) (\<lambda>_ s. Inr (0, s))))
           else allocuvm_loop pgdir oldsz newsz as s))"

definition allocuvm :: "u32 \<Rightarrow> u32 \<Rightarrow> u32 \<Rightarrow> 'a kmem_scheme \<Rightarrow> (u32, 'a kmem_scheme) kresult" where
  "allocuvm pgdir oldsz newsz s =
     (if newsz \<ge> KERNBASE then Inr (0, s)
      else if newsz < oldsz then Inr (oldsz, s)
      else allocuvm_loop pgdir oldsz newsz (page_steps (PGROUNDUP oldsz) newsz) s)"

definition clearpteu :: "u32 \<Rightarrow> u32 \<Rightarrow> 'a kmem_scheme \<Rightarrow> (unit, 'a kmem_scheme) kresult" where
  "clearpteu pgdir uva s =
     bindE (walkpgdir pgdir uva False s) (\<lambda>pte s.
       if pte = 0 then Inl (Panic ''clearpteu'')
       else Inr ((), s\<lparr>mem := put32 (mem s) pte (get32 (mem s) pte AND NOT PTE_U)\<rparr>))"

text \<open>The loop of \<open>copyuvm\<close>: on failure it frees \<open>d\<close>, but not the page \<open>pg\<close> that it could not map.\<close>

fun copyuvm_loop :: "u32 \<Rightarrow> u32 \<Rightarrow> u32 list \<Rightarrow> 'a kmem_scheme \<Rightarrow> (u32, 'a kmem_scheme) kresult" where
  "copyuvm_loop pgdir d [] s = Inr (d, s)"
| "copyuvm_loop pgdir d (i # is) s =
     bindE (walkpgdir pgdir i False s) (\<lambda>pte s.
       if pte = 0 then Inl (Panic ''copyuvm: pte should exist'')
       else
         let e = get32 (mem s) pte in
         if e AND PTE_P = 0 then Inl (Panic ''copyuvm: page not present'')
         else
           bindE (kalloc s) (\<lambda>pg s.
             if pg = 0 then bindE (freevm d s) (\<lambda>_ s. Inr (0, s))
             else
               bindE (mappages d i PGSIZE (V2P pg) (PTE_FLAGS e)
                        (s\<lparr>mem := memmove (mem s) pg (P2V (PTE_ADDR e)) PGSIZE\<rparr>)) (\<lambda>r s.
                 if r < 0 then bindE (freevm d s) (\<lambda>_ s. Inr (0, s))
                 else copyuvm_loop pgdir d is s)))"

definition copyuvm :: "u32 \<Rightarrow> u32 \<Rightarrow> 'a kmem_scheme \<Rightarrow> (u32, 'a kmem_scheme) kresult" where
  "copyuvm pgdir sz s =
     bindE (setupkvm s) (\<lambda>d s.
       if d = 0 then Inr (0, s) else copyuvm_loop pgdir d (page_steps 0 sz) s)"

text \<open>\<open>uva2ka\<close> reads through the result of \<open>walkpgdir\<close> without a test for the null pointer.\<close>

definition uva2ka :: "u32 \<Rightarrow> u32 \<Rightarrow> 'a kmem_scheme \<Rightarrow> (u32, 'a kmem_scheme) kresult" where
  "uva2ka pgdir uva s =
     bindE (walkpgdir pgdir uva False s) (\<lambda>pte s.
       if pte = 0 then Inl BadAccess
       else
         let e = get32 (mem s) pte in
         if e AND PTE_P = 0 then Inr (0, s)
         else if e AND PTE_U = 0 then Inr (0, s)
         else Inr (P2V (PTE_ADDR e), s))"

text \<open>\<open>copyout\<close> copies the bytes \<open>buf\<close>; each turn fills at most the rest of one page.\<close>

definition page_room :: "u32 \<Rightarrow> nat" where
  "page_room va = unat (PGSIZE - (va - PGROUNDDOWN va))"

lemma va_in_page: "va - PGROUNDDOWN va = va AND 0xFFF"
proof -
  have "va = PGROUNDDOWN va + (va AND 0xFFF)"
    unfolding PGROUNDDOWN_def PGSIZE_def
    by (subst disjunctive_add) (auto intro: bit_word_eqI simp: bit_simps)
  then show ?thesis by (simp add: algebra_simps)
qed

lemma page_room_pos: "0 < page_room va"
proof -
  have "va AND 0xFFF < PGSIZE"
    unfolding PGSIZE_def by (rule le_less_trans [OF word_and_le1]) simp
  then show ?thesis unfolding page_room_def va_in_page
    by (simp add: unat_gt_0)
qed

function copyout :: "u32 \<Rightarrow> u32 \<Rightarrow> u8 list \<Rightarrow> 'a kmem_scheme \<Rightarrow> (int, 'a kmem_scheme) kresult" where
  "copyout pgdir va buf s =
     (if buf = [] then Inr (0, s)
      else
        let va0 = PGROUNDDOWN va in
        bindE (uva2ka pgdir va0 s) (\<lambda>pa0 s.
          if pa0 = 0 then Inr (-1, s)
          else
            let n = min (page_room va) (length buf) in
            copyout pgdir (va0 + PGSIZE) (drop n buf)
              (s\<lparr>mem := store_bytes (mem s) (pa0 + (va - va0)) (take n buf)\<rparr>)))"
  by pat_completeness auto
termination
  by (relation "measure (\<lambda>(pgdir, va, buf, s). length buf)") (auto simp: page_room_pos)

declare copyout.simps [simp del]

end
