(* ===== verification/Proc.thy ===== *)
theory Proc
  imports File Vm
begin

text \<open>
  Creation and destruction of processes (\<open>proc.c\<close>): \<open>allocproc\<close>, \<open>userinit\<close>, \<open>growproc\<close>, \<open>fork\<close>, \<open>exit\<close>,
  \<open>wait\<close> and \<open>forkret\<close>.  Trap frames and contexts are on the kernel stack of the process, a page
  of kernel memory, at the offsets that the structs of \<open>x86.h\<close> and \<open>proc.h\<close> give their fields.  \<open>wait\<close> is
  cut where it sleeps, like the loops of the pipe.
\<close>

section \<open>State and layout\<close>

text \<open>\<open>sym_trapret\<close> and \<open>sym_forkret\<close> are the addresses of those routines, \<open>initcode\<close> the bytes of
  the first user program, \<open>forkret_first\<close> the static variable of \<open>forkret\<close>, \<open>lapic_w\<close> the writes to
  the registers of the local APIC, if there is one.\<close>

record kern = ftab +
  ticks :: u32
  sym_trapret :: u32
  sym_forkret :: u32
  initcode :: "u8 list"
  forkret_first :: bool
  lapic_on :: bool
  lapic_w :: "(u32 \<times> u32) list"

definition TF_SIZE :: u32 where "TF_SIZE = 76"
definition TF_EAX :: u32 where "TF_EAX = 28"
definition TF_ES :: u32 where "TF_ES = 40"
definition TF_DS :: u32 where "TF_DS = 44"
definition TF_TRAPNO :: u32 where "TF_TRAPNO = 48"
definition TF_EIP :: u32 where "TF_EIP = 56"
definition TF_CS :: u32 where "TF_CS = 60"
definition TF_EFLAGS :: u32 where "TF_EFLAGS = 64"
definition TF_ESP :: u32 where "TF_ESP = 68"
definition TF_SS :: u32 where "TF_SS = 72"
definition CTX_SIZE :: u32 where "CTX_SIZE = 20"
definition CTX_EIP :: u32 where "CTX_EIP = 16"
definition FL_IF :: u32 where "FL_IF = 0x200"

definition put16 :: "memory \<Rightarrow> u32 \<Rightarrow> u16 \<Rightarrow> memory" where
  "put16 m a w = m(a := byte16 0 w, a + 1 := byte16 1 w)"

definition get16 :: "memory \<Rightarrow> u32 \<Rightarrow> u16" where
  "get16 m a = le16 (m a) (m (a + 1))"

text \<open>A C string as an array, and the string in a 16 byte array that \<open>safestrcpy\<close> filled.\<close>

definition str_array :: "u8 list \<Rightarrow> block" where
  "str_array t = (\<lambda>i. if i < length t then t ! i else 0)"

definition copy_name :: "u8 list \<Rightarrow> u8 list" where
  "copy_name t = takeWhile (\<lambda>c. c \<noteq> 0) (map (safestrcpy (\<lambda>_. 0) (str_array t) 16) [0..<16])"

section \<open>Creation\<close>

definition pinit :: "'a kern_scheme \<Rightarrow> 'a kern_scheme" where
  "pinit s = s\<lparr>klk := klk s - {PtableLock}\<rparr>"

definition allocproc :: "'a kern_scheme \<Rightarrow> (nat option, 'a kern_scheme) kresult" where
  "allocproc s =
     bindE (lk_acquire PtableLock s) (\<lambda>_ s.
       case first_index (\<lambda>p. p_state p = UNUSED) (ptable s) of
         None \<Rightarrow> bindE (lk_release PtableLock s) (\<lambda>_ s. Inr (None, s))
       | Some i \<Rightarrow>
           let s = set_proc i (\<lambda>p. p\<lparr>p_state := EMBRYO, p_pid := nextpid s\<rparr>) s;
               s = s\<lparr>nextpid := nextpid s + 1\<rparr> in
           bindE (lk_release PtableLock s) (\<lambda>_ s.
           bindE (kalloc s) (\<lambda>k s.
             let s = set_proc i (\<lambda>p. p\<lparr>p_kstack := k\<rparr>) s in
             if k = 0 then Inr (None, set_proc i (\<lambda>p. p\<lparr>p_state := UNUSED\<rparr>) s)
             else
               let tf = k + KSTACKSIZE - TF_SIZE;
                   ctx = tf - 4 - CTX_SIZE;
                   m = put32 (mem s) (tf - 4) (sym_trapret s);
                   m = memset m ctx 0 CTX_SIZE;
                   m = put32 m (ctx + CTX_EIP) (sym_forkret s)
               in Inr (Some i, set_proc i (\<lambda>p. p\<lparr>p_tf := tf, p_context := ctx\<rparr>) (s\<lparr>mem := m\<rparr>)))))"

definition user_cs :: u16 where "user_cs = push_bit 3 3 OR 3"
definition user_ds :: u16 where "user_ds = push_bit 3 4 OR 3"

definition userinit :: "'a kern_scheme \<Rightarrow> (unit, 'a kern_scheme) kresult" where
  "userinit s =
     bindE (allocproc s) (\<lambda>po s.
       case po of
         None \<Rightarrow> Inl BadAccess
       | Some p \<Rightarrow>
           bindE (setupkvm (s\<lparr>initproc := Some p\<rparr>)) (\<lambda>d s.
             let s = set_proc p (\<lambda>x. x\<lparr>p_pgdir := d\<rparr>) s in
             if d = 0 then Inl (Panic ''userinit: out of memory?'')
             else
               bindE (inituvm d (initcode s) s) (\<lambda>_ s.
                 let s = set_proc p (\<lambda>x. x\<lparr>p_sz := PGSIZE\<rparr>) s;
                     tf = p_tf (ptable s ! p);
                     m = memset (mem s) tf 0 TF_SIZE;
                     m = put16 m (tf + TF_CS) user_cs;
                     m = put16 m (tf + TF_DS) user_ds;
                     m = put16 m (tf + TF_ES) (get16 m (tf + TF_DS));
                     m = put16 m (tf + TF_SS) (get16 m (tf + TF_DS));
                     m = put32 m (tf + TF_EFLAGS) FL_IF;
                     m = put32 m (tf + TF_ESP) PGSIZE;
                     m = put32 m (tf + TF_EIP) 0;
                     s = set_proc p (\<lambda>x. x\<lparr>p_name := copy_name (bytes ''initcode'')\<rparr>) (s\<lparr>mem := m\<rparr>) in
                 bindE (namei [SLASH] s) (\<lambda>c s.
                   let s = set_proc p (\<lambda>x. x\<lparr>p_cwd := c\<rparr>) s in
                   bindE (lk_acquire PtableLock s) (\<lambda>_ s.
                   lk_release PtableLock (set_proc p (\<lambda>x. x\<lparr>p_state := RUNNABLE\<rparr>) s))))))"

definition growproc :: "u32 \<Rightarrow> 'a kern_scheme \<Rightarrow> (int, 'a kern_scheme) kresult" where
  "growproc n s =
     (case cur s of
        None \<Rightarrow> Inl BadAccess
      | Some me \<Rightarrow>
          let sz = p_sz (ptable s ! me); pgdir = p_pgdir (ptable s ! me) in
          bindE (if sint n > 0 then
                   bindE (allocuvm pgdir sz (sz + n) s) (\<lambda>sz s. Inr (if sz = 0 then None else Some sz, s))
                 else if sint n < 0 then
                   bindE (deallocuvm pgdir sz (sz + n) s) (\<lambda>sz s. Inr (if sz = 0 then None else Some sz, s))
                 else Inr (Some sz, s)) (\<lambda>r s.
            case r of
              None \<Rightarrow> Inr (-1, s)
            | Some sz \<Rightarrow>
                bindE (switchuvm (Some me) (set_proc me (\<lambda>p. p\<lparr>p_sz := sz\<rparr>) s)) (\<lambda>_ s. Inr (0, s))))"

fun fork_files :: "nat \<Rightarrow> nat \<Rightarrow> nat list \<Rightarrow> 'a kern_scheme \<Rightarrow> (unit, 'a kern_scheme) kresult" where
  "fork_files me np [] s = Inr ((), s)"
| "fork_files me np (i # is) s =
     (case p_ofile (ptable s ! me) ! i of
        None \<Rightarrow> fork_files me np is s
      | Some f \<Rightarrow>
          bindE (filedup f s) (\<lambda>f s.
          fork_files me np is (set_proc np (\<lambda>p. p\<lparr>p_ofile := (p_ofile p)[i := Some f]\<rparr>) s)))"

definition fork :: "'a kern_scheme \<Rightarrow> (int, 'a kern_scheme) kresult" where
  "fork s =
     (case cur s of
        None \<Rightarrow> Inl BadAccess
      | Some me \<Rightarrow>
          bindE (allocproc s) (\<lambda>npo s.
            case npo of
              None \<Rightarrow> Inr (-1, s)
            | Some np \<Rightarrow>
                bindE (copyuvm (p_pgdir (ptable s ! me)) (p_sz (ptable s ! me)) s) (\<lambda>d s.
                  let s = set_proc np (\<lambda>p. p\<lparr>p_pgdir := d\<rparr>) s in
                  if d = 0 then
                    bindE (kfree (p_kstack (ptable s ! np)) s) (\<lambda>_ s.
                    Inr (-1, set_proc np (\<lambda>p. p\<lparr>p_kstack := 0, p_state := UNUSED\<rparr>) s))
                  else
                    let s = set_proc np (\<lambda>p. p\<lparr>p_sz := p_sz (ptable s ! me), p_parent := Some me\<rparr>) s;
                        tf = p_tf (ptable s ! np);
                        m = memmove (mem s) tf (p_tf (ptable s ! me)) TF_SIZE;
                        m = put32 m (tf + TF_EAX) 0;
                        s = s\<lparr>mem := m\<rparr> in
                    bindE (fork_files me np [0..<NOFILE] s) (\<lambda>_ s.
                      case p_cwd (ptable s ! me) of
                        None \<Rightarrow> Inl BadAccess
                      | Some c \<Rightarrow>
                          bindE (idup c s) (\<lambda>c s.
                            let s = set_proc np (\<lambda>p. p\<lparr>p_cwd := Some c,
                                       p_name := copy_name (p_name (ptable s ! me))\<rparr>) s;
                                pid = p_pid (ptable s ! np) in
                            bindE (lk_acquire PtableLock s) (\<lambda>_ s.
                            bindE (lk_release PtableLock (set_proc np (\<lambda>p. p\<lparr>p_state := RUNNABLE\<rparr>) s)) (\<lambda>_ s.
                            Inr (sint pid, s))))))))"

section \<open>Destruction\<close>

fun exit_files :: "nat \<Rightarrow> nat list \<Rightarrow> 'a kern_scheme \<Rightarrow> (unit, 'a kern_scheme) kresult" where
  "exit_files me [] s = Inr ((), s)"
| "exit_files me (fd # fds) s =
     (case p_ofile (ptable s ! me) ! fd of
        None \<Rightarrow> exit_files me fds s
      | Some f \<Rightarrow>
          bindE (fileclose f s) (\<lambda>_ s.
          exit_files me fds (set_proc me (\<lambda>p. p\<lparr>p_ofile := (p_ofile p)[fd := None]\<rparr>) s)))"

fun reparent :: "nat \<Rightarrow> nat list \<Rightarrow> 'a ptab_scheme \<Rightarrow> 'a ptab_scheme" where
  "reparent me [] s = s"
| "reparent me (i # is) s =
     (if p_parent (ptable s ! i) = Some me then
        let s = set_proc i (\<lambda>p. p\<lparr>p_parent := initproc s\<rparr>) s in
        reparent me is
          (if p_state (ptable s ! i) = ZOMBIE then wakeup1 (map_option ChProc (initproc s)) s else s)
      else reparent me is s)"

text \<open>\<open>exit\<close> up to the point where the scheduler has the CPU; the process never runs again.\<close>

definition exit :: "'a kern_scheme \<Rightarrow> (unit, 'a kern_scheme) kresult" where
  "exit s =
     (case cur s of
        None \<Rightarrow> Inl BadAccess
      | Some me \<Rightarrow>
          if initproc s = Some me then Inl (Panic ''init exiting'')
          else
            bindE (exit_files me [0..<NOFILE] s) (\<lambda>_ s.
            bindE (begin_op s) (\<lambda>_ s.
            bindE (case p_cwd (ptable s ! me) of None \<Rightarrow> Inl BadAccess | Some c \<Rightarrow> iput c s) (\<lambda>_ s.
            bindE (end_op s) (\<lambda>_ s.
              let s = set_proc me (\<lambda>p. p\<lparr>p_cwd := None\<rparr>) s in
              bindE (lk_acquire PtableLock s) (\<lambda>_ s.
                let s = wakeup1 (map_option ChProc (p_parent (ptable s ! me))) s;
                    s = reparent me [0..<length (ptable s)] s
                in sched (set_proc me (\<lambda>p. p\<lparr>p_state := ZOMBIE\<rparr>) s)))))))"

text \<open>A section of \<open>wait\<close>, with the table locked: \<open>None\<close> if it sleeps.\<close>

definition wait_sect :: "nat \<Rightarrow> 'a kern_scheme \<Rightarrow> (int option, 'a kern_scheme) kresult" where
  "wait_sect me s =
     (case first_index (\<lambda>p. p_parent p = Some me \<and> p_state p = ZOMBIE) (ptable s) of
        Some i \<Rightarrow>
          let p = ptable s ! i in
          bindE (kfree (p_kstack p) s) (\<lambda>_ s.
          bindE (freevm (p_pgdir p) (set_proc i (\<lambda>p. p\<lparr>p_kstack := 0\<rparr>) s)) (\<lambda>_ s.
          bindE (lk_release PtableLock (set_proc i (\<lambda>p. p\<lparr>p_pid := 0, p_parent := None, p_name := [],
                    p_killed := False, p_state := UNUSED\<rparr>) s)) (\<lambda>_ s.
          Inr (Some (sint (p_pid p)), s))))
      | None \<Rightarrow>
          if (\<forall>p \<in> set (ptable s). p_parent p \<noteq> Some me) \<or> p_killed (ptable s ! me) then
            bindE (lk_release PtableLock s) (\<lambda>_ s. Inr (Some (-1), s))
          else bindE (sleep_enter (ChProc me) (Some PtableLock) s) (\<lambda>_ s. Inr (None, s)))"

definition wait :: "'a kern_scheme \<Rightarrow> (int, 'a kern_scheme) kresult" where
  "wait s =
     (case cur s of
        None \<Rightarrow> Inl BadAccess
      | Some me \<Rightarrow>
          bindE (lk_acquire PtableLock s) (\<lambda>_ s.
          bindE (wait_sect me s) (\<lambda>r s.
            case r of Some pid \<Rightarrow> Inr (pid, s) | None \<Rightarrow> Inl (Blocked (ChProc me)))))"

definition forkret :: "'a kern_scheme \<Rightarrow> (unit, 'a kern_scheme) kresult" where
  "forkret s =
     bindE (lk_release PtableLock s) (\<lambda>_ s.
       if forkret_first s then
         bindE (iinit ROOTDEV (s\<lparr>forkret_first := False\<rparr>)) (\<lambda>_ s. initlog ROOTDEV s)
       else Inr ((), s))"

end
