(* ===== verification/Exec.thy ===== *)
theory Exec
  imports Proc
begin

text \<open>
  Access to user memory, the arguments of a system call (the first half of \<open>syscall.c\<close>), and the
  replacement of a process image (\<open>exec.c\<close>, with \<open>loaduvm\<close> of \<open>vm.c\<close>).  The kernel reads and writes
  user memory at its virtual addresses, through the page table that \<open>cr3\<close> selects; an access to
  a page that is not mapped is a fault in the kernel, which ends in \<open>panic("trap")\<close>.
\<close>

section \<open>User memory\<close>

definition user_addr :: "u32 \<Rightarrow> 'a kmem_scheme \<Rightarrow> u32 option" where
  "user_addr va s =
     (let pte = pte_at (mem s) (P2V (cr3 s)) va; e = get32 (mem s) pte in
      if pte = 0 \<or> e AND PTE_P = 0 then None else Some (P2V (PTE_ADDR e) + (va AND 0xFFF)))"

fun user_load :: "u32 \<Rightarrow> nat \<Rightarrow> 'a kmem_scheme \<Rightarrow> (u8 list, 'a kmem_scheme) kresult" where
  "user_load va 0 s = Inr ([], s)"
| "user_load va (Suc n) s =
     (case user_addr va s of
        None \<Rightarrow> Inl (Panic ''trap'')
      | Some a \<Rightarrow> bindE (user_load (va + 1) n s) (\<lambda>bs s. Inr (mem s a # bs, s)))"

fun user_store :: "u32 \<Rightarrow> u8 list \<Rightarrow> 'a kmem_scheme \<Rightarrow> (unit, 'a kmem_scheme) kresult" where
  "user_store va [] s = Inr ((), s)"
| "user_store va (b # bs) s =
     (case user_addr va s of
        None \<Rightarrow> Inl (Panic ''trap'')
      | Some a \<Rightarrow> user_store (va + 1) bs (s\<lparr>mem := (mem s)(a := b)\<rparr>))"

definition bytes32 :: "u32 \<Rightarrow> u8 list" where
  "bytes32 w = [byte_of 0 w, byte_of 1 w, byte_of 2 w, byte_of 3 w]"

definition bytes16 :: "u16 \<Rightarrow> u8 list" where
  "bytes16 w = [byte16 0 w, byte16 1 w]"

definition word_at :: "u8 list \<Rightarrow> nat \<Rightarrow> u32" where
  "word_at bs k = le32 (bs ! k) (bs ! (k + 1)) (bs ! (k + 2)) (bs ! (k + 3))"

definition half_at :: "u8 list \<Rightarrow> nat \<Rightarrow> u16" where
  "half_at bs k = le16 (bs ! k) (bs ! (k + 1))"

section \<open>Arguments of system calls\<close>

definition myproc :: "'a ptab_scheme \<Rightarrow> (proc, 'a ptab_scheme) kresult" where
  "myproc s = (case cur s of None \<Rightarrow> Inl BadAccess | Some p \<Rightarrow> Inr (ptable s ! p, s))"

definition fetchint :: "u32 \<Rightarrow> 'a kmem_scheme \<Rightarrow> (u32 option, 'a kmem_scheme) kresult" where
  "fetchint addr s =
     bindE (myproc s) (\<lambda>p s.
       if addr \<ge> p_sz p \<or> addr + 4 > p_sz p then Inr (None, s)
       else bindE (user_load addr 4 s) (\<lambda>bs s. Inr (Some (word_at bs 0), s)))"

text \<open>The loop of \<open>fetchstr\<close> over the \<open>n\<close> bytes that are left of the process memory: the string up to
  its NUL.\<close>

fun fetchstr_loop :: "u32 \<Rightarrow> nat \<Rightarrow> 'a kmem_scheme \<Rightarrow> (u8 list option, 'a kmem_scheme) kresult" where
  "fetchstr_loop a 0 s = Inr (None, s)"
| "fetchstr_loop a (Suc n) s =
     bindE (user_load a 1 s) (\<lambda>bs s.
       if hd bs = 0 then Inr (Some [], s)
       else bindE (fetchstr_loop (a + 1) n s) (\<lambda>r s. Inr (map_option (Cons (hd bs)) r, s)))"

definition fetchstr :: "u32 \<Rightarrow> 'a kmem_scheme \<Rightarrow> (u8 list option, 'a kmem_scheme) kresult" where
  "fetchstr addr s =
     bindE (myproc s) (\<lambda>p s.
       if addr \<ge> p_sz p then Inr (None, s) else fetchstr_loop addr (unat (p_sz p - addr)) s)"

definition argint :: "u32 \<Rightarrow> 'a kern_scheme \<Rightarrow> (u32 option, 'a kern_scheme) kresult" where
  "argint n s =
     bindE (myproc s) (\<lambda>p s. fetchint (get32 (mem s) (p_tf p + TF_ESP) + 4 + 4 * n) s)"

definition argptr :: "u32 \<Rightarrow> u32 \<Rightarrow> 'a kern_scheme \<Rightarrow> (u32 option, 'a kern_scheme) kresult" where
  "argptr n sz s =
     bindE (argint n s) (\<lambda>r s.
       case r of
         None \<Rightarrow> Inr (None, s)
       | Some i \<Rightarrow>
           bindE (myproc s) (\<lambda>p s.
             Inr (if sint sz < 0 \<or> i \<ge> p_sz p \<or> i + sz > p_sz p then None else Some i, s)))"

definition argstr :: "u32 \<Rightarrow> 'a kern_scheme \<Rightarrow> (u8 list option, 'a kern_scheme) kresult" where
  "argstr n s =
     bindE (argint n s) (\<lambda>r s. case r of None \<Rightarrow> Inr (None, s) | Some addr \<Rightarrow> fetchstr addr s)"

section \<open>Loading a program\<close>

definition ELF_MAGIC :: u32 where "ELF_MAGIC = 0x464C457F"
definition ELF_PROG_LOAD :: u32 where "ELF_PROG_LOAD = 1"
definition MAXARG :: nat where "MAXARG = 32"

record elfhdr =
  elf_magic :: u32
  elf_entry :: u32
  elf_phoff :: u32
  elf_phnum :: u16

definition elfhdr_of :: "u8 list \<Rightarrow> elfhdr" where
  "elfhdr_of bs = \<lparr>elf_magic = word_at bs 0, elf_entry = word_at bs 24, elf_phoff = word_at bs 28,
                   elf_phnum = half_at bs 44\<rparr>"

record proghdr =
  ph_type :: u32
  ph_off :: u32
  ph_vaddr :: u32
  ph_filesz :: u32
  ph_memsz :: u32

definition proghdr_of :: "u8 list \<Rightarrow> proghdr" where
  "proghdr_of bs = \<lparr>ph_type = word_at bs 0, ph_off = word_at bs 4, ph_vaddr = word_at bs 8,
                    ph_filesz = word_at bs 16, ph_memsz = word_at bs 20\<rparr>"

fun loaduvm_loop :: "u32 \<Rightarrow> u32 \<Rightarrow> nat \<Rightarrow> u32 \<Rightarrow> u32 \<Rightarrow> u32 list \<Rightarrow> 'a fs_scheme \<Rightarrow> (int, 'a fs_scheme) kresult" where
  "loaduvm_loop pgdir addr ip offset sz [] s = Inr (0, s)"
| "loaduvm_loop pgdir addr ip offset sz (i # is) s =
     bindE (walkpgdir pgdir (addr + i) False s) (\<lambda>pte s.
       if pte = 0 then Inl (Panic ''loaduvm: address should exist'')
       else
         let pa = PTE_ADDR (get32 (mem s) pte);
             n = (if sz - i < PGSIZE then sz - i else PGSIZE) in
         bindE (readi devsw_read ip (offset + i) n s) (\<lambda>r s.
           let s = s\<lparr>mem := store_bytes (mem s) (P2V pa) (snd r)\<rparr> in
           if of_int (fst r) \<noteq> n then Inr (-1, s)
           else loaduvm_loop pgdir addr ip offset sz is s))"

definition loaduvm :: "u32 \<Rightarrow> u32 \<Rightarrow> nat \<Rightarrow> u32 \<Rightarrow> u32 \<Rightarrow> 'a fs_scheme \<Rightarrow> (int, 'a fs_scheme) kresult" where
  "loaduvm pgdir addr ip offset sz s =
     (if addr mod PGSIZE \<noteq> 0 then Inl (Panic ''loaduvm: addr must be page aligned'')
      else loaduvm_loop pgdir addr ip offset sz (page_steps 0 sz) s)"

text \<open>The loop over the program headers, \<open>n\<close> of them from \<open>off\<close>: the size of the image, or \<open>None\<close> for
  \<open>goto bad\<close>.\<close>

fun exec_load :: "u32 \<Rightarrow> nat \<Rightarrow> nat \<Rightarrow> u32 \<Rightarrow> u32 \<Rightarrow> 'a kern_scheme \<Rightarrow> (u32 option, 'a kern_scheme) kresult" where
  "exec_load pgdir ip 0 off sz s = Inr (Some sz, s)"
| "exec_load pgdir ip (Suc n) off sz s =
     bindE (readi devsw_read ip off 32 s) (\<lambda>r s.
       if fst r \<noteq> 32 then Inr (None, s)
       else
         let ph = proghdr_of (snd r) in
         if ph_type ph \<noteq> ELF_PROG_LOAD then exec_load pgdir ip n (off + 32) sz s
         else if ph_memsz ph < ph_filesz ph then Inr (None, s)
         else if ph_vaddr ph + ph_memsz ph < ph_vaddr ph then Inr (None, s)
         else
           bindE (allocuvm pgdir sz (ph_vaddr ph + ph_memsz ph) s) (\<lambda>sz s.
             if sz = 0 then Inr (None, s)
             else if ph_vaddr ph mod PGSIZE \<noteq> 0 then Inr (None, s)
             else
               bindE (loaduvm pgdir (ph_vaddr ph) ip (ph_off ph) (ph_filesz ph) s) (\<lambda>r s.
                 if r < 0 then Inr (None, s) else exec_load pgdir ip n (off + 32) sz s)))"

section \<open>The stack of the new image\<close>

text \<open>The loop that pushes the argument strings: the stack pointer and the addresses of the strings.\<close>

fun exec_args :: "u32 \<Rightarrow> u8 list list \<Rightarrow> nat \<Rightarrow> u32 \<Rightarrow> 'a kern_scheme \<Rightarrow>
    ((u32 \<times> u32 list) option, 'a kern_scheme) kresult" where
  "exec_args pgdir [] argc sp s = Inr (Some (sp, []), s)"
| "exec_args pgdir (a # argv) argc sp s =
     (if argc \<ge> MAXARG then Inr (None, s)
      else
        let sp = (sp - (of_nat (length a) + 1)) AND NOT 3 in
        bindE (copyout pgdir sp (a @ [0]) s) (\<lambda>r s.
          if r < 0 then Inr (None, s)
          else
            bindE (exec_args pgdir argv (Suc argc) sp s) (\<lambda>q s.
              Inr (map_option (\<lambda>(sp', ps). (sp', sp # ps)) q, s))))"

text \<open>The words of \<open>ustack\<close>: fake return address, \<open>argc\<close>, \<open>argv\<close>, the pointers and a null pointer.\<close>

definition ustack :: "u32 \<Rightarrow> u32 list \<Rightarrow> u32 list" where
  "ustack sp ps = [0xffffffff, of_nat (length ps), sp - (of_nat (length ps) + 1) * 4] @ ps @ [0]"

definition base_name :: "u8 list \<Rightarrow> u8 list" where
  "base_name path = rev (takeWhile (\<lambda>c. c \<noteq> SLASH) (rev path))"

definition exec_bad :: "u32 \<Rightarrow> nat option \<Rightarrow> 'a kern_scheme \<Rightarrow> (int, 'a kern_scheme) kresult" where
  "exec_bad pgdir ip s =
     bindE (if pgdir \<noteq> 0 then freevm pgdir s else Inr ((), s)) (\<lambda>_ s.
     bindE (case ip of None \<Rightarrow> Inr ((), s)
              | Some ip \<Rightarrow> bindE (iunlockput ip s) (\<lambda>_ s. end_op s)) (\<lambda>_ s.
     Inr (-1, s)))"

text \<open>The last part of \<open>exec\<close>: the new image becomes that of the process.\<close>

definition exec_commit :: "u8 list \<Rightarrow> u32 \<Rightarrow> u32 \<Rightarrow> u32 \<Rightarrow> u32 \<Rightarrow> 'a kern_scheme \<Rightarrow> (int, 'a kern_scheme) kresult" where
  "exec_commit path pgdir sz entry sp s =
     (case cur s of
        None \<Rightarrow> Inl BadAccess
      | Some me \<Rightarrow>
          let oldpgdir = p_pgdir (ptable s ! me); tf = p_tf (ptable s ! me);
              s = set_proc me (\<lambda>p. p\<lparr>p_name := copy_name (base_name path), p_pgdir := pgdir,
                                      p_sz := sz\<rparr>) s;
              m = put32 (mem s) (tf + TF_EIP) entry;
              m = put32 m (tf + TF_ESP) sp in
          bindE (switchuvm (Some me) (s\<lparr>mem := m\<rparr>)) (\<lambda>_ s.
          bindE (freevm oldpgdir s) (\<lambda>_ s. Inr (0, s))))"

definition exec :: "u8 list \<Rightarrow> u8 list list \<Rightarrow> 'a kern_scheme \<Rightarrow> (int, 'a kern_scheme) kresult" where
  "exec path argv s =
     bindE (begin_op s) (\<lambda>_ s.
     bindE (namei path s) (\<lambda>ipo s.
       case ipo of
         None \<Rightarrow>
           bindE (end_op s) (\<lambda>_ s. bindE (cprintf (msg ''exec: fail!'') [] s) (\<lambda>_ s. Inr (-1, s)))
       | Some ip \<Rightarrow>
           bindE (ilock (Some ip) s) (\<lambda>_ s.
           bindE (readi devsw_read ip 0 52 s) (\<lambda>r s.
             let elf = elfhdr_of (snd r) in
             if fst r \<noteq> 52 \<or> elf_magic elf \<noteq> ELF_MAGIC then exec_bad 0 (Some ip) s
             else
               bindE (setupkvm s) (\<lambda>pgdir s.
                 if pgdir = 0 then exec_bad 0 (Some ip) s
                 else
                   bindE (exec_load pgdir ip (unat (elf_phnum elf)) (elf_phoff elf) 0 s) (\<lambda>szo s.
                     case szo of
                       None \<Rightarrow> exec_bad pgdir (Some ip) s
                     | Some sz \<Rightarrow>
                         bindE (iunlockput ip s) (\<lambda>_ s.
                         bindE (end_op s) (\<lambda>_ s.
                           let sz = PGROUNDUP sz in
                           bindE (allocuvm pgdir sz (sz + 2 * PGSIZE) s) (\<lambda>sz s.
                             if sz = 0 then exec_bad pgdir None s
                             else
                               bindE (clearpteu pgdir (sz - 2 * PGSIZE) s) (\<lambda>_ s.
                               bindE (exec_args pgdir argv 0 sz s) (\<lambda>q s.
                                 case q of
                                   None \<Rightarrow> exec_bad pgdir None s
                                 | Some (sp, ps) \<Rightarrow>
                                     let us = ustack sp ps; sp = sp - of_nat (length us) * 4 in
                                     bindE (copyout pgdir sp (concat (map bytes32 us)) s) (\<lambda>r s.
                                       if r < 0 then exec_bad pgdir None s
                                       else exec_commit path pgdir sz (elf_entry elf) sp s))))))))))))"

end
