(* ===== verification/Sysfile.thy ===== *)
theory Sysfile
  imports Exec
begin

text \<open>
  The file system calls (\<open>sysfile.c\<close>).  The path arguments are the strings that \<open>argstr\<close> finds in user
  memory; the data of \<open>sys_read\<close>, \<open>sys_fstat\<close> and \<open>sys_pipe\<close> is stored there, that of \<open>sys_write\<close> is
  fetched from there.
\<close>

section \<open>File descriptors\<close>

definition argfd :: "u32 \<Rightarrow> 'a kern_scheme \<Rightarrow> ((nat \<times> nat) option, 'a kern_scheme) kresult" where
  "argfd n s =
     bindE (argint n s) (\<lambda>r s.
       case r of
         None \<Rightarrow> Inr (None, s)
       | Some fd \<Rightarrow>
           bindE (myproc s) (\<lambda>p s.
             if sint fd < 0 \<or> sint fd \<ge> int NOFILE then Inr (None, s)
             else
               case p_ofile p ! unat fd of
                 None \<Rightarrow> Inr (None, s)
               | Some f \<Rightarrow> Inr (Some (unat fd, f), s)))"

definition set_ofile :: "nat \<Rightarrow> nat option \<Rightarrow> 'a ptab_scheme \<Rightarrow> (unit, 'a ptab_scheme) kresult" where
  "set_ofile fd fo s =
     (case cur s of
        None \<Rightarrow> Inl BadAccess
      | Some me \<Rightarrow> Inr ((), set_proc me (\<lambda>p. p\<lparr>p_ofile := (p_ofile p)[fd := fo]\<rparr>) s))"

definition fdalloc :: "nat \<Rightarrow> 'a kern_scheme \<Rightarrow> (nat option, 'a kern_scheme) kresult" where
  "fdalloc f s =
     bindE (myproc s) (\<lambda>p s.
       case first_index (\<lambda>o1. o1 = None) (take NOFILE (p_ofile p)) of
         None \<Rightarrow> Inr (None, s)
       | Some fd \<Rightarrow> bindE (set_ofile fd (Some f) s) (\<lambda>_ s. Inr (Some fd, s)))"

definition sys_dup :: "'a kern_scheme \<Rightarrow> (int, 'a kern_scheme) kresult" where
  "sys_dup s =
     bindE (argfd 0 s) (\<lambda>r s.
       case r of
         None \<Rightarrow> Inr (-1, s)
       | Some (_, f) \<Rightarrow>
           bindE (fdalloc f s) (\<lambda>fdo s.
             case fdo of
               None \<Rightarrow> Inr (-1, s)
             | Some fd \<Rightarrow> bindE (filedup f s) (\<lambda>_ s. Inr (int fd, s))))"

text \<open>The arguments of \<open>read\<close> and \<open>write\<close>: a file, the buffer and its size.\<close>

definition rw_args :: "'a kern_scheme \<Rightarrow> ((nat \<times> u32 \<times> u32) option, 'a kern_scheme) kresult" where
  "rw_args s =
     bindE (argfd 0 s) (\<lambda>r s.
       case r of
         None \<Rightarrow> Inr (None, s)
       | Some (_, f) \<Rightarrow>
           bindE (argint 2 s) (\<lambda>no s.
             case no of
               None \<Rightarrow> Inr (None, s)
             | Some n \<Rightarrow>
                 bindE (argptr 1 n s) (\<lambda>po s. Inr (map_option (\<lambda>p. (f, p, n)) po, s))))"

definition sys_read :: "'a kern_scheme \<Rightarrow> (int, 'a kern_scheme) kresult" where
  "sys_read s =
     bindE (rw_args s) (\<lambda>r s.
       case r of
         None \<Rightarrow> Inr (-1, s)
       | Some (f, p, n) \<Rightarrow>
           bindE (fileread f (sint n) s) (\<lambda>q s.
           bindE (user_store p (snd q) s) (\<lambda>_ s. Inr (fst q, s))))"

text \<open>\<open>filewrite\<close> looks at the user's bytes only if the file is writable.\<close>

definition sys_write :: "'a kern_scheme \<Rightarrow> (int, 'a kern_scheme) kresult" where
  "sys_write s =
     bindE (rw_args s) (\<lambda>r s.
       case r of
         None \<Rightarrow> Inr (-1, s)
       | Some (f, p, n) \<Rightarrow>
           bindE (if f_writable (ftable s ! f) then user_load p (unat n) s else Inr ([], s)) (\<lambda>bs s.
           filewrite f bs (sint n) s))"

definition sys_close :: "'a kern_scheme \<Rightarrow> (int, 'a kern_scheme) kresult" where
  "sys_close s =
     bindE (argfd 0 s) (\<lambda>r s.
       case r of
         None \<Rightarrow> Inr (-1, s)
       | Some (fd, f) \<Rightarrow>
           bindE (set_ofile fd None s) (\<lambda>_ s.
           bindE (fileclose f s) (\<lambda>_ s. Inr (0, s))))"

text \<open>The fields of \<open>struct stat\<close> are stored one by one; the padding is left alone.\<close>

definition sys_fstat :: "'a kern_scheme \<Rightarrow> (int, 'a kern_scheme) kresult" where
  "sys_fstat s =
     bindE (argfd 0 s) (\<lambda>r s.
       case r of
         None \<Rightarrow> Inr (-1, s)
       | Some (_, f) \<Rightarrow>
           bindE (argptr 1 20 s) (\<lambda>po s.
             case po of
               None \<Rightarrow> Inr (-1, s)
             | Some p \<Rightarrow>
                 bindE (filestat f s) (\<lambda>sto s.
                   case sto of
                     None \<Rightarrow> Inr (-1, s)
                   | Some st \<Rightarrow>
                       bindE (user_store p (bytes16 (st_type st)) s) (\<lambda>_ s.
                       bindE (user_store (p + 4) (bytes32 (st_dev st) @ bytes32 (st_ino st) @
                                bytes16 (st_nlink st)) s) (\<lambda>_ s.
                       bindE (user_store (p + 16) (bytes32 (st_size st)) s) (\<lambda>_ s. Inr (0, s)))))))"

section \<open>Links\<close>

text \<open>A call that has started a transaction fails.\<close>

definition fail_op :: "'a kern_scheme \<Rightarrow> (int, 'a kern_scheme) kresult" where
  "fail_op s = bindE (end_op s) (\<lambda>_ s. Inr (-1, s))"

definition add_nlink :: "nat \<Rightarrow> u16 \<Rightarrow> 'a fs_scheme \<Rightarrow> 'a fs_scheme" where
  "add_nlink i d s = set_inode i (\<lambda>ip. ip\<lparr>i_nlink := i_nlink ip + d\<rparr>) s"

definition sys_link_bad :: "nat \<Rightarrow> 'a kern_scheme \<Rightarrow> (int, 'a kern_scheme) kresult" where
  "sys_link_bad ip s =
     bindE (ilock (Some ip) s) (\<lambda>_ s.
     bindE (iupdate ip (add_nlink ip (-1) s)) (\<lambda>_ s.
     bindE (iunlockput ip s) (\<lambda>_ s. fail_op s)))"

definition sys_link :: "'a kern_scheme \<Rightarrow> (int, 'a kern_scheme) kresult" where
  "sys_link s =
     bindE (argstr 0 s) (\<lambda>oldo s.
       case oldo of None \<Rightarrow> Inr (-1, s) | Some old \<Rightarrow>
     bindE (argstr 1 s) (\<lambda>newo s.
       case newo of None \<Rightarrow> Inr (-1, s) | Some new \<Rightarrow>
     bindE (begin_op s) (\<lambda>_ s.
     bindE (namei old s) (\<lambda>ipo s.
       case ipo of None \<Rightarrow> fail_op s | Some ip \<Rightarrow>
     bindE (ilock (Some ip) s) (\<lambda>_ s.
       if i_type (inodes s ! ip) = T_DIR then bindE (iunlockput ip s) (\<lambda>_ s. fail_op s)
       else
     bindE (iupdate ip (add_nlink ip 1 s)) (\<lambda>_ s.
     bindE (iunlock (Some ip) s) (\<lambda>_ s.
     bindE (nameiparent new (\<lambda>_. 0) s) (\<lambda>r s.
       case r of (None, _) \<Rightarrow> sys_link_bad ip s | (Some dp, name) \<Rightarrow>
     bindE (ilock (Some dp) s) (\<lambda>_ s.
     bindE (if i_dev (inodes s ! dp) \<noteq> i_dev (inodes s ! ip) then Inr (-1, s)
            else dirlink dp name (i_inum (inodes s ! ip)) s) (\<lambda>r s.
     bindE (iunlockput dp s) (\<lambda>_ s.
       if r < 0 then sys_link_bad ip s
       else
     bindE (iput ip s) (\<lambda>_ s.
     bindE (end_op s) (\<lambda>_ s. Inr (0, s))))))))))))))"

text \<open>The loop of \<open>isdirempty\<close>.\<close>

function isdirempty_loop :: "nat \<Rightarrow> u32 \<Rightarrow> 'a fs_scheme \<Rightarrow> (bool, 'a fs_scheme) kresult" where
  "isdirempty_loop dp off s =
     (if off < i_size (inodes s ! dp) then
        bindE (readi nodev dp off 16 s) (\<lambda>r s.
          if fst r \<noteq> 16 then Inl (Panic ''isdirempty: readi'')
          else if de_inum (snd r) \<noteq> 0 then Inr (False, s)
          else isdirempty_loop dp (off + 16) s)
      else Inr (True, s))"
  by pat_completeness auto
termination
  by (relation "measure (\<lambda>(dp, off, s). 2 ^ 32 - unat off)")
     (auto dest!: readi_no_wrap intro!: diff_less_mono2 unsigned_less [where ?'a = nat and ?'b = 32, simplified])

declare isdirempty_loop.simps [simp del]

definition isdirempty :: "nat \<Rightarrow> 'a fs_scheme \<Rightarrow> (bool, 'a fs_scheme) kresult" where
  "isdirempty dp s = isdirempty_loop dp (2 * 16) s"

definition unlink_bad :: "nat \<Rightarrow> 'a kern_scheme \<Rightarrow> (int, 'a kern_scheme) kresult" where
  "unlink_bad dp s = bindE (iunlockput dp s) (\<lambda>_ s. fail_op s)"

definition sys_unlink :: "'a kern_scheme \<Rightarrow> (int, 'a kern_scheme) kresult" where
  "sys_unlink s =
     bindE (argstr 0 s) (\<lambda>patho s.
       case patho of None \<Rightarrow> Inr (-1, s) | Some path \<Rightarrow>
     bindE (begin_op s) (\<lambda>_ s.
     bindE (nameiparent path (\<lambda>_. 0) s) (\<lambda>r s.
       case r of (None, _) \<Rightarrow> fail_op s | (Some dp, name) \<Rightarrow>
     bindE (ilock (Some dp) s) (\<lambda>_ s.
       if namecmp name (str_array (bytes ''.'')) = 0 \<or> namecmp name (str_array (bytes ''..'')) = 0
       then unlink_bad dp s
       else
     bindE (dirlookup dp name s) (\<lambda>r s.
       case r of None \<Rightarrow> unlink_bad dp s | Some (ip, off) \<Rightarrow>
     bindE (ilock (Some ip) s) (\<lambda>_ s.
       if sint (i_nlink (inodes s ! ip)) < 1 then Inl (Panic ''unlink: nlink < 1'')
       else
     bindE (if i_type (inodes s ! ip) = T_DIR then isdirempty ip s else Inr (True, s)) (\<lambda>empty s.
       if \<not> empty then bindE (iunlockput ip s) (\<lambda>_ s. unlink_bad dp s)
       else
     bindE (writei nodev dp (replicate 16 0) off 16 s) (\<lambda>r s.
       if r \<noteq> 16 then Inl (Panic ''unlink: writei'')
       else
     bindE (if i_type (inodes s ! ip) = T_DIR then iupdate dp (add_nlink dp (-1) s)
            else Inr ((), s)) (\<lambda>_ s.
     bindE (iunlockput dp s) (\<lambda>_ s.
     bindE (iupdate ip (add_nlink ip (-1) s)) (\<lambda>_ s.
     bindE (iunlockput ip s) (\<lambda>_ s.
     bindE (end_op s) (\<lambda>_ s. Inr (0, s))))))))))))))"

section \<open>Creating and opening files\<close>

definition create_dots :: "nat \<Rightarrow> nat \<Rightarrow> 'a fs_scheme \<Rightarrow> (unit, 'a fs_scheme) kresult" where
  "create_dots dp ip s =
     bindE (iupdate dp (add_nlink dp 1 s)) (\<lambda>_ s.
     bindE (dirlink ip (str_array (bytes ''.'')) (i_inum (inodes s ! ip)) s) (\<lambda>r s.
       if r < 0 then Inl (Panic ''create dots'')
       else
         bindE (dirlink ip (str_array (bytes ''..'')) (i_inum (inodes s ! dp)) s) (\<lambda>r s.
           if r < 0 then Inl (Panic ''create dots'') else Inr ((), s))))"

definition create :: "u8 list \<Rightarrow> u16 \<Rightarrow> u16 \<Rightarrow> u16 \<Rightarrow> 'a fs_scheme \<Rightarrow> (nat option, 'a fs_scheme) kresult" where
  "create path type major minor s =
     bindE (nameiparent path (\<lambda>_. 0) s) (\<lambda>r s.
       case r of (None, _) \<Rightarrow> Inr (None, s) | (Some dp, name) \<Rightarrow>
     bindE (ilock (Some dp) s) (\<lambda>_ s.
     bindE (dirlookup dp name s) (\<lambda>r s.
       case r of
         Some (ip, _) \<Rightarrow>
           bindE (iunlockput dp s) (\<lambda>_ s.
           bindE (ilock (Some ip) s) (\<lambda>_ s.
             if type = T_FILE \<and> i_type (inodes s ! ip) = T_FILE then Inr (Some ip, s)
             else bindE (iunlockput ip s) (\<lambda>_ s. Inr (None, s))))
       | None \<Rightarrow>
           bindE (ialloc (i_dev (inodes s ! dp)) type s) (\<lambda>ip s.
           bindE (ilock (Some ip) s) (\<lambda>_ s.
           bindE (iupdate ip (set_inode ip (\<lambda>x. x\<lparr>i_major := major, i_minor := minor,
                                                  i_nlink := 1\<rparr>) s)) (\<lambda>_ s.
           bindE (if type = T_DIR then create_dots dp ip s else Inr ((), s)) (\<lambda>_ s.
           bindE (dirlink dp name (i_inum (inodes s ! ip)) s) (\<lambda>r s.
             if r < 0 then Inl (Panic ''create: dirlink'')
             else bindE (iunlockput dp s) (\<lambda>_ s. Inr (Some ip, s))))))))))"

definition O_RDONLY :: u32 where "O_RDONLY = 0"
definition O_WRONLY :: u32 where "O_WRONLY = 1"
definition O_RDWR :: u32 where "O_RDWR = 2"
definition O_CREATE :: u32 where "O_CREATE = 0x200"

text \<open>The inode that \<open>sys_open\<close> opens, locked.\<close>

definition open_inode :: "u8 list \<Rightarrow> u32 \<Rightarrow> 'a fs_scheme \<Rightarrow> (nat option, 'a fs_scheme) kresult" where
  "open_inode path omode s =
     (if omode AND O_CREATE \<noteq> 0 then create path T_FILE 0 0 s
      else
        bindE (namei path s) (\<lambda>ipo s.
          case ipo of
            None \<Rightarrow> Inr (None, s)
          | Some ip \<Rightarrow>
              bindE (ilock (Some ip) s) (\<lambda>_ s.
                if i_type (inodes s ! ip) = T_DIR \<and> omode \<noteq> O_RDONLY
                then bindE (iunlockput ip s) (\<lambda>_ s. Inr (None, s))
                else Inr (Some ip, s))))"

definition sys_open :: "'a kern_scheme \<Rightarrow> (int, 'a kern_scheme) kresult" where
  "sys_open s =
     bindE (argstr 0 s) (\<lambda>patho s.
       case patho of None \<Rightarrow> Inr (-1, s) | Some path \<Rightarrow>
     bindE (argint 1 s) (\<lambda>omodeo s.
       case omodeo of None \<Rightarrow> Inr (-1, s) | Some omode \<Rightarrow>
     bindE (begin_op s) (\<lambda>_ s.
     bindE (open_inode path omode s) (\<lambda>ipo s.
       case ipo of None \<Rightarrow> fail_op s | Some ip \<Rightarrow>
     bindE (filealloc s) (\<lambda>fo s.
     bindE (case fo of None \<Rightarrow> Inr (None, s) | Some f \<Rightarrow> fdalloc f s) (\<lambda>fdo s.
       case fdo of
         None \<Rightarrow>
           bindE (close_opt fo s) (\<lambda>_ s. bindE (iunlockput ip s) (\<lambda>_ s. fail_op s))
       | Some fd \<Rightarrow>
           bindE (iunlock (Some ip) s) (\<lambda>_ s.
           bindE (end_op s) (\<lambda>_ s.
             Inr (int fd, set_file (the fo) (\<lambda>x. x\<lparr>f_type := FD_INODE, f_ip := ip, f_off := 0,
                       f_readable := (omode AND O_WRONLY = 0),
                       f_writable := (omode AND O_WRONLY \<noteq> 0 \<or> omode AND O_RDWR \<noteq> 0)\<rparr>) s)))))))))"

definition sys_mkdir :: "'a kern_scheme \<Rightarrow> (int, 'a kern_scheme) kresult" where
  "sys_mkdir s =
     bindE (begin_op s) (\<lambda>_ s.
     bindE (argstr 0 s) (\<lambda>patho s.
     bindE (case patho of None \<Rightarrow> Inr (None, s) | Some path \<Rightarrow> create path T_DIR 0 0 s) (\<lambda>ipo s.
       case ipo of
         None \<Rightarrow> fail_op s
       | Some ip \<Rightarrow> bindE (iunlockput ip s) (\<lambda>_ s. bindE (end_op s) (\<lambda>_ s. Inr (0, s))))))"

definition sys_mknod :: "'a kern_scheme \<Rightarrow> (int, 'a kern_scheme) kresult" where
  "sys_mknod s =
     bindE (begin_op s) (\<lambda>_ s.
     bindE (argstr 0 s) (\<lambda>patho s.
       case patho of None \<Rightarrow> fail_op s | Some path \<Rightarrow>
     bindE (argint 1 s) (\<lambda>majoro s.
       case majoro of None \<Rightarrow> fail_op s | Some major \<Rightarrow>
     bindE (argint 2 s) (\<lambda>minoro s.
       case minoro of None \<Rightarrow> fail_op s | Some minor \<Rightarrow>
     bindE (create path T_DEV (ucast major) (ucast minor) s) (\<lambda>ipo s.
       case ipo of
         None \<Rightarrow> fail_op s
       | Some ip \<Rightarrow> bindE (iunlockput ip s) (\<lambda>_ s. bindE (end_op s) (\<lambda>_ s. Inr (0, s))))))))"

definition sys_chdir :: "'a kern_scheme \<Rightarrow> (int, 'a kern_scheme) kresult" where
  "sys_chdir s =
     (case cur s of None \<Rightarrow> Inl BadAccess | Some me \<Rightarrow>
     bindE (begin_op s) (\<lambda>_ s.
     bindE (argstr 0 s) (\<lambda>patho s.
     bindE (case patho of None \<Rightarrow> Inr (None, s) | Some path \<Rightarrow> namei path s) (\<lambda>ipo s.
       case ipo of None \<Rightarrow> fail_op s | Some ip \<Rightarrow>
     bindE (ilock (Some ip) s) (\<lambda>_ s.
       if i_type (inodes s ! ip) \<noteq> T_DIR then bindE (iunlockput ip s) (\<lambda>_ s. fail_op s)
       else
     bindE (iunlock (Some ip) s) (\<lambda>_ s.
     bindE (case p_cwd (ptable s ! me) of None \<Rightarrow> Inl BadAccess | Some c \<Rightarrow> iput c s) (\<lambda>_ s.
     bindE (end_op s) (\<lambda>_ s.
     Inr (0, set_proc me (\<lambda>p. p\<lparr>p_cwd := Some ip\<rparr>) s)))))))))"

section \<open>Exec and pipe\<close>

text \<open>The argument vector of \<open>sys_exec\<close>, of which \<open>n\<close> more entries fit.\<close>

fun fetch_argv :: "u32 \<Rightarrow> nat \<Rightarrow> 'a kern_scheme \<Rightarrow> (u8 list list option, 'a kern_scheme) kresult" where
  "fetch_argv uargv 0 s = Inr (None, s)"
| "fetch_argv uargv (Suc n) s =
     bindE (fetchint uargv s) (\<lambda>r s.
       case r of
         None \<Rightarrow> Inr (None, s)
       | Some uarg \<Rightarrow>
           if uarg = 0 then Inr (Some [], s)
           else
             bindE (fetchstr uarg s) (\<lambda>r s.
               case r of
                 None \<Rightarrow> Inr (None, s)
               | Some a \<Rightarrow>
                   bindE (fetch_argv (uargv + 4) n s) (\<lambda>q s. Inr (map_option (Cons a) q, s))))"

definition sys_exec :: "'a kern_scheme \<Rightarrow> (int, 'a kern_scheme) kresult" where
  "sys_exec s =
     bindE (argstr 0 s) (\<lambda>patho s.
       case patho of None \<Rightarrow> Inr (-1, s) | Some path \<Rightarrow>
     bindE (argint 1 s) (\<lambda>r s.
       case r of None \<Rightarrow> Inr (-1, s) | Some uargv \<Rightarrow>
     bindE (fetch_argv uargv MAXARG s) (\<lambda>r s.
       case r of None \<Rightarrow> Inr (-1, s) | Some argv \<Rightarrow> exec path argv s)))"

definition sys_pipe :: "'a kern_scheme \<Rightarrow> (int, 'a kern_scheme) kresult" where
  "sys_pipe s =
     bindE (argptr 0 8 s) (\<lambda>r s.
       case r of None \<Rightarrow> Inr (-1, s) | Some fd \<Rightarrow>
     bindE (pipealloc s) (\<lambda>r s.
       case r of None \<Rightarrow> Inr (-1, s) | Some (rfile, wfile) \<Rightarrow>
     bindE (fdalloc rfile s) (\<lambda>fd0 s.
     bindE (case fd0 of None \<Rightarrow> Inr (None, s) | Some _ \<Rightarrow> fdalloc wfile s) (\<lambda>fd1 s.
       case (fd0, fd1) of
         (Some a, Some b) \<Rightarrow>
           bindE (user_store fd (bytes32 (of_nat a)) s) (\<lambda>_ s.
           bindE (user_store (fd + 4) (bytes32 (of_nat b)) s) (\<lambda>_ s. Inr (0, s)))
       | _ \<Rightarrow>
           bindE (case fd0 of None \<Rightarrow> Inr ((), s) | Some a \<Rightarrow> set_ofile a None s) (\<lambda>_ s.
           bindE (fileclose rfile s) (\<lambda>_ s.
           bindE (fileclose wfile s) (\<lambda>_ s. Inr (-1, s))))))))"

end
