(* ===== verification/Trap.thy ===== *)
theory Trap
  imports Sysfile
begin

text \<open>
  System call dispatch and traps (\<open>sysproc.c\<close>, the second half of \<open>syscall.c\<close>, \<open>trap.c\<close>), with the local
  APIC (\<open>lapic.c\<close>) as far as it is written to.  \<open>trap\<close> takes the address of the trap frame, the number of
  the CPU and the fault address register.  It is cut where it yields: \<open>trap\<close> runs until the CPU goes
  to the scheduler or the handler returns, \<open>trap_resume\<close> is what runs when the process is
  scheduled again.
\<close>

section \<open>The local APIC\<close>

definition lapicw :: "u32 \<Rightarrow> u32 \<Rightarrow> 'a kern_scheme \<Rightarrow> 'a kern_scheme" where
  "lapicw index value s = s\<lparr>lapic_w := lapic_w s @ [(index, value)]\<rparr>"

definition lapiceoi :: "'a kern_scheme \<Rightarrow> 'a kern_scheme" where
  "lapiceoi s = (if lapic_on s then lapicw (0xB0 div 4) 0 s else s)"

text \<open>\<open>ver\<close> is what the version register reads.  The wait for the delivery of the interrupt message
  has no other effect.\<close>

definition lapicinit :: "u32 \<Rightarrow> 'a kern_scheme \<Rightarrow> 'a kern_scheme" where
  "lapicinit ver s =
     (if \<not> lapic_on s then s
      else
        let s = lapicw (0xF0 div 4) (0x100 OR (T_IRQ0 + IRQ_SPURIOUS)) s;
            s = lapicw (0x3E0 div 4) 0xB s;
            s = lapicw (0x320 div 4) (0x20000 OR (T_IRQ0 + IRQ_TIMER)) s;
            s = lapicw (0x380 div 4) 10000000 s;
            s = lapicw (0x350 div 4) 0x10000 s;
            s = lapicw (0x360 div 4) 0x10000 s;
            s = (if drop_bit 16 ver AND 0xFF \<ge> 4 then lapicw (0x340 div 4) 0x10000 s else s);
            s = lapicw (0x370 div 4) (T_IRQ0 + IRQ_ERROR) s;
            s = lapicw (0x280 div 4) 0 s;
            s = lapicw (0x280 div 4) 0 s;
            s = lapicw (0xB0 div 4) 0 s;
            s = lapicw (0x310 div 4) 0 s;
            s = lapicw (0x300 div 4) (0x80000 OR 0x500 OR 0x8000) s
        in lapicw (0x80 div 4) 0 s)"

text \<open>The wake-up of another CPU: the warm reset vector is in the BIOS data area, at \<open>0x467\<close>.\<close>

definition lapicstartap :: "u8 \<Rightarrow> u32 \<Rightarrow> 'a kern_scheme \<Rightarrow> 'a kern_scheme" where
  "lapicstartap apicid0 addr s =
     (let wrv = P2V (push_bit 4 0x40 OR 0x67);
          s = s\<lparr>pic := pic s @ [(0x70, 0xF), (0x71, 0xA)],
                mem := put16 (put16 (mem s) wrv 0) (wrv + 2) (ucast (drop_bit 4 addr))\<rparr>;
          s = lapicw (0x310 div 4) (push_bit 24 (ucast apicid0)) s;
          s = lapicw (0x300 div 4) (0x500 OR 0x8000 OR 0x4000) s;
          s = lapicw (0x300 div 4) (0x500 OR 0x8000) s;
          s = lapicw (0x310 div 4) (push_bit 24 (ucast apicid0)) s;
          s = lapicw (0x300 div 4) (0x600 OR drop_bit 12 addr) s;
          s = lapicw (0x310 div 4) (push_bit 24 (ucast apicid0)) s
      in lapicw (0x300 div 4) (0x600 OR drop_bit 12 addr) s)"

section \<open>Process system calls\<close>

definition sys_fork :: "'a kern_scheme \<Rightarrow> (int, 'a kern_scheme) kresult" where
  "sys_fork s = fork s"

definition sys_wait :: "'a kern_scheme \<Rightarrow> (int, 'a kern_scheme) kresult" where
  "sys_wait s = wait s"

definition sys_kill :: "'a kern_scheme \<Rightarrow> (int, 'a kern_scheme) kresult" where
  "sys_kill s =
     bindE (argint 0 s) (\<lambda>r s. case r of None \<Rightarrow> Inr (-1, s) | Some pid \<Rightarrow> kill pid s)"

definition sys_getpid :: "'a kern_scheme \<Rightarrow> (int, 'a kern_scheme) kresult" where
  "sys_getpid s = bindE (myproc s) (\<lambda>p s. Inr (sint (p_pid p), s))"

definition sys_sbrk :: "'a kern_scheme \<Rightarrow> (int, 'a kern_scheme) kresult" where
  "sys_sbrk s =
     bindE (argint 0 s) (\<lambda>r s.
       case r of
         None \<Rightarrow> Inr (-1, s)
       | Some n \<Rightarrow>
           bindE (myproc s) (\<lambda>p s.
           bindE (growproc n s) (\<lambda>q s. Inr (if q < 0 then -1 else sint (p_sz p), s))))"

text \<open>A turn of the loop of \<open>sys_sleep\<close>: \<open>None\<close> if it sleeps.  The comparison is unsigned.\<close>

definition sys_sleep_turn :: "u32 \<Rightarrow> u32 \<Rightarrow> 'a kern_scheme \<Rightarrow> (int option, 'a kern_scheme) kresult" where
  "sys_sleep_turn ticks0 n s =
     (if ticks s - ticks0 < n then
        bindE (myproc_killed s) (\<lambda>k s.
          if k then bindE (lk_release TicksLock s) (\<lambda>_ s. Inr (Some (-1), s))
          else bindE (sleep_enter ChTicks (Some TicksLock) s) (\<lambda>_ s. Inr (None, s)))
      else bindE (lk_release TicksLock s) (\<lambda>_ s. Inr (Some 0, s)))"

definition sys_sleep :: "'a kern_scheme \<Rightarrow> (int, 'a kern_scheme) kresult" where
  "sys_sleep s =
     bindE (argint 0 s) (\<lambda>r s.
       case r of
         None \<Rightarrow> Inr (-1, s)
       | Some n \<Rightarrow>
           bindE (lk_acquire TicksLock s) (\<lambda>_ s.
           bindE (sys_sleep_turn (ticks s) n s) (\<lambda>q s.
             case q of Some x \<Rightarrow> Inr (x, s) | None \<Rightarrow> Inl (Blocked ChTicks))))"

definition sys_uptime :: "'a kern_scheme \<Rightarrow> (int, 'a kern_scheme) kresult" where
  "sys_uptime s =
     bindE (lk_acquire TicksLock s) (\<lambda>_ s.
       let x = ticks s in bindE (lk_release TicksLock s) (\<lambda>_ s. Inr (sint x, s)))"

section \<open>Dispatch\<close>

text \<open>The table \<open>syscalls\<close>, by number.  \<open>sys_exit\<close> is not in it: it does not return.\<close>

definition syscalls :: "u32 \<Rightarrow> ('a kern_scheme \<Rightarrow> (int, 'a kern_scheme) kresult) option" where
  "syscalls num =
     (if num = 1 then Some sys_fork else if num = 3 then Some sys_wait
      else if num = 4 then Some sys_pipe else if num = 5 then Some sys_read
      else if num = 6 then Some sys_kill else if num = 7 then Some sys_exec
      else if num = 8 then Some sys_fstat else if num = 9 then Some sys_chdir
      else if num = 10 then Some sys_dup else if num = 11 then Some sys_getpid
      else if num = 12 then Some sys_sbrk else if num = 13 then Some sys_sleep
      else if num = 14 then Some sys_uptime else if num = 15 then Some sys_open
      else if num = 16 then Some sys_write else if num = 17 then Some sys_mknod
      else if num = 18 then Some sys_unlink else if num = 19 then Some sys_link
      else if num = 20 then Some sys_mkdir else if num = 21 then Some sys_close
      else None)"

definition SYS_exit :: u32 where "SYS_exit = 2"

definition set_eax :: "u32 \<Rightarrow> 'a kern_scheme \<Rightarrow> (unit, 'a kern_scheme) kresult" where
  "set_eax v s =
     bindE (myproc s) (\<lambda>p s. Inr ((), s\<lparr>mem := put32 (mem s) (p_tf p + TF_EAX) v\<rparr>))"

definition syscall :: "'a kern_scheme \<Rightarrow> (unit, 'a kern_scheme) kresult" where
  "syscall s =
     bindE (myproc s) (\<lambda>p s.
       let num = get32 (mem s) (p_tf p + TF_EAX) in
       if num = SYS_exit then exit s
       else
         case syscalls num of
           Some f \<Rightarrow> bindE (f s) (\<lambda>r s. set_eax (of_int r) s)
         | None \<Rightarrow>
             bindE (cprintf (msg ''%d %s: unknown sys call %d!'')
                      [AInt (p_pid p), AStr (Some (p_name p)), AInt num] s) (\<lambda>_ s.
             set_eax (-1) s))"

section \<open>Traps\<close>

definition T_SYSCALL :: u32 where "T_SYSCALL = 64"

record gatedesc =
  gd_off_15_0 :: u32
  gd_cs :: u32
  gd_args :: u32
  gd_rsv1 :: u32
  gd_type :: u32
  gd_s :: u32
  gd_dpl :: u32
  gd_p :: u32
  gd_off_31_16 :: u32

definition SETGATE :: "bool \<Rightarrow> u32 \<Rightarrow> u32 \<Rightarrow> u32 \<Rightarrow> gatedesc" where
  "SETGATE istrap sel off d =
     \<lparr>gd_off_15_0 = off AND 0xffff, gd_cs = sel, gd_args = 0, gd_rsv1 = 0,
      gd_type = (if istrap then 0xF else 0xE), gd_s = 0, gd_dpl = d, gd_p = 1,
      gd_off_31_16 = drop_bit 16 off\<rparr>"

text \<open>The interrupt descriptor table that \<open>tvinit\<close> builds from the entry points in \<open>vectors\<close>.\<close>

definition tvinit_idt :: "(nat \<Rightarrow> u32) \<Rightarrow> gatedesc list" where
  "tvinit_idt vectors =
     (map (\<lambda>i. SETGATE False (push_bit 3 1) (vectors i) 0) [0..<256])
       [unat T_SYSCALL := SETGATE True (push_bit 3 1) (vectors (unat T_SYSCALL)) DPL_USER]"

definition tvinit :: "'a kern_scheme \<Rightarrow> 'a kern_scheme" where
  "tvinit s = s\<lparr>klk := klk s - {TicksLock}\<rparr>"

definition tick :: "'a kern_scheme \<Rightarrow> (unit, 'a kern_scheme) kresult" where
  "tick s =
     bindE (lk_acquire TicksLock s) (\<lambda>_ s.
     bindE (wakeup ChTicks (s\<lparr>ticks := ticks s + 1\<rparr>)) (\<lambda>_ s. lk_release TicksLock s))"

definition set_killed :: "nat \<Rightarrow> 'a ptab_scheme \<Rightarrow> 'a ptab_scheme" where
  "set_killed p s = set_proc p (\<lambda>x. x\<lparr>p_killed := True\<rparr>) s"

text \<open>The \<open>switch\<close> over the trap number.  With the memory disk \<open>ideintr\<close> does nothing.\<close>

definition trap_switch :: "u32 \<Rightarrow> u32 \<Rightarrow> u32 \<Rightarrow> 'a kern_scheme \<Rightarrow> (unit, 'a kern_scheme) kresult" where
  "trap_switch tf cpu cr2 s =
     (let no = get32 (mem s) (tf + TF_TRAPNO); eip = get32 (mem s) (tf + TF_EIP);
          cs = get16 (mem s) (tf + TF_CS) in
      if no = T_IRQ0 + IRQ_TIMER then
        bindE (if cpu = 0 then tick s else Inr ((), s)) (\<lambda>_ s. Inr ((), lapiceoi s))
      else if no = T_IRQ0 + IRQ_IDE then Inr ((), lapiceoi s)
      else if no = T_IRQ0 + IRQ_IDE + 1 then Inr ((), s)
      else if no = T_IRQ0 + IRQ_KBD then bindE (kbdintr s) (\<lambda>_ s. Inr ((), lapiceoi s))
      else if no = T_IRQ0 + IRQ_COM1 then bindE (uartintr s) (\<lambda>_ s. Inr ((), lapiceoi s))
      else if no = T_IRQ0 + 7 \<or> no = T_IRQ0 + IRQ_SPURIOUS then
        bindE (cprintf (msg ''cpu%d: spurious interrupt at %x:%x!'') [AInt cpu, AInt (ucast cs), AInt eip] s) (\<lambda>_ s.
        Inr ((), lapiceoi s))
      else
        case (if cs AND 3 = 0 then None else cur s) of
          None \<Rightarrow>
            bindE (cprintf (msg ''unexpected trap %d from cpu %d eip %x (cr2=0x%x)!'')
                     [AInt no, AInt cpu, AInt eip, AInt cr2] s) (\<lambda>_ s.
            Inl (Panic ''trap''))
        | Some p \<Rightarrow>
            bindE (cprintf (msg ''pid %d %s: trap %d err %d on cpu %d eip 0x%x addr 0x%x--kill proc!'')
                     [AInt (p_pid (ptable s ! p)), AStr (Some (p_name (ptable s ! p))), AInt no,
                      AInt (get32 (mem s) (tf + 52)), AInt cpu, AInt eip, AInt cr2] s) (\<lambda>_ s.
            Inr ((), set_killed p s)))"

text \<open>A process that was killed and is on its way back to user space.\<close>

definition must_exit :: "u32 \<Rightarrow> 'a kern_scheme \<Rightarrow> bool" where
  "must_exit tf s =
     (case cur s of
        None \<Rightarrow> False
      | Some p \<Rightarrow> p_killed (ptable s ! p) \<and> get16 (mem s) (tf + TF_CS) AND 3 = ucast DPL_USER)"

definition trap :: "u32 \<Rightarrow> u32 \<Rightarrow> u32 \<Rightarrow> 'a kern_scheme \<Rightarrow> (unit, 'a kern_scheme) kresult" where
  "trap tf cpu cr2 s =
     (if get32 (mem s) (tf + TF_TRAPNO) = T_SYSCALL then
        (case cur s of
           None \<Rightarrow> Inl BadAccess
         | Some me \<Rightarrow>
             if p_killed (ptable s ! me) then exit s
             else
               bindE (syscall (set_proc me (\<lambda>p. p\<lparr>p_tf := tf\<rparr>) s)) (\<lambda>_ s.
                 case cur s of
                   None \<Rightarrow> Inr ((), s)
                 | Some me \<Rightarrow> if p_killed (ptable s ! me) then exit s else Inr ((), s)))
      else
        bindE (trap_switch tf cpu cr2 s) (\<lambda>_ s.
          if must_exit tf s then exit s
          else
            case cur s of
              None \<Rightarrow> Inr ((), s)
            | Some p \<Rightarrow>
                if p_state (ptable s ! p) = RUNNING \<and>
                   get32 (mem s) (tf + TF_TRAPNO) = T_IRQ0 + IRQ_TIMER
                then yield_enter s
                else Inr ((), s)))"

definition trap_resume :: "u32 \<Rightarrow> 'a kern_scheme \<Rightarrow> (unit, 'a kern_scheme) kresult" where
  "trap_resume tf s =
     bindE (yield_return s) (\<lambda>_ s. if must_exit tf s then exit s else Inr ((), s))"

end
