(* ===== verification/Boot.thy ===== *)
theory Boot
  imports Proc
begin

text \<open>
  The state of the kernel when it starts: every variable in the zero-initialised segment, a
  disk \<open>d\<close>, and the layout that \<open>mkfs\<close> gives its file system.  The witnesses build their states from it.
\<close>

definition inode_bss :: inode where
  "inode_bss = \<lparr>i_dev = 0, i_inum = 0, i_ref = 0, i_lock = \<lparr>sl_locked = False, sl_pid = 0\<rparr>, i_valid = False,
     i_type = 0, i_major = 0, i_minor = 0, i_nlink = 0, i_size = 0, i_addrs = replicate (NDIRECT + 1) 0\<rparr>"

definition file_bss :: kfile where
  "file_bss = \<lparr>f_type = FD_NONE, f_ref = 0, f_readable = False, f_writable = False, f_pipe = 0, f_ip = 0,
     f_off = 0\<rparr>"

definition pipe_bss :: pipe where
  "pipe_bss = \<lparr>pi_data = (\<lambda>_. 0), nread = 0, nwrite = 0, readopen = False, writeopen = False\<rparr>"

definition sb_mkfs :: superblock where
  "sb_mkfs = \<lparr>sb_size = 1000, sb_nblocks = 941, sb_ninodes = 200, sb_nlog = 30, sb_logstart = 2,
     sb_inodestart = 32, sb_bmapstart = 58\<rparr>"

definition kern_bss :: "(u32 \<Rightarrow> block) \<Rightarrow> kern" where
  "kern_bss d = \<lparr>klk = {}, ptable = replicate NPROC proc_bss, nextpid = 1, initproc = None,
     cur = None, ts_esp0 = 0, ts_ss0 = 0, ts_iomb = 0, cr3 = 0, kpgdir = 0,
     cons_locking = False, panicked = False, crt = (\<lambda>_. 0), cursor_hi = 0, cursor_lo = 0,
     uart = False, com1 = [], pic = [], ioapic_reg = (\<lambda>_. 0), inp_buf = (\<lambda>_. 0), inp_r = 0,
     inp_w = 0, inp_e = 0, kbd_in = [], kbd_shift = 0, com1_in = [],
     mem = (\<lambda>_. 0), freelist = 0, use_lock = False, kend = 0x80115000, kdata = 0x80108000,
     bufs = replicate (Suc NBUF) buf_bss, disk = d, disksize = 1000, dhist = [],
     l_start = 2, l_size = 30, l_outstanding = 0, l_committing = False, l_dev = 1, l_n = 0,
     l_block = replicate (nat LOGSIZE) 0,
     sb = sb_mkfs, inodes = replicate NINODE inode_bss,
     ftable = replicate NFILE file_bss, pipes = (\<lambda>_. pipe_bss),
     ticks = 0, sym_trapret = 0x80105000, sym_forkret = 0x80103000, initcode = [], forkret_first = True,
     lapic_on = True, lapic_w = []\<rparr>"

text \<open>A process that has been set up and can run.\<close>

definition proc_ready :: "u32 \<Rightarrow> proc" where
  "proc_ready pid = proc_bss\<lparr>p_state := RUNNABLE, p_pid := pid, p_kstack := 0x80200000 + 4096 * pid,
     p_pgdir := 0x80300000 + 4096 * pid\<rparr>"

end
