(* ===== verification/Ring.thy ===== *)
theory Ring
  imports Prelude
begin

text \<open>
  Ring buffers indexed by free-running 32 bit counters, as the pipe and the console use them:
  the item number \<open>a\<close> is in the slot \<open>a mod N\<close>.  As \<open>N\<close> divides $2^{32}$ the counters may wrap.
\<close>

definition slot :: "u32 \<Rightarrow> u32 \<Rightarrow> nat" where
  "slot N a = unat (a mod N)"

definition ring_seq :: "u32 \<Rightarrow> (nat \<Rightarrow> 'x) \<Rightarrow> u32 \<Rightarrow> nat \<Rightarrow> 'x list" where
  "ring_seq N buf a n = map (\<lambda>k. buf (slot N (a + of_nat k))) [0..<n]"

lemma length_ring_seq [simp]: "length (ring_seq N buf a n) = n"
  by (simp add: ring_seq_def)

lemma ring_seq_0 [simp]: "ring_seq N buf a 0 = []"
  by (simp add: ring_seq_def)

lemma slot_plus:
  assumes "unat N dvd 2 ^ 32"
  shows "slot N (a + of_nat k) = (unat a + k) mod unat N"
proof -
  have "unat (a + of_nat k) = (unat a + k) mod 2 ^ 32"
    by (simp add: unat_word_ariths unat_of_nat mod_simps)
  with mod_mod_cancel [OF assms, of "unat a + k"] show ?thesis
    by (simp add: slot_def unat_mod_distrib)
qed

lemma mod_shift_inj:
  fixes N :: nat
  assumes "(a + j) mod N = (a + k) mod N" and "j < N" and "k < N"
  shows "j = k"
proof (cases "j \<le> k")
  case True
  then have "N dvd k - j" using assms(1) mod_eq_dvd_iff_nat [of "a + j" "a + k" N] by simp
  with True assms(3) show ?thesis by (auto dest: dvd_imp_le)
next
  case False
  then have "N dvd j - k" using assms(1) mod_eq_dvd_iff_nat [of "a + k" "a + j" N] by simp
  with False assms(2) show ?thesis by (auto dest: dvd_imp_le)
qed

lemma slot_eq:
  assumes "unat N dvd 2 ^ 32" and "j < unat N" and "k < unat N"
  shows "slot N (a + of_nat j) = slot N (a + of_nat k) \<longleftrightarrow> j = k"
  using mod_shift_inj [of "unat a" j "unat N" k] assms by (auto simp: slot_plus)

lemma ring_seq_snoc:
  "ring_seq N buf a (Suc n) = ring_seq N buf a n @ [buf (slot N (a + of_nat n))]"
  by (simp add: ring_seq_def)

lemma ring_seq_add:
  "ring_seq N buf a (m + n) = ring_seq N buf a m @ ring_seq N buf (a + of_nat m) n"
  by (induction n) (simp_all add: ring_seq_snoc add.assoc)

lemma ring_seq_Cons: "ring_seq N buf a (Suc n) = buf (slot N a) # ring_seq N buf (a + 1) n"
  using ring_seq_add [of N buf a 1 n] ring_seq_snoc [of N buf a 0] by simp

lemma ring_seq_store:
  assumes "unat N dvd 2 ^ 32" and "n < unat N" and "m \<le> n"
  shows "ring_seq N (buf(slot N (a + of_nat n) := x)) a m = ring_seq N buf a m"
  using assms slot_eq [OF assms(1) _ assms(2)]
  by (auto simp: ring_seq_def intro!: map_cong)

lemma ring_seq_put:
  assumes "unat N dvd 2 ^ 32" and "n < unat N"
  shows "ring_seq N (buf(slot N (a + of_nat n) := x)) a (Suc n) = ring_seq N buf a n @ [x]"
  by (simp add: ring_seq_snoc ring_seq_store [OF assms order.refl])

end
