(* ===== verification/Console_Props.thy ===== *)
theory Console_Props
  imports Boot Ring
begin

text \<open>
  The console: output stays on the screen, numbers are printed in positional notation, and the
  interrupt handler and \<open>consoleread\<close> implement a line discipline over two queues, the lines that
  can be read and the line that is being edited.
\<close>

section \<open>The screen\<close>

definition cursor :: "'a cons_scheme \<Rightarrow> nat" where
  "cursor s = unat (cursor_hi s) * 256 + unat (cursor_lo s)"

text \<open>Where the cursor goes before a scroll.\<close>

definition advance :: "int \<Rightarrow> nat \<Rightarrow> nat" where
  "advance c p = (if c = 10 then p + (80 - p mod 80) else if c = BACKSPACE then p - 1 else p + 1)"

lemma next_row: "p + (80 - p mod 80) = 80 * (p div 80 + 1)" for p :: nat
proof -
  have "p + (80 - p mod 80) = 80 * (p div 80) + 80"
    using mult_div_mod_eq [of 80 p] mod_less_divisor [of 80 p] by linarith
  then show ?thesis by (simp only: distrib_left mult_1_right)
qed

lemma advance_le: "p < 24 * 80 \<Longrightarrow> advance c p \<le> 24 * 80"
proof -
  assume p: "p < 24 * 80"
  have "p div 80 < 24" using p by simp
  then have "p + (80 - p mod 80) \<le> 24 * 80" unfolding next_row by simp
  with p show ?thesis by (auto simp: advance_def BACKSPACE_def)
qed

lemma cursor_split:
  "q < 24 * 80 \<Longrightarrow> unat (of_nat (q div 256) :: u8) * 256 + unat (of_nat q :: u8) = q"
  by (simp add: unat_of_nat)

lemma cgaputc_eq:
  fixes c :: int and s :: "'a cons_scheme"
  assumes "cursor s < 24 * 80"
  defines "p \<equiv> advance c (cursor s)"
    and "v \<equiv> (if c = 10 \<or> c = BACKSPACE then crt s
              else (crt s)(cursor s := (of_int c AND 0xFF) OR 0x0700))"
  shows "cgaputc c s =
    (if p = 24 * 80
     then Inr ((), s\<lparr>cursor_hi := of_nat ((p - 80) div 256), cursor_lo := of_nat (p - 80),
                     crt := (scroll v (p - 80))(p - 80 := 32 OR 0x0700)\<rparr>)
     else Inr ((), s\<lparr>cursor_hi := of_nat (p div 256), cursor_lo := of_nat p, crt := v(p := 32 OR 0x0700)\<rparr>))"
proof -
  have r: "(if c = 10 then (cursor s + (80 - cursor s mod 80), crt s)
            else if c = BACKSPACE then (if cursor s > 0 then cursor s - 1 else cursor s, crt s)
            else (cursor s + 1, (crt s)(cursor s := (of_int c AND 0xFF) OR 0x0700))) = (p, v)"
    by (auto simp: p_def v_def advance_def BACKSPACE_def)
  have p: "p \<le> 24 * 80" using advance_le [OF assms(1), of c] by (simp add: p_def)
  have "cgaputc c s =
     (if p > 25 * 80 then Inl (Panic ''pos under/overflow'')
      else
        let q = (if p div 80 \<ge> 24 then (p - 80, scroll v (p - 80)) else (p, v));
            pos = fst q; v = snd q in
        Inr ((), s\<lparr>cursor_hi := of_nat (pos div 256), cursor_lo := of_nat pos,
                   crt := v(pos := 32 OR 0x0700)\<rparr>))"
    unfolding cgaputc_def cursor_def [symmetric] Let_def r by simp
  moreover have "p div 80 \<ge> 24 \<longleftrightarrow> p \<ge> 24 * 80" by (simp add: less_eq_div_iff_mult_less_eq)
  ultimately show ?thesis using p by simp
qed

text \<open>C29. \<open>cgaputc\<close> never panics and keeps the cursor on the 24 rows of the text screen.  A newline takes the cursor to the
  start of the next row, a backspace to the cell before (the first cell of the screen has none), and any other character is
  put at the cursor, which moves on by a cell.  Only if that leads beyond the last row does the screen scroll: every cell
  moves up by a row, and the cursor is at the start of the last row, which is empty.  The cell at the
  cursor is blank afterwards, every other cell is as before, and nothing but the cursor and the cells changes.\<close>

theorem cgaputc_on_screen:
  assumes "cursor s < 24 * 80"
  shows "\<exists>s'. cgaputc c s = Inr ((), s') \<and> cursor s' < 24 * 80 \<and>
    s'\<lparr>cursor_hi := cursor_hi s, cursor_lo := cursor_lo s, crt := crt s\<rparr> = s \<and>
    (let p = (if c = 10 then 80 * (cursor s div 80 + 1) else if c = BACKSPACE then cursor s - 1 else cursor s + 1);
         v = (if c = 10 \<or> c = BACKSPACE then crt s else (crt s)(cursor s := (of_int c AND 0xFF) OR 0x0700)) in
     if p < 24 * 80 then cursor s' = p \<and> (\<forall>k. crt s' k = (if k = p then 0x0720 else v k))
     else cursor s' = 23 * 80 \<and>
       (\<forall>k. crt s' k = (if k < 23 * 80 then v (k + 80) else if k = 23 * 80 then 0x0720
                        else if k < 24 * 80 then 0 else v k)))"
proof -
  define p where "p = advance c (cursor s)"
  define v where "v = (if c = 10 \<or> c = BACKSPACE then crt s
              else (crt s)(cursor s := (of_int c AND 0xFF) OR 0x0700))"
  note eq = cgaputc_eq [OF assms, of c, folded p_def v_def]
  have p: "p \<le> 24 * 80" using advance_le [OF assms, of c] by (simp add: p_def)
  have row: "(if c = 10 then 80 * (cursor s div 80 + 1) else if c = BACKSPACE then cursor s - 1 else cursor s + 1) = p"
    unfolding p_def advance_def next_row ..
  show ?thesis
  proof (cases "p = 24 * 80")
    case True
    let ?s = "s\<lparr>cursor_hi := of_nat ((p - 80) div 256), cursor_lo := of_nat (p - 80),
                crt := (scroll v (p - 80))(p - 80 := 32 OR 0x0700)\<rparr>"
    have cu: "cursor ?s = 23 * 80" using True cursor_split [of "p - 80"] by (simp add: cursor_def)
    have "crt ?s k = (if k < 23 * 80 then v (k + 80) else if k = 23 * 80 then 0x0720
                        else if k < 24 * 80 then 0 else v k)" for k
      using True by (simp add: scroll_def)
    moreover have "cgaputc c s = Inr ((), ?s)" using eq True by simp
    ultimately show ?thesis unfolding row v_def [symmetric] Let_def using cu True by (intro exI [of _ ?s]) simp
  next
    case False
    let ?s = "s\<lparr>cursor_hi := of_nat (p div 256), cursor_lo := of_nat p, crt := v(p := 32 OR 0x0700)\<rparr>"
    have cu: "cursor ?s = p" using False p cursor_split [of p] by (simp add: cursor_def)
    have "cgaputc c s = Inr ((), ?s)" using eq False by simp
    then show ?thesis unfolding row v_def [symmetric] Let_def using cu False p by (intro exI [of _ ?s]) simp
  qed
qed

text \<open>A newline in the last row scrolls.\<close>

theorem cgaputc_on_screen_witness:
  "\<exists>s'. cgaputc 10 ((kmem_bss 0)\<lparr>cursor_hi := 7, cursor_lo := 0x35, crt := (\<lambda>k. 0x0741)\<rparr>) = Inr ((), s') \<and>
     cursor s' = 1840 \<and> crt s' 1840 = 0x0720 \<and> crt s' 1839 = 0x0741 \<and> crt s' 1841 = 0"
proof -
  let ?s = "(kmem_bss 0)\<lparr>cursor_hi := 7, cursor_lo := 0x35, crt := (\<lambda>k. 0x0741)\<rparr>"
  have "cursor ?s = 1845" by (simp add: cursor_def)
  with cgaputc_on_screen [of ?s 10] show ?thesis by (auto simp: Let_def)
qed

section \<open>Numbers\<close>

text \<open>The digits of a number in positional notation, the most significant one first.\<close>

fun positional :: "nat \<Rightarrow> nat \<Rightarrow> nat list" where
  "positional b n = (if b \<le> 1 \<or> n < b then [n] else positional b (n div b) @ [n mod b])"

declare positional.simps [simp del]

lemma length_positional: "1 < b \<Longrightarrow> 0 < k \<Longrightarrow> n < b ^ k \<Longrightarrow> length (positional b n) \<le> k"
proof (induction b n arbitrary: k rule: positional.induct)
  case (1 b n)
  show ?case
  proof (cases "n < b")
    case True
    with 1(3) show ?thesis by (simp add: positional.simps [of b n])
  next
    case False
    obtain j where k: "k = Suc j" using 1(3) by (cases k) auto
    have "j \<noteq> 0" using False 1(4) k by (cases j) auto
    with k have j: "k = Suc j" "0 < j" by simp_all
    have "n div b < b ^ j" using 1 j by (simp add: less_mult_imp_div_less mult.commute)
    then have "length (positional b (n div b)) \<le> j" using 1(1,2) False j by simp
    then show ?thesis using False 1(2) j by (subst positional.simps) simp
  qed
qed

lemma positional_less: "1 < b \<Longrightarrow> \<forall>d \<in> set (positional b n). d < b"
proof (induction b n rule: positional.induct)
  case (1 b n)
  then show ?case by (cases "n < b") (simp_all add: positional.simps [of b n])
qed

lemma foldl_positional: "1 < b \<Longrightarrow> foldl (\<lambda>a d. a * b + d) 0 (positional b n) = n"
proof (induction b n rule: positional.induct)
  case (1 b n)
  then show ?case by (cases "n < b") (simp_all add: positional.simps [of b n])
qed

lemma digits_rev_positional:
  "1 < base \<Longrightarrow> rev (digits_rev dig base x) = map (\<lambda>d. dig (of_nat d)) (positional (unat base) (unat x))"
proof (induction dig base x rule: digits_rev.induct)
  case (1 dig base x)
  have b: "1 < unat base" using 1(2) by (simp add: word_less_nat_alt)
  show ?case
  proof (cases "x div base = 0")
    case True
    then have "unat x div unat base = 0" by (metis unat_0 unat_div_distrib)
    then have less: "unat x < unat base" using b by (simp add: div_eq_0_iff)
    then have "x mod base = x" by (simp add: word_unat_eq_iff unat_mod_distrib)
    with True less show ?thesis
      by (simp add: digits_rev.simps [of dig base x] positional.simps [of "unat base" "unat x"])
  next
    case False
    then have "unat x div unat base \<noteq> 0" by (metis unat_div_distrib unat_eq_zero)
    then have "\<not> unat x < unat base" by auto
    moreover have "\<not> base \<le> 1" using 1(2) by simp
    ultimately show ?thesis using False b 1
      by (simp add: digits_rev.simps [of dig base x] positional.simps [of "unat base" "unat x"]
          unat_div_distrib) (simp flip: unat_mod_distrib)
  qed
qed

lemma digit_16: "d < 16 \<Longrightarrow> digit (of_nat d) = bytes ''0123456789abcdef'' ! d"
  by (simp add: digit_def unat_of_nat)

lemma digit_10: "d < 10 \<Longrightarrow> digit (of_nat d) = bytes ''0123456789'' ! d"
proof -
  assume d: "d < 10"
  have "bytes ''0123456789abcdef'' = bytes ''0123456789'' @ bytes ''abcdef''" "length (bytes ''0123456789'') = 10"
    by (simp_all add: bytes_def)
  with d show ?thesis by (simp add: digit_16 nth_append)
qed

lemma nat_abs_sint: "nat \<bar>sint (x :: u32)\<bar> = (if sint x < 0 then unat (- x) else unat x)"
proof -
  have u: "sint x = (if uint x < 2 ^ 31 then uint x else uint x - 2 ^ 32)"
    using uint_bounded [of x] mod_pos_geq [of "2 ^ 32" "uint x + 2 ^ 31"]
    by (auto simp: sint_uint signed_take_bit_eq_take_bit_shift take_bit_eq_mod)
  show ?thesis
  proof (cases "uint x < 2 ^ 31")
    case True
    then show ?thesis using u by simp
  next
    case False
    have "uint (- x) = 2 ^ 32 - uint x" using False uint_bounded [of x]
      by (simp add: uint_word_ariths zmod_zminus1_eq_if)
    then show ?thesis using u False uint_bounded [of x] by (simp flip: nat_uint_eq)
  qed
qed

text \<open>C30. The buffer that \<open>printint\<close> fills, read backwards as it is printed, is the number in decimal with its sign,
  or in hexadecimal, without leading zeros, and it fits the 16 bytes of the buffer.  This includes the smallest
  integer, whose negation overflows.\<close>

theorem printint_positional:
  "rev (printint_buf x 10 True) =
     (if sint x < 0 then bytes ''-'' else []) @
     map (\<lambda>d. bytes ''0123456789'' ! d) (positional 10 (nat \<bar>sint x\<bar>)) \<and>
   rev (printint_buf x 16 False) =
     map (\<lambda>d. bytes ''0123456789abcdef'' ! d) (positional 16 (unat x)) \<and>
   length (printint_buf x 10 True) \<le> 11 \<and> length (printint_buf x 16 False) \<le> 8"
proof -
  define y where "y = (if sint x < 0 then - x else x)"
  have y: "nat \<bar>sint x\<bar> = unat y" by (simp add: nat_abs_sint y_def)
  have buf: "rev (printint_buf x 10 True) = (if sint x < 0 then bytes ''-'' else []) @ rev (digits_rev digit 10 y)"
    by (simp add: printint_buf_def y_def Let_def bytes_def)
  have dec: "rev (digits_rev digit 10 y) = map (\<lambda>d. digit (of_nat d)) (positional 10 (unat y))"
    using digits_rev_positional [of 10 digit y] by simp
  also have "\<dots> = map (\<lambda>d. bytes ''0123456789'' ! d) (positional 10 (unat y))"
  proof (rule map_cong)
    fix d assume "d \<in> set (positional 10 (unat y))"
    then have "d < 10" using positional_less [of 10 "unat y"] by simp
    then show "digit (of_nat d) = bytes ''0123456789'' ! d" by (rule digit_10)
  qed simp
  finally have 10: "rev (digits_rev digit 10 y) = \<dots>" .
  have hex: "rev (printint_buf x 16 False) = map (\<lambda>d. digit (of_nat d)) (positional 16 (unat x))"
    using digits_rev_positional [of 16 digit x] by (simp add: printint_buf_def)
  also have "\<dots> = map (\<lambda>d. bytes ''0123456789abcdef'' ! d) (positional 16 (unat x))"
  proof (rule map_cong)
    fix d assume "d \<in> set (positional 16 (unat x))"
    then have "d < 16" using positional_less [of 16 "unat x"] by simp
    then show "digit (of_nat d) = bytes ''0123456789abcdef'' ! d" by (rule digit_16)
  qed simp
  finally have 16: "rev (printint_buf x 16 False) = \<dots>" .
  have "unat y < 2 ^ 32" "unat x < 2 ^ 32"
    using unsigned_less [where ?'a = nat, of y] unsigned_less [where ?'a = nat, of x] by simp_all
  then have len: "length (positional 10 (unat y)) \<le> 10" "length (positional 16 (unat x)) \<le> 8"
    by (auto intro!: length_positional)
  have "length (printint_buf x 10 True) \<le> 11"
    using arg_cong [OF buf, of length] arg_cong [OF 10, of length] len(1) by (simp add: bytes_def split: if_splits)
  moreover have "length (printint_buf x 16 False) \<le> 8"
    using arg_cong [OF 16, of length] len(2) by simp
  ultimately show ?thesis using buf 10 16 y by simp
qed

section \<open>The line discipline\<close>

text \<open>The bytes that a reader may take, and the line that is being edited.\<close>

definition in_lines :: "'a cons_scheme \<Rightarrow> u8 list" where
  "in_lines s = ring_seq INPUT_BUF (inp_buf s) (inp_r s) (unat (inp_w s - inp_r s))"

definition in_edit :: "'a cons_scheme \<Rightarrow> u8 list" where
  "in_edit s = ring_seq INPUT_BUF (inp_buf s) (inp_w s) (unat (inp_e s - inp_w s))"

definition inp_ok :: "'a cons_scheme \<Rightarrow> bool" where
  "inp_ok s \<longleftrightarrow> length (in_lines s) + length (in_edit s) \<le> 128 \<and> 10 \<notin> set (in_edit s)"

definition screen_ok :: "'a cons_scheme \<Rightarrow> bool" where
  "screen_ok s \<longleftrightarrow> \<not> panicked s \<and> cursor s < 24 * 80"

text \<open>What one character does to the two queues.\<close>

definition line_char :: "int \<Rightarrow> u8 list \<times> u8 list \<Rightarrow> u8 list \<times> u8 list" where
  "line_char c q =
     (case q of (ls, ed) \<Rightarrow>
       if c = 16 then (ls, ed)
       else if c = 21 then (ls, [])
       else if c = 8 \<or> c = 0x7f then (ls, butlast ed)
       else if c \<noteq> 0 \<and> length ls + length ed < 128 then
         let b = (if c = 13 then 10 else of_int c) in
         if b = 10 \<or> b = 4 \<or> length ls + length ed = 127 then (ls @ ed @ [b], [])
         else (ls, ed @ [b])
       else (ls, ed))"

lemma INPUT_BUF_dvd: "unat INPUT_BUF dvd 2 ^ 32"
  by (simp add: INPUT_BUF_def)

lemma ring_slot: "ring a = slot INPUT_BUF a"
  by (simp add: ring_def slot_def)

text \<open>The counters of a buffer with \<open>m\<close> bytes to read and \<open>n\<close> bytes being edited.\<close>

definition inp_at :: "nat \<Rightarrow> nat \<Rightarrow> 'a cons_scheme \<Rightarrow> bool" where
  "inp_at m n s \<longleftrightarrow> inp_w s = inp_r s + of_nat m \<and> inp_e s = inp_w s + of_nat n \<and> m + n \<le> 128"

lemma unat_small: "k \<le> 128 \<Longrightarrow> unat (of_nat k :: u32) = k"
  by (simp add: unat_of_nat)

lemma inp_at_seqs:
  assumes "inp_at m n s"
  shows "in_lines s = ring_seq INPUT_BUF (inp_buf s) (inp_r s) m"
    and "in_edit s = ring_seq INPUT_BUF (inp_buf s) (inp_r s + of_nat m) n"
  using assms by (simp_all add: in_lines_def in_edit_def inp_at_def unat_small)

lemma inp_ok_at: "inp_ok s \<Longrightarrow> inp_at (length (in_lines s)) (length (in_edit s)) s"
  by (simp add: inp_ok_def inp_at_def in_lines_def in_edit_def)

lemma inp_at_ok: "inp_at m n s \<Longrightarrow> inp_ok s \<longleftrightarrow> 10 \<notin> set (in_edit s)"
  using inp_at_seqs [of m n s] by (auto simp: inp_ok_def inp_at_def)

lemma inp_fields_cong:
  assumes "inp_e s' = inp_e s" "inp_w s' = inp_w s" "inp_r s' = inp_r s" "inp_buf s' = inp_buf s"
  shows "in_lines s' = in_lines s" "in_edit s' = in_edit s" "inp_ok s' = inp_ok s" "inp_at m n s' = inp_at m n s"
  using assms by (simp_all add: in_lines_def in_edit_def inp_ok_def inp_at_def)

lemma screen_ok_upd [simp]:
  "screen_ok (s\<lparr>inp_e := x\<rparr>) = screen_ok s" "screen_ok (s\<lparr>inp_w := x\<rparr>) = screen_ok s"
  "screen_ok (s\<lparr>inp_buf := b\<rparr>) = screen_ok s" "screen_ok (s\<lparr>com1 := y\<rparr>) = screen_ok s"
  "screen_ok (s\<lparr>com1_in := z\<rparr>) = screen_ok s"
  by (simp_all add: screen_ok_def cursor_def)

lemma cgaputc_ok:
  assumes "cursor s < 24 * 80"
  shows "\<exists>s'. cgaputc c s = Inr ((), s') \<and> cursor s' < 24 * 80 \<and> panicked s' = panicked s"
proof (cases "advance c (cursor s) = 24 * 80")
  case True
  then obtain v where
    "cgaputc c s = Inr ((), s\<lparr>cursor_hi := of_nat (1840 div 256), cursor_lo := of_nat 1840, crt := v\<rparr>)"
    using cgaputc_eq [OF assms, of c] by auto
  then show ?thesis by (simp add: cursor_def)
next
  case False
  define p where "p = advance c (cursor s)"
  have p: "p < 24 * 80" using False advance_le [OF assms, of c] by (simp add: p_def)
  obtain v where
    "cgaputc c s = Inr ((), s\<lparr>cursor_hi := of_nat (p div 256), cursor_lo := of_nat p, crt := v\<rparr>)"
    using cgaputc_eq [OF assms, of c] False unfolding p_def by auto
  then show ?thesis using cursor_split [OF p] p by (simp add: cursor_def)
qed

lemma consputc_ok:
  assumes "screen_ok s"
  shows "\<exists>s'. consputc c s = Inr ((), s') \<and> screen_ok s'"
proof -
  define s1 where "s1 = (if c = BACKSPACE then uartputc 8 (uartputc 32 (uartputc 8 s)) else uartputc c s)"
  have "screen_ok s1" using assms by (simp add: s1_def uartputc_def)
  then have "cursor s1 < 24 * 80" "\<not> panicked s1" by (simp_all add: screen_ok_def)
  with cgaputc_ok [of s1 c] obtain s' where "cgaputc c s1 = Inr ((), s')" "screen_ok s'"
    by (auto simp: screen_ok_def)
  moreover have "consputc c s = cgaputc c s1"
    using assms by (simp add: consputc_def s1_def screen_ok_def)
  ultimately show ?thesis by simp
qed

text \<open>What a step of the input half leaves alone.\<close>

definition con_frame :: "'a cons_scheme \<Rightarrow> 'a cons_scheme \<Rightarrow> bool" where
  "con_frame s s' \<longleftrightarrow> klk s' = klk s \<and> kbd_in s' = kbd_in s \<and> com1_in s' = com1_in s \<and>
     inp_r s' = inp_r s \<and> uart s' = uart s"

lemma con_frame_refl [simp]: "con_frame s s"
  by (simp add: con_frame_def)

lemma con_frame_trans: "con_frame s s1 \<Longrightarrow> con_frame s1 s2 \<Longrightarrow> con_frame s s2"
  by (simp add: con_frame_def)

lemma consputc_con:
  assumes "screen_ok s"
  obtains s' where "consputc c s = Inr ((), s')" "screen_ok s'" "con_frame s s'"
    "inp_e s' = inp_e s" "inp_w s' = inp_w s" "inp_buf s' = inp_buf s"
proof -
  from consputc_ok [OF assms] obtain s' where s': "consputc c s = Inr ((), s')" "screen_ok s'" by blast
  from consputc_frame [OF s'(1)] have "uart s' = uart s" by auto
  with consputc_inp [OF s'(1)] have "con_frame s s'" by (simp add: con_frame_def)
  with s' consputc_inp [OF s'(1)] that show thesis by blast
qed

lemma kill_line_ok:
  "inp_at m n s \<Longrightarrow> 10 \<notin> set (in_edit s) \<Longrightarrow> screen_ok s \<Longrightarrow>
   \<exists>s'. kill_line s = Inr ((), s') \<and> inp_at m 0 s' \<and> inp_buf s' = inp_buf s \<and> screen_ok s' \<and> con_frame s s'"
proof (induction n arbitrary: s)
  case 0
  then have "inp_e s = inp_w s" by (simp add: inp_at_def)
  then have "kill_line s = Inr ((), s)" by (simp add: kill_line.simps [of s])
  with 0 show ?case by auto
next
  case (Suc n)
  have at: "inp_w s = inp_r s + of_nat m" "inp_e s = inp_w s + of_nat (Suc n)" "m + Suc n \<le> 128"
    using Suc.prems(1) by (simp_all add: inp_at_def)
  have e: "inp_e s - 1 = inp_w s + of_nat n" using at(2) by simp
  have ne: "inp_e s \<noteq> inp_w s"
    using at(2,3) unat_small [of "Suc n"] by (auto simp del: of_nat_Suc)
  let ?s1 = "s\<lparr>inp_e := inp_e s - 1\<rparr>"
  have ed: "in_edit s = in_edit ?s1 @ [inp_buf s (slot INPUT_BUF (inp_w s + of_nat n))]"
    using at e unat_small [of "Suc n"] unat_small [of n]
    by (simp add: in_edit_def ring_seq_snoc del: of_nat_Suc)
  have at1: "inp_at m n ?s1" using at e by (simp add: inp_at_def)
  from Suc.prems(3) obtain s2 where s2: "consputc BACKSPACE ?s1 = Inr ((), s2)" "screen_ok s2"
      "con_frame ?s1 s2" "inp_e s2 = inp_e ?s1" "inp_w s2 = inp_w ?s1" "inp_buf s2 = inp_buf ?s1"
    using consputc_con [of ?s1 BACKSPACE] by auto
  have same: "in_edit s2 = in_edit ?s1" "inp_at m n s2"
    using inp_fields_cong [of s2 ?s1] s2 at1 by (simp_all add: con_frame_def)
  have "kill_line s = kill_line s2"
    using ne ed Suc.prems(2) s2(1) e by (subst kill_line.simps) (simp add: ring_slot)
  moreover from Suc.IH [OF same(2)] same(1) ed Suc.prems(2) s2(2) obtain s' where
    "kill_line s2 = Inr ((), s')" "inp_at m 0 s'" "inp_buf s' = inp_buf s2" "screen_ok s'" "con_frame s2 s'"
    by auto
  moreover have "con_frame s s2" using s2(3) by (simp add: con_frame_def)
  ultimately show ?case using s2(6) con_frame_trans by (intro exI [of _ s']) auto
qed

lemma insert_char:
  fixes b :: u8
  assumes "inp_at m n s" and "m + n < 128"
  defines "s1 \<equiv> s\<lparr>inp_buf := (inp_buf s)(ring (inp_e s) := b), inp_e := inp_e s + 1\<rparr>"
  shows "inp_at m (Suc n) s1" and "in_lines s1 = in_lines s" and "in_edit s1 = in_edit s @ [b]"
proof -
  have e: "inp_e s = inp_r s + of_nat (m + n)" "inp_e s = (inp_r s + of_nat m) + of_nat n"
    using assms(1) by (simp_all add: inp_at_def)
  show at: "inp_at m (Suc n) s1" using assms(1,2) by (simp add: inp_at_def s1_def)
  have N: "m + n < unat INPUT_BUF" "n < unat INPUT_BUF" using assms(2) by (simp_all add: INPUT_BUF_def)
  note lines = inp_at_seqs(1) [OF at] inp_at_seqs(1) [OF assms(1)]
  show "in_lines s1 = in_lines s"
    using ring_seq_store [OF INPUT_BUF_dvd N(1), of m "inp_buf s" "inp_r s" b]
    unfolding lines by (simp add: s1_def ring_slot e(1))
  note edit = inp_at_seqs(2) [OF at] inp_at_seqs(2) [OF assms(1)]
  show "in_edit s1 = in_edit s @ [b]"
    using ring_seq_put [OF INPUT_BUF_dvd N(2), of "inp_buf s" "inp_r s + of_nat m" b]
    unfolding edit by (simp add: s1_def ring_slot e(2))
qed

lemma commit_line:
  assumes "inp_at m n s"
  shows "inp_at (m + n) 0 (s\<lparr>inp_w := inp_e s\<rparr>)"
    and "in_lines (s\<lparr>inp_w := inp_e s\<rparr>) = in_lines s @ in_edit s" and "in_edit (s\<lparr>inp_w := inp_e s\<rparr>) = []"
proof -
  show at: "inp_at (m + n) 0 (s\<lparr>inp_w := inp_e s\<rparr>)" using assms by (simp add: inp_at_def)
  show "in_lines (s\<lparr>inp_w := inp_e s\<rparr>) = in_lines s @ in_edit s"
    unfolding inp_at_seqs [OF assms] inp_at_seqs [OF at] by (simp add: ring_seq_add)
  show "in_edit (s\<lparr>inp_w := inp_e s\<rparr>) = []" unfolding inp_at_seqs [OF at] by simp
qed

lemma inp_at_room:
  assumes "inp_at m n s"
  shows "inp_e s - inp_r s < INPUT_BUF \<longleftrightarrow> m + n < 128"
    and "inp_e s = inp_r s + INPUT_BUF \<longleftrightarrow> m + n = 128"
proof -
  have d: "inp_e s - inp_r s = of_nat (m + n)" and le: "m + n \<le> 128" using assms by (simp_all add: inp_at_def)
  show "inp_e s - inp_r s < INPUT_BUF \<longleftrightarrow> m + n < 128"
    unfolding d word_less_nat_alt unat_small [OF le] by (simp add: INPUT_BUF_def)
  have "inp_e s = inp_r s + INPUT_BUF \<longleftrightarrow> inp_e s - inp_r s = INPUT_BUF" by (simp add: algebra_simps)
  also have "\<dots> \<longleftrightarrow> m + n = 128"
    unfolding d word_unat_eq_iff unat_small [OF le] by (simp add: INPUT_BUF_def)
  finally show "inp_e s = inp_r s + INPUT_BUF \<longleftrightarrow> m + n = 128" .
qed

lemma con_wakeup [simp]:
  "con_frame s (wakeup1 c s') = con_frame s s'" "screen_ok (wakeup1 c s') = screen_ok s'"
  "in_lines (wakeup1 c s') = in_lines s'" "in_edit (wakeup1 c s') = in_edit s'"
  "inp_at m n (wakeup1 c s') = inp_at m n s'"
  by (simp_all add: con_frame_def screen_ok_def cursor_def in_lines_def in_edit_def inp_at_def wakeup1_def)

lemma byte_of_int: "0 \<le> c \<Longrightarrow> c < 256 \<Longrightarrow> uint (of_int c :: u8) = c"
  by (simp add: unsigned_of_int take_bit_eq_mod)

text \<open>An ordinary character.\<close>

lemma console_insert:
  assumes at: "inp_at m n s" and room: "m + n < 128" and ok: "screen_ok s" and ptl: "PtableLock \<notin> klk s"
    and c: "c \<notin> {16, 21, 8, 0x7f, 0}" "0 \<le> c" "c < 256"
  defines "b \<equiv> if c = 13 then 10 else of_int c :: u8"
  defines "full \<equiv> b = 10 \<or> b = 4 \<or> m + n = 127"
  shows "\<exists>s'. consoleintr_char c s = Inr (False, s') \<and> screen_ok s' \<and> con_frame s s' \<and>
    (if full then inp_at (Suc (m + n)) 0 s' \<and> in_lines s' = in_lines s @ in_edit s @ [b] \<and> in_edit s' = []
     else inp_at m (Suc n) s' \<and> in_lines s' = in_lines s \<and> in_edit s' = in_edit s @ [b])"
proof -
  define c1 where "c1 = (if c = 13 then 10 else c)"
  have b: "b = of_int c1" by (simp add: b_def c1_def)
  have "uint b = c1" unfolding b using c by (intro byte_of_int) (auto simp: c1_def)
  then have c1: "c1 = 10 \<longleftrightarrow> b = 10" "c1 = 4 \<longleftrightarrow> b = 4" by (auto simp: word_uint_eq_iff)
  define s1 where "s1 = s\<lparr>inp_buf := (inp_buf s)(ring (inp_e s) := b), inp_e := inp_e s + 1\<rparr>"
  note ins = insert_char [OF at room, of b, folded s1_def]
  have "screen_ok s1" using ok by (simp add: s1_def)
  then obtain s2 where s2: "consputc c1 s1 = Inr ((), s2)" "screen_ok s2" "con_frame s1 s2"
      "inp_e s2 = inp_e s1" "inp_w s2 = inp_w s1" "inp_buf s2 = inp_buf s1"
    using consputc_con by blast
  have r2: "inp_r s2 = inp_r s1" "klk s2 = klk s" using s2(3) by (simp_all add: con_frame_def s1_def)
  note cong = inp_fields_cong [OF s2(4,5) r2(1) s2(6)]
  have at2: "inp_at m (Suc n) s2" using cong ins(1) by simp
  have f2: "con_frame s s2" using s2(3) by (simp add: con_frame_def s1_def)
  have stop: "c1 = 10 \<or> c1 = 4 \<or> inp_e s2 = inp_r s2 + INPUT_BUF \<longleftrightarrow> full"
    using c1 inp_at_room(2) [OF at2] by (auto simp: full_def)
  have eq: "consoleintr_char c s =
     (if full then bindE (wakeup ChInput (s2\<lparr>inp_w := inp_e s2\<rparr>)) (\<lambda>_ s. Inr (False, s)) else Inr (False, s2))"
    using c inp_at_room(1) [OF at] room s2(1) stop
    by (simp add: consoleintr_char_def Let_def flip: c1_def b s1_def)
  show ?thesis
  proof (cases full)
    case True
    let ?s3 = "s2\<lparr>inp_w := inp_e s2\<rparr>"
    have "consoleintr_char c s = Inr (False, wakeup1 (Some ChInput) ?s3)"
      using eq True ptl r2(2) by simp
    moreover have "con_frame s ?s3" using f2 by (simp add: con_frame_def)
    ultimately show ?thesis using True commit_line [OF at2] cong ins s2(2) by simp
  next
    case False
    with eq f2 s2(2) at2 cong ins show ?thesis by simp
  qed
qed

lemma console_backspace:
  assumes c: "c = 8 \<or> c = 0x7f" and "inp_ok s" and ok: "screen_ok s"
    and at: "inp_at (length (in_lines s)) (length (in_edit s)) s" and no10: "10 \<notin> set (in_edit s)"
  shows "\<exists>s'. consoleintr_char c s = Inr (c = 16, s') \<and> inp_ok s' \<and> screen_ok s' \<and> con_frame s s' \<and>
    (in_lines s', in_edit s') = line_char c (in_lines s, in_edit s)"
proof (cases "length (in_edit s)")
  case 0
  then have "inp_e s = inp_w s" using at by (simp add: inp_at_def)
  with c 0 show ?thesis using assms(2,3) by (auto simp: consoleintr_char_def line_char_def)
next
  case (Suc n)
  let ?m = "length (in_lines s)"
  let ?s1 = "s\<lparr>inp_e := inp_e s - 1\<rparr>"
  have at1: "inp_at ?m n ?s1" using at Suc by (simp add: inp_at_def)
  have ne: "inp_e s \<noteq> inp_w s"
    using at Suc unat_small [of "Suc n"] by (auto simp: inp_at_def simp del: of_nat_Suc)
  from ok obtain s2 where s2: "consputc BACKSPACE ?s1 = Inr ((), s2)" "screen_ok s2"
      "con_frame ?s1 s2" "inp_e s2 = inp_e ?s1" "inp_w s2 = inp_w ?s1" "inp_buf s2 = inp_buf ?s1"
    using consputc_con [of ?s1 BACKSPACE] by auto
  have r2: "inp_r s2 = inp_r ?s1" using s2(3) by (simp add: con_frame_def)
  note cong = inp_fields_cong [OF s2(4,5) r2 s2(6)]
  have eq: "consoleintr_char c s = Inr (c = 16, s2)" using c ne s2(1) by (auto simp: consoleintr_char_def)
  have "in_lines ?s1 = in_lines s" "in_edit ?s1 = butlast (in_edit s)"
    using inp_at_seqs [OF at1] inp_at_seqs [OF at] Suc by (simp_all add: ring_seq_snoc)
  moreover from this have "inp_ok s2"
    using cong at1 inp_at_ok [of ?m n s2] no10 by (auto dest: in_set_butlastD)
  moreover have "con_frame s s2" using s2(3) by (simp add: con_frame_def)
  moreover have "line_char c (in_lines s, in_edit s) = (in_lines s, butlast (in_edit s))"
    using c by (auto simp: line_char_def)
  ultimately show ?thesis using eq s2(2) cong by auto
qed

text \<open>Every character is handled as the line discipline says.\<close>

lemma consoleintr_char_ok:
  assumes "inp_ok s" and "screen_ok s" and "PtableLock \<notin> klk s" and "0 \<le> c" and "c < 256"
  shows "\<exists>s'. consoleintr_char c s = Inr (c = 16, s') \<and> inp_ok s' \<and> screen_ok s' \<and> con_frame s s' \<and>
    (in_lines s', in_edit s') = line_char c (in_lines s, in_edit s)"
proof -
  let ?m = "length (in_lines s)" and ?n = "length (in_edit s)"
  note at = inp_ok_at [OF assms(1)]
  have no10: "10 \<notin> set (in_edit s)" using assms(1) by (simp add: inp_ok_def)
  consider "c = 16" | "c = 21" | "c = 8 \<or> c = 0x7f" | "c = 0"
    | "c \<notin> {16, 21, 8, 0x7f, 0}" "?m + ?n < 128" | "c \<notin> {16, 21, 8, 0x7f, 0}" "\<not> ?m + ?n < 128" by blast
  then show ?thesis
  proof cases
    case 1
    then show ?thesis using assms(1,2) by (simp add: consoleintr_char_def line_char_def)
  next
    case 2
    from kill_line_ok [OF at no10 assms(2)] obtain s' where
      s': "kill_line s = Inr ((), s')" "inp_at ?m 0 s'" "inp_buf s' = inp_buf s" "screen_ok s'" "con_frame s s'" by blast
    then have "in_lines s' = in_lines s" "in_edit s' = []"
      using inp_at_seqs [OF s'(2)] inp_at_seqs [OF at] by (simp_all add: con_frame_def)
    with 2 s' show ?thesis by (simp add: consoleintr_char_def line_char_def inp_at_ok [OF s'(2)])
  next
    case 3
    then show ?thesis using assms(1,2) at no10 by (rule console_backspace)
  next
    case 4
    then show ?thesis using assms(1,2) by (simp add: consoleintr_char_def line_char_def)
  next
    case 5
    from console_insert [OF at 5(2) assms(2,3) 5(1) assms(4,5)] obtain s' where
      s': "consoleintr_char c s = Inr (False, s')" "screen_ok s'" "con_frame s s'"
      and q: "let b = (if c = 13 then 10 else of_int c) in
        if b = 10 \<or> b = 4 \<or> ?m + ?n = 127
        then inp_at (Suc (?m + ?n)) 0 s' \<and> in_lines s' = in_lines s @ in_edit s @ [b] \<and> in_edit s' = []
        else inp_at ?m (Suc ?n) s' \<and> in_lines s' = in_lines s \<and> in_edit s' = in_edit s @ [b]"
      unfolding Let_def by blast
    have "inp_ok s' \<and> (in_lines s', in_edit s') = line_char c (in_lines s, in_edit s)"
      using q 5 no10 by (auto simp: line_char_def Let_def inp_at_ok split: if_split_asm)
    with s' 5(1) show ?thesis by auto
  next
    case 6
    then have "\<not> inp_e s - inp_r s < INPUT_BUF" using inp_at_room(1) [OF at] by simp
    with 6 show ?thesis using assms(1,2) by (simp add: consoleintr_char_def line_char_def)
  qed
qed

lemma con_upd [simp]:
  "in_lines (s\<lparr>com1_in := z\<rparr>) = in_lines s" "in_edit (s\<lparr>com1_in := z\<rparr>) = in_edit s"
  "in_lines (s\<lparr>klk := K\<rparr>) = in_lines s" "in_edit (s\<lparr>klk := K\<rparr>) = in_edit s"
  "inp_ok (s\<lparr>com1_in := z\<rparr>) = inp_ok s" "inp_ok (s\<lparr>klk := K\<rparr>) = inp_ok s"
  "screen_ok (s\<lparr>klk := K\<rparr>) = screen_ok s"
  by (simp_all add: in_lines_def in_edit_def inp_ok_def screen_ok_def cursor_def)

text \<open>The loop of the interrupt handler takes all the bytes that the serial line has received.\<close>

lemma uart_loop:
  "inp_ok s \<Longrightarrow> screen_ok s \<Longrightarrow> PtableLock \<notin> klk s \<Longrightarrow> uart s \<Longrightarrow> length (com1_in s) < n \<Longrightarrow>
   \<exists>s'. consoleintr_loop uartgetc n dump s = Inr (dump \<or> 16 \<in> set (com1_in s), s') \<and>
     inp_ok s' \<and> klk s' = klk s \<and> com1_in s' = [] \<and>
     (in_lines s', in_edit s') = fold (\<lambda>b. line_char (uint b)) (com1_in s) (in_lines s, in_edit s)"
proof (induction "com1_in s" arbitrary: s n dump)
  case Nil
  note e = Nil.hyps [symmetric]
  obtain k where "n = Suc k" using Nil.prems(5) by (cases n) auto
  then have "consoleintr_loop uartgetc n dump s = Inr (dump, s)"
    using Nil.prems(4) by (simp add: uartgetc_def e)
  with Nil.prems(1) show ?case by (simp add: e)
next
  case (Cons b bs)
  note e = Cons.hyps(2) [symmetric]
  obtain k where n: "n = Suc k" using Cons.prems(5) by (cases n) auto
  let ?s1 = "s\<lparr>com1_in := bs\<rparr>"
  have get: "uartgetc s = (uint b, ?s1)" using Cons.prems(4) by (simp add: uartgetc_def e)
  have b: "0 \<le> uint b" "uint b < 256" using uint_bounded [of b] by simp_all
  have "inp_ok ?s1" "screen_ok ?s1" "PtableLock \<notin> klk ?s1" using Cons.prems by simp_all
  from consoleintr_char_ok [OF this b] obtain s2 where
    s2: "consoleintr_char (uint b) ?s1 = Inr (uint b = 16, s2)" "inp_ok s2" "screen_ok s2" "con_frame ?s1 s2"
      "(in_lines s2, in_edit s2) = line_char (uint b) (in_lines s, in_edit s)" by auto
  have f: "klk s2 = klk s" "com1_in s2 = bs" "uart s2 = uart s" using s2(4) by (simp_all add: con_frame_def)
  have eq: "consoleintr_loop uartgetc n dump s = consoleintr_loop uartgetc k (dump \<or> uint b = 16) s2"
    using get s2(1) by (simp add: n)
  have "length (com1_in s2) < k" using Cons.prems(5) f(2) n by (simp add: e)
  with Cons.hyps(1) [of s2 k "dump \<or> uint b = 16"] s2 f Cons.prems obtain s' where
    s': "consoleintr_loop uartgetc k (dump \<or> uint b = 16) s2 = Inr ((dump \<or> uint b = 16) \<or> 16 \<in> set bs, s')"
      "inp_ok s'" "klk s' = klk s" "com1_in s' = []"
      "(in_lines s', in_edit s') = fold (\<lambda>b. line_char (uint b)) bs (in_lines s2, in_edit s2)"
    by auto
  have "uint b = 16 \<longleftrightarrow> b = 16" by (simp add: word_uint_eq_iff)
  then have "((dump \<or> uint b = 16) \<or> 16 \<in> set bs) = (dump \<or> 16 \<in> set (com1_in s))"
    by (auto simp: e)
  moreover have "fold (\<lambda>b. line_char (uint b)) bs (in_lines s2, in_edit s2) =
      fold (\<lambda>b. line_char (uint b)) (com1_in s) (in_lines s, in_edit s)"
    using s2(5) by (simp add: e)
  ultimately show ?case using eq s' by (intro exI [of _ s']) simp
qed

text \<open>C27. An interrupt of the serial line returns, with every received byte handled in order by the line discipline:
  ordinary characters are appended to the line being edited if there is room, a newline, an end-of-file character
  or a full buffer makes the line readable, and the editing keys remove from the line being edited only.  (The key
  that lists the processes is left out.)\<close>

theorem console_line_discipline:
  assumes "inp_ok s" and "screen_ok s" and "PtableLock \<notin> klk s" and "ConsLock \<notin> klk s" and "uart s"
    and "16 \<notin> set (com1_in s)"
  shows "\<exists>s'. uartintr s = Inr ((), s') \<and> inp_ok s' \<and> klk s' = klk s \<and> com1_in s' = [] \<and>
    (in_lines s', in_edit s') = fold (\<lambda>b. line_char (uint b)) (com1_in s) (in_lines s, in_edit s)"
proof -
  let ?s = "s\<lparr>klk := insert ConsLock (klk s)\<rparr>"
  have "inp_ok ?s" "screen_ok ?s" "PtableLock \<notin> klk ?s" "uart ?s" using assms by simp_all
  from uart_loop [OF this, of "Suc (length (kbd_in s) + length (com1_in s))" False] assms(6) obtain s' where
    s': "consoleintr_loop uartgetc (Suc (length (kbd_in s) + length (com1_in s))) False ?s = Inr (False, s')"
      "inp_ok s'" "klk s' = insert ConsLock (klk s)" "com1_in s' = []"
      "(in_lines s', in_edit s') = fold (\<lambda>b. line_char (uint b)) (com1_in s) (in_lines s, in_edit s)" by auto
  then have "uartintr s = Inr ((), s'\<lparr>klk := klk s\<rparr>)"
    using assms(4) by (simp add: uartintr_def consoleintr_def del: consoleintr_loop.simps)
  with s' show ?thesis by (intro exI [of _ "s'\<lparr>klk := klk s\<rparr>"]) simp
qed

theorem console_line_discipline_witness:
  "\<exists>s'. uartintr ((kmem_bss 0)\<lparr>uart := True, com1_in := [108, 120, 8, 115, 13, 119]\<rparr>) = Inr ((), s') \<and>
     in_lines s' = bytes ''ls'' @ [10] \<and> in_edit s' = bytes ''w''"
  using console_line_discipline [of "(kmem_bss 0)\<lparr>uart := True, com1_in := [108, 120, 8, 115, 13, 119]\<rparr>"]
  by (auto simp: kmem_bss_def inp_ok_def screen_ok_def in_lines_def in_edit_def cursor_def line_char_def bytes_def)

section \<open>Reading from the console\<close>

text \<open>The bytes that a read of \<open>n\<close> bytes takes from the readable ones: up to and including the first newline, and
  not beyond an end-of-file character.\<close>

fun line_prefix :: "nat \<Rightarrow> u8 list \<Rightarrow> u8 list" where
  "line_prefix 0 ls = []"
| "line_prefix (Suc n) [] = []"
| "line_prefix (Suc n) (c # cs) = (if c = 4 then [] else if c = 10 then [c] else c # line_prefix n cs)"

lemma inp_at_next:
  assumes "inp_at (Suc m) n s"
  shows "inp_at m n (s\<lparr>inp_r := inp_r s + 1\<rparr>)" and "inp_r s \<noteq> inp_w s"
    and "in_lines s = inp_buf s (ring (inp_r s)) # in_lines (s\<lparr>inp_r := inp_r s + 1\<rparr>)"
    and "in_edit (s\<lparr>inp_r := inp_r s + 1\<rparr>) = in_edit s"
proof -
  show at: "inp_at m n (s\<lparr>inp_r := inp_r s + 1\<rparr>)" using assms by (simp add: inp_at_def)
  have "of_nat (Suc m) \<noteq> (0 :: u32)"
    using assms unat_small [of "Suc m"] by (auto simp: inp_at_def simp del: of_nat_Suc)
  then show "inp_r s \<noteq> inp_w s" using assms by (auto simp: inp_at_def simp del: of_nat_Suc)
  show "in_lines s = inp_buf s (ring (inp_r s)) # in_lines (s\<lparr>inp_r := inp_r s + 1\<rparr>)"
    unfolding inp_at_seqs [OF assms] inp_at_seqs [OF at] by (simp add: ring_seq_Cons ring_slot)
  show "in_edit (s\<lparr>inp_r := inp_r s + 1\<rparr>) = in_edit s"
    unfolding inp_at_seqs [OF assms] inp_at_seqs [OF at] by (simp add: add.assoc)
qed

text \<open>Whether the readable bytes are enough for a read of \<open>n\<close> bytes to end: they have \<open>n\<close> bytes, a newline or an end-of-file
  character.\<close>

definition line_ends :: "nat \<Rightarrow> u8 list \<Rightarrow> bool" where
  "line_ends n ls \<longleftrightarrow> n \<le> length ls \<or> 10 \<in> set ls \<or> 4 \<in> set ls"

lemma line_ends_simps [simp]:
  "line_ends 0 ls" "\<not> line_ends (Suc n) []"
  "line_ends (Suc n) (c # cs) \<longleftrightarrow> c = 4 \<or> c = 10 \<or> line_ends n cs"
  by (auto simp: line_ends_def)

text \<open>The result \<open>r\<close> of a section of a read by process \<open>p\<close> that starts in \<open>s\<close> with \<open>n\<close> bytes of \<open>target\<close> still wanted.\<close>

definition read_section :: "nat \<Rightarrow> nat \<Rightarrow> nat \<Rightarrow> 'a cons_scheme \<Rightarrow> (wait_end \<times> u8 list, 'a cons_scheme) kresult \<Rightarrow> bool" where
  "read_section p n target s r \<longleftrightarrow>
     (\<exists>e s' rest. r = Inr ((e, line_prefix n (in_lines s)), s') \<and>
        e = (if line_ends n (in_lines s) then Finished else if p_killed (ptable s ! p) then Killed else Waits) \<and>
        in_lines s = line_prefix n (in_lines s) @ rest \<and> (e = Finished \<or> rest = []) \<and>
        in_lines s' = (if n = target \<and> n \<noteq> 0 \<and> line_prefix n (in_lines s) = [] then drop 1 rest else rest) \<and>
        inp_ok s' \<and> in_edit s' = in_edit s \<and>
        (if e = Waits
         then klk s' = {PtableLock} \<and> cur s' = None \<and>
           p_state (ptable s' ! p) = SLEEPING \<and> p_chan (ptable s' ! p) = Some ChInput
         else klk s' = {ConsLock} \<and> cur s' = Some p))"

lemma read_section_cong:
  assumes "in_lines s2 = in_lines s" and "in_edit s2 = in_edit s" and "p_killed (ptable s2 ! p) = p_killed (ptable s ! p)"
  shows "read_section p n target s2 r = read_section p n target s r"
  unfolding read_section_def assms ..

lemma read_section_stop:
  assumes "inp_ok s" and "klk s = {ConsLock}" and "cur s = Some p" and "p < length (ptable s)"
    and "inp_r s = inp_w s"
  shows "read_section p (Suc n) target s (consoleread_loop (Suc n) target s)"
proof (cases "p_killed (ptable s ! p)")
  case True
  with assms show ?thesis by (simp add: read_section_def in_lines_def ring_seq_def)
next
  case False
  let ?s = "(switchkvm (set_proc p (\<lambda>x. x\<lparr>p_chan := Some ChInput, p_state := SLEEPING\<rparr>)
     (s\<lparr>klk := {PtableLock}\<rparr>)))\<lparr>cur := None\<rparr>"
  have "consoleread_loop (Suc n) target s = Inr ((Waits, []), ?s)"
    using False assms(3,5) sleep_enter_eq [OF assms(2) _ assms(3,4), of ChInput] by simp
  moreover have "inp_e ?s = inp_e s" "inp_w ?s = inp_w s" "inp_r ?s = inp_r s" "inp_buf ?s = inp_buf s"
    by (simp_all add: switchkvm_def set_proc_def)
  note inp_fields_cong [OF this]
  moreover have "in_lines s = []" using assms(5) by (simp add: in_lines_def ring_seq_def)
  ultimately show ?thesis
    using False assms(1,4) by (simp add: read_section_def switchkvm_def set_proc_def)
qed

lemma read_section_next:
  assumes "read_section p n target (s\<lparr>inp_r := inp_r s + 1\<rparr>) (consoleread_loop n target (s\<lparr>inp_r := inp_r s + 1\<rparr>))"
    and "in_lines s = c # in_lines (s\<lparr>inp_r := inp_r s + 1\<rparr>)" and "in_edit (s\<lparr>inp_r := inp_r s + 1\<rparr>) = in_edit s"
    and "c = inp_buf s (ring (inp_r s))" and "inp_r s \<noteq> inp_w s" and "c \<noteq> 4" and "c \<noteq> 10" and "n < target"
  shows "read_section p (Suc n) target s (consoleread_loop (Suc n) target s)"
proof -
  let ?s1 = "s\<lparr>inp_r := inp_r s + 1\<rparr>"
  obtain e s' rest where r: "consoleread_loop n target ?s1 = Inr ((e, line_prefix n (in_lines ?s1)), s')"
      "e = (if line_ends n (in_lines ?s1) then Finished else if p_killed (ptable ?s1 ! p) then Killed else Waits)"
      "in_lines ?s1 = line_prefix n (in_lines ?s1) @ rest" "e = Finished \<or> rest = []"
      "in_lines s' = (if n = target \<and> n \<noteq> 0 \<and> line_prefix n (in_lines ?s1) = [] then drop 1 rest else rest)"
      "inp_ok s'" "in_edit s' = in_edit ?s1"
    and t: "if e = Waits then klk s' = {PtableLock} \<and> cur s' = None \<and>
           p_state (ptable s' ! p) = SLEEPING \<and> p_chan (ptable s' ! p) = Some ChInput
         else klk s' = {ConsLock} \<and> cur s' = Some p"
    using assms(1) unfolding read_section_def by blast
  have "consoleread_loop (Suc n) target s = Inr ((e, line_prefix (Suc n) (in_lines s)), s')"
    using assms(2,5-7) r(1) by (simp add: Let_def flip: assms(4))
  moreover have "line_ends (Suc n) (in_lines s) = line_ends n (in_lines ?s1)" using assms(2,6,7) by simp
  moreover have "line_prefix (Suc n) (in_lines s) = c # line_prefix n (in_lines ?s1)" using assms(2,6,7) by simp
  ultimately show ?thesis
    unfolding read_section_def using r t assms(2,3,8)
    by (intro exI [of _ e] exI [of _ s'] exI [of _ rest]) simp
qed

lemma consoleread_loop_ok:
  "inp_ok s \<Longrightarrow> klk s = {ConsLock} \<Longrightarrow> cur s = Some p \<Longrightarrow> p < length (ptable s) \<Longrightarrow> n \<le> target \<Longrightarrow>
   read_section p n target s (consoleread_loop n target s)"
proof (induction n arbitrary: s)
  case 0
  then show ?case by (simp add: read_section_def)
next
  case (Suc n)
  show ?case
  proof (cases "in_lines s")
    case Nil
    then have "inp_r s = inp_w s"
      using inp_ok_at [OF Suc.prems(1)] by (simp add: inp_at_def)
    with Suc.prems show ?thesis by (intro read_section_stop)
  next
    case (Cons c ls)
    let ?s1 = "s\<lparr>inp_r := inp_r s + 1\<rparr>"
    have at: "inp_at (Suc (length ls)) (length (in_edit s)) s" using inp_ok_at [OF Suc.prems(1)] Cons by simp
    note nx = inp_at_next [OF at]
    have c: "c = inp_buf s (ring (inp_r s))" and ls: "in_lines s = c # in_lines ?s1"
      using nx(3) unfolding Cons by simp_all
    have ok: "inp_ok ?s1" using inp_at_ok [OF nx(1)] nx(4) Suc.prems(1) by (simp add: inp_ok_def)
    consider "c = 4" | "c = 10" | "c \<noteq> 4" "c \<noteq> 10" by blast
    then show ?thesis
    proof cases
      case 1
      have "?s1\<lparr>inp_r := inp_r ?s1 - 1\<rparr> = s" by simp
      then have "consoleread_loop (Suc n) target s =
          Inr ((Finished, []), if Suc n < target then s else ?s1)"
        using nx(2) 1 by (simp add: Let_def flip: c)
      then show ?thesis
        unfolding read_section_def ls 1 using 1 ls nx(4) ok Suc.prems
        by (intro exI [of _ Finished] exI [of _ "if Suc n < target then s else ?s1"] exI [of _ "c # in_lines ?s1"]) simp
    next
      case 2
      then have "consoleread_loop (Suc n) target s = Inr ((Finished, [c]), ?s1)"
        using nx(2) by (simp add: Let_def flip: c)
      then show ?thesis unfolding read_section_def ls using 2 nx(4) ok Suc.prems by simp
    next
      case 3
      have "read_section p n target ?s1 (consoleread_loop n target ?s1)"
        using Suc.prems ok by (intro Suc.IH) simp_all
      from read_section_next [OF this ls nx(4) c nx(2) 3] Suc.prems(5) show ?thesis by simp
    qed
  qed
qed

text \<open>Process \<open>p\<close> runs and has the console's inode \<open>ip\<close> locked, as \<open>readi\<close> calls \<open>consoleread\<close>.\<close>

definition console_ready :: "nat \<Rightarrow> nat \<Rightarrow> 'a fs_scheme \<Rightarrow> bool" where
  "console_ready ip p s \<longleftrightarrow> klk s = {} \<and> cur s = Some p \<and> p < length (ptable s) \<and>
     ip < length (inodes s) \<and> i_ref (inodes s ! ip) \<ge> 1 \<and> i_valid (inodes s ! ip) \<and> sl_locked (inode_lock ip s)"

lemma iunlock_ready:
  assumes "console_ready ip p s"
  shows "iunlock (Some ip) s =
    Inr ((), wakeup1 (Some (ChInodeLock ip)) (set_inode_lock ip (\<lambda>_. \<lparr>sl_locked = False, sl_pid = 0\<rparr>) s))"
  using assms by (simp add: console_ready_def iunlock_def holding_inode_def release_inode_def
      inode_cell.holdingsleep_eq inode_cell.releasesleep_eq)

lemma consoleread_loop_frame:
  "consoleread_loop n target s = Inr ((e, bs), s') \<Longrightarrow> e \<noteq> Waits \<Longrightarrow> \<exists>r. s' = s\<lparr>inp_r := r\<rparr>"
proof (induction n arbitrary: s e bs)
  case 0
  then show ?case by (intro exI [of _ "inp_r s"]) simp
next
  case (Suc n)
  show ?case
  proof (cases "inp_r s = inp_w s")
    case True
    with Suc.prems have "s' = s"
      by (simp add: bindE_eq_Inr split: option.splits if_splits)
    then show ?thesis by (intro exI [of _ "inp_r s"]) simp
  next
    case False
    let ?s1 = "s\<lparr>inp_r := inp_r s + 1\<rparr>"
    define c where "c = inp_buf s (ring (inp_r s))"
    have eq: "consoleread_loop (Suc n) target s = (if c = 4 then Inr ((Finished, []), if Suc n < target then s else ?s1)
        else if c = 10 then Inr ((Finished, [c]), ?s1)
        else bindE (consoleread_loop n target ?s1) (\<lambda>r s. Inr ((fst r, c # snd r), s)))"
      using False by (simp add: Let_def c_def)
    note prem = Suc.prems(1) [unfolded eq]
    show ?thesis
    proof (cases "c = 4 \<or> c = 10")
      case True
      then have "s' = s\<lparr>inp_r := inp_r s\<rparr> \<or> s' = ?s1" using prem by (simp split: if_splits)
      then show ?thesis by blast
    next
      case False
      then obtain bs2 where "consoleread_loop n target ?s1 = Inr ((e, bs2), s')"
        using prem by auto
      from Suc.IH [OF this Suc.prems(2)] obtain r where "s' = ?s1\<lparr>inp_r := r\<rparr>" by blast
      then have "s' = s\<lparr>inp_r := r\<rparr>" by simp
      then show ?thesis by blast
    qed
  qed
qed

lemma consoleread_leave_ok:
  assumes "klk s = {ConsLock}" and "cur s = Some p" and "p < length (ptable s)" and "ip < length (inodes s)"
    and "i_ref (inodes s ! ip) \<ge> 1" and "i_valid (inodes s ! ip)" and "\<not> sl_locked (inode_lock ip s)"
  shows "\<exists>s'. consoleread_leave ip e n target s = Inr (if e = Killed then -1 else int target - int n, s') \<and>
    console_ready ip p s' \<and> in_lines s' = in_lines s \<and> in_edit s' = in_edit s \<and> inp_ok s' = inp_ok s"
proof -
  let ?t = "s\<lparr>klk := {}\<rparr>"
  let ?s = "set_inode_lock ip (\<lambda>_. \<lparr>sl_locked = True, sl_pid = p_pid (ptable s ! p)\<rparr>) ?t"
  have "acquire_inode ip ?t = Inr ((), ?s)"
    using assms by (simp add: acquire_inode_def inode_cell.acquiresleep_free [of ip ?t p] inode_lock_def)
  then have "ilock (Some ip) ?t = Inr ((), ?s)"
    using assms by (simp add: ilock_def Let_def set_inode_lock_def set_inode_def)
  then have "consoleread_leave ip e n target s = Inr (if e = Killed then -1 else int target - int n, ?s)"
    using assms(1) by (simp add: consoleread_leave_def)
  moreover have "console_ready ip p ?s"
    using assms by (simp add: console_ready_def set_inode_lock_def set_inode_def inode_lock_def)
  moreover have "inp_e ?s = inp_e s" "inp_w ?s = inp_w s" "inp_r ?s = inp_r s" "inp_buf ?s = inp_buf s"
    by (simp_all add: set_inode_lock_def set_inode_def)
  note inp_fields_cong [OF this]
  ultimately show ?thesis by blast
qed

lemma consoleread_enter_ok:
  fixes n :: u32
  assumes "inp_ok s" and "console_ready ip p s"
  defines "s2 \<equiv> (wakeup1 (Some (ChInodeLock ip)) (set_inode_lock ip (\<lambda>_. \<lparr>sl_locked = False, sl_pid = 0\<rparr>) s))\<lparr>klk := {ConsLock}\<rparr>"
  defines "k \<equiv> nat (sint n)"
  shows "consoleread_enter ip n s = consoleread_loop k k s2" and "read_section p k k s (consoleread_enter ip n s)"
proof -
  have f: "klk s = {}" "cur s = Some p" "p < length (ptable s)" using assms(2) by (simp_all add: console_ready_def)
  show eq: "consoleread_enter ip n s = consoleread_loop k k s2"
    using f(1) by (simp add: consoleread_enter_def iunlock_ready [OF assms(2)] s2_def k_def set_inode_lock_def set_inode_def)
  have "inp_e s2 = inp_e s" "inp_w s2 = inp_w s" "inp_r s2 = inp_r s" "inp_buf s2 = inp_buf s"
    by (simp_all add: s2_def set_inode_lock_def set_inode_def wakeup1_def)
  note i = inp_fields_cong [OF this]
  have "ptable s2 = map (wake_proc (Some (ChInodeLock ip))) (ptable s)" "klk s2 = {ConsLock}" "cur s2 = Some p"
    using f(2) by (simp_all add: s2_def set_inode_lock_def set_inode_def wakeup1_def)
  with consoleread_loop_ok [of s2 p k k] i assms(1) f(3) read_section_cong [of s2 s p]
  show "read_section p k k s (consoleread_enter ip n s)" unfolding eq by simp
qed

lemma consoleread_ok:
  fixes n :: u32
  assumes "inp_ok s" and "console_ready ip p s"
  defines "k \<equiv> nat (sint n)"
  assumes "consoleread_enter ip n s = Inr ((e, bs), s1)" and "e \<noteq> Waits" and "length bs \<le> k"
  shows "\<exists>s'. consoleread ip n s = Inr ((if e = Killed then -1 else int (length bs), bs), s') \<and>
    console_ready ip p s' \<and> in_lines s' = in_lines s1 \<and> in_edit s' = in_edit s1 \<and> inp_ok s' = inp_ok s1"
proof -
  let ?s2 = "(wakeup1 (Some (ChInodeLock ip)) (set_inode_lock ip (\<lambda>_. \<lparr>sl_locked = False, sl_pid = 0\<rparr>) s))\<lparr>klk := {ConsLock}\<rparr>"
  obtain r where r: "s1 = ?s2\<lparr>inp_r := r\<rparr>"
    using consoleread_loop_frame [of k k ?s2 e bs s1] consoleread_enter_ok(1) [OF assms(1,2), of n] assms(4,5)
    by (auto simp: k_def)
  have "klk s1 = {ConsLock}" "cur s1 = Some p" "p < length (ptable s1)" "ip < length (inodes s1)"
    "i_ref (inodes s1 ! ip) \<ge> 1" "i_valid (inodes s1 ! ip)" "\<not> sl_locked (inode_lock ip s1)"
    using assms(2) unfolding r
    by (simp_all add: console_ready_def set_inode_lock_def set_inode_def wakeup1_def inode_lock_def)
  from consoleread_leave_ok [OF this, of e "k - length bs" k] assms(4-6) show ?thesis
    by (auto simp: consoleread_def k_def)
qed

lemma length_line_prefix: "length (line_prefix n ls) \<le> n"
  by (induction n ls rule: line_prefix.induct) auto

lemma consoleread_resume_ok:
  assumes "inp_ok u" and "klk u = {PtableLock}" and "cur u = Some p" and "p < length (ptable u)" and "m \<le> target"
  shows "read_section p m target u (consoleread_resume p m target u)"
proof -
  let ?s = "(set_proc p (\<lambda>x. x\<lparr>p_chan := None\<rparr>) u)\<lparr>klk := {ConsLock}\<rparr>"
  have eq: "consoleread_resume p m target u = consoleread_loop m target ?s"
    using assms(2) by (simp add: consoleread_resume_def sleep_return_def Let_def set_proc_def)
  have "inp_e ?s = inp_e u" "inp_w ?s = inp_w u" "inp_r ?s = inp_r u" "inp_buf ?s = inp_buf u"
    by (simp_all add: set_proc_def)
  note i = inp_fields_cong [OF this]
  have "klk ?s = {ConsLock}" "cur ?s = Some p" "ptable ?s = (ptable u)[p := (ptable u ! p)\<lparr>p_chan := None\<rparr>]"
    using assms(3) by (simp_all add: set_proc_def)
  with consoleread_loop_ok [of ?s p m target] i assms(1,4,5) read_section_cong [of ?s u p] show ?thesis
    unfolding eq by simp
qed

text \<open>C28. \<open>consoleread\<close> delivers the next line, or as much of it as was asked for, in the order in which it was
  typed.  If the readable bytes contain a newline, an end-of-file character or as many bytes as were asked for, the call
  returns these bytes up to and including the newline and their number; otherwise it takes all of them, and then returns -1 if
  the process has been killed and sleeps on the input if not.  After a wakeup the read goes on in the same way with the number
  of bytes still wanted.  Exactly the delivered bytes leave the ring; an end-of-file character leaves it only with
  the read that returns no byte, and the line being edited stays.\<close>

theorem consoleread_takes_line:
  fixes s :: "'a fs_scheme"
  assumes "inp_ok s" and "console_ready ip p s"
  shows "(let k = nat (sint n); ls = in_lines s; line = line_prefix k ls in
     read_section p k k s (consoleread_enter ip n s) \<and>
     (line_ends k ls \<or> p_killed (ptable s ! p) \<longrightarrow>
       (\<exists>s' rest. consoleread ip n s = Inr ((if line_ends k ls then int (length line) else -1, line), s') \<and>
          console_ready ip p s' \<and> inp_ok s' \<and> in_edit s' = in_edit s \<and> ls = line @ rest \<and>
          in_lines s' = (if k \<noteq> 0 \<and> line = [] then drop 1 rest else rest)))) \<and>
    (\<forall>(u :: 'a fs_scheme) m target. inp_ok u \<and> klk u = {PtableLock} \<and> cur u = Some p \<and> p < length (ptable u) \<and> m \<le> target \<longrightarrow>
       read_section p m target u (consoleread_resume p m target u))"
proof -
  define k ls where "k = nat (sint n)" and "ls = in_lines s"
  have sec: "read_section p k k s (consoleread_enter ip n s)"
    using consoleread_enter_ok(2) [OF assms] by (simp add: k_def)
  have "\<exists>s' rest. consoleread ip n s = Inr ((if line_ends k ls then int (length (line_prefix k ls)) else -1, line_prefix k ls), s') \<and>
          console_ready ip p s' \<and> inp_ok s' \<and> in_edit s' = in_edit s \<and> ls = line_prefix k ls @ rest \<and>
          in_lines s' = (if k \<noteq> 0 \<and> line_prefix k ls = [] then drop 1 rest else rest)"
    if "line_ends k ls \<or> p_killed (ptable s ! p)"
  proof -
    from sec obtain e s1 rest where r: "consoleread_enter ip n s = Inr ((e, line_prefix k ls), s1)"
        "e = (if line_ends k ls then Finished else if p_killed (ptable s ! p) then Killed else Waits)"
        "ls = line_prefix k ls @ rest" "in_lines s1 = (if k \<noteq> 0 \<and> line_prefix k ls = [] then drop 1 rest else rest)"
        "inp_ok s1" "in_edit s1 = in_edit s"
      unfolding read_section_def ls_def by auto
    have e: "e \<noteq> Waits" "(e = Killed) = (\<not> line_ends k ls)" using r(2) that by auto
    then have c: "(if line_ends k ls then int (length (line_prefix k ls)) else -1) =
        (if e = Killed then -1 else int (length (line_prefix k ls)))" by simp
    obtain s' where s': "consoleread ip n s = Inr ((if e = Killed then -1 else int (length (line_prefix k ls)), line_prefix k ls), s')"
        "console_ready ip p s'" "in_lines s' = in_lines s1" "in_edit s' = in_edit s1" "inp_ok s' = inp_ok s1"
      using consoleread_ok [OF assms r(1) e(1), folded k_def, OF length_line_prefix] by blast
    have "inp_ok s'" "in_edit s' = in_edit s" using s' r by simp_all
    with s'(1,2) r(3) trans [OF s'(3) r(4)] show ?thesis unfolding c by blast
  qed
  with sec consoleread_resume_ok show ?thesis unfolding Let_def k_def [symmetric] ls_def [symmetric] by blast
qed

text \<open>Two typed lines, of which one is read through the console's inode.\<close>

definition two_lines :: kern where
  "two_lines = (kern_bss (\<lambda>_ _. 0))\<lparr>cur := Some 0, inp_buf := (\<lambda>k. [97, 10, 98, 10] ! k), inp_w := 4, inp_e := 4,
     inodes := [inode_bss\<lparr>i_ref := 1, i_valid := True, i_lock := \<lparr>sl_locked = True, sl_pid = 1\<rparr>\<rparr>]\<rparr>"

lemma two_lines_inp:
  "inp_ok two_lines" "console_ready 0 0 two_lines" "in_lines two_lines = [97, 10, 98, 10]" "in_edit two_lines = []"
  by (simp_all add: two_lines_def kern_bss_def inp_ok_def in_lines_def in_edit_def ring_seq_def slot_def
      INPUT_BUF_def upt_conv_Cons console_ready_def inode_lock_def NPROC_def)

theorem consoleread_takes_line_witness:
  "\<exists>s'. consoleread 0 3 two_lines = Inr ((2, [97, 10]), s') \<and> in_lines s' = [98, 10] \<and> console_ready 0 0 s'"
proof -
  have p: "line_prefix 3 [97, 10, 98, 10] = [97, 10]" "line_ends 3 [97, 10, 98, 10]"
    by (simp_all add: numeral_3_eq_3)
  have n: "nat (sint (3 :: u32)) = 3" by simp
  from consoleread_takes_line [OF two_lines_inp(1,2), of 3] show ?thesis
    unfolding two_lines_inp(3) n Let_def p(1) using p(2) by auto
qed

end
