(* ===== verification/Pipe_Props.thy ===== *)
theory Pipe_Props
  imports Boot Ring Interfaces
begin

text \<open>
  Pipes: \<open>pipewrite\<close> and \<open>piperead\<close> in closed form over the sequence of bytes in the pipe, and the pipe as a
  bounded first-in first-out channel.
\<close>

section \<open>The ring buffer of a pipe\<close>

definition pipe_contents :: "pipe \<Rightarrow> u8 list" where
  "pipe_contents q = ring_seq PIPESIZE (pi_data q) (nread q) (unat (nwrite q - nread q))"

definition pipe_inv :: "pipe \<Rightarrow> bool" where
  "pipe_inv q \<longleftrightarrow> length (pipe_contents q) \<le> 512"

lemma PIPESIZE_dvd: "unat PIPESIZE dvd 2 ^ 32"
  by (simp add: PIPESIZE_def)

lemma nwrite_eq: "nwrite q = nread q + of_nat (length (pipe_contents q))"
  by (simp add: pipe_contents_def)

lemma pipe_full_iff: "pipe_full q \<longleftrightarrow> length (pipe_contents q) = 512"
proof -
  have "pipe_full q \<longleftrightarrow> nwrite q - nread q = PIPESIZE" by (auto simp: pipe_full_def algebra_simps)
  also have "\<dots> \<longleftrightarrow> unat (nwrite q - nread q) = 512" by (simp add: word_unat_eq_iff PIPESIZE_def)
  finally show ?thesis by (simp add: pipe_contents_def)
qed

lemma pipe_empty_iff: "nread q = nwrite q \<longleftrightarrow> pipe_contents q = []"
proof -
  have "pipe_contents q = [] \<longleftrightarrow> unat (nwrite q - nread q) = 0"
    by (simp add: pipe_contents_def flip: length_0_conv)
  also have "\<dots> \<longleftrightarrow> nread q = nwrite q" by (auto simp: unat_eq_zero)
  finally show ?thesis ..
qed

lemma pipe_put_contents:
  assumes "length (pipe_contents q) < 512"
  shows "pipe_contents (pipe_put b q) = pipe_contents q @ [b]"
proof -
  define n where "n = unat (nwrite q - nread q)"
  have n: "n < 512" "nwrite q = nread q + of_nat n" using assms by (simp_all add: n_def pipe_contents_def)
  have d: "nwrite q + 1 - nread q = of_nat (Suc n)" using n(2) by simp
  have u: "unat (nwrite q + 1 - nread q) = Suc n"
    unfolding d using n(1) by (simp add: unat_of_nat del: of_nat_Suc)
  have "n < unat PIPESIZE" using n(1) by (simp add: PIPESIZE_def)
  from ring_seq_put [OF PIPESIZE_dvd this, of "pi_data q" "nread q" b]
  have st: "ring_seq PIPESIZE ((pi_data q)(slot PIPESIZE (nwrite q) := b)) (nread q) (Suc n) = pipe_contents q @ [b]"
    unfolding n(2) [symmetric] by (simp add: pipe_contents_def n_def)
  have "pipe_contents (pipe_put b q) =
      ring_seq PIPESIZE ((pi_data q)(slot PIPESIZE (nwrite q) := b)) (nread q) (unat (nwrite q + 1 - nread q))"
    by (simp add: pipe_contents_def pipe_put_def slot_def)
  then show ?thesis unfolding u st .
qed

lemma pipe_get_contents:
  assumes "pipe_contents q \<noteq> []" and "pipe_get q = (b, q')"
  shows "pipe_contents q = b # pipe_contents q'"
proof -
  have q': "b = pi_data q (slot PIPESIZE (nread q))" "q' = q\<lparr>nread := nread q + 1\<rparr>"
    using assms(2) by (auto simp: pipe_get_def slot_def)
  have "nwrite q - nread q \<noteq> 0" using assms(1) pipe_empty_iff [of q] by auto
  then have "unat (nwrite q - nread q) = Suc (unat (nwrite q - nread q - 1))"
    by (simp add: unat_minus_one unat_gt_0)
  then show ?thesis
    by (simp add: pipe_contents_def q' ring_seq_Cons diff_diff_add)
qed

section \<open>The sections of the two routines in closed form\<close>

fun pipe_puts :: "u8 list \<Rightarrow> pipe \<Rightarrow> pipe" where
  "pipe_puts [] q = q"
| "pipe_puts (b # bs) q = pipe_puts bs (pipe_put b q)"

lemma pipe_puts_fun [simp]: "pipe_puts [] = (\<lambda>q. q)" "pipe_puts (b # bs) = (\<lambda>q. pipe_puts bs (pipe_put b q))"
  by (simp_all add: fun_eq_iff)

lemma pipe_puts_contents:
  "length (pipe_contents q) + length bs \<le> 512 \<Longrightarrow> pipe_contents (pipe_puts bs q) = pipe_contents q @ bs"
  by (induction bs arbitrary: q) (simp_all add: pipe_put_contents)

lemma pipe_puts_ends [simp]: "readopen (pipe_puts bs q) = readopen q" "writeopen (pipe_puts bs q) = writeopen q"
  by (induction bs arbitrary: q) (simp_all add: pipe_put_def)

lemma set_pipe_comp [simp]: "set_pipe p f (set_pipe p g s) = set_pipe p (\<lambda>q. f (g q)) s"
  by (simp add: set_pipe_def)

lemma set_pipe_id [simp]: "set_pipe p (\<lambda>q. q) s = s"
  by (simp add: set_pipe_def)

lemma set_pipe_simps [simp]:
  "pipes (set_pipe p f s) p = f (pipes s p)" "klk (set_pipe p f s) = klk s"
  "cur (set_pipe p f s) = cur s" "ptable (set_pipe p f s) = ptable s"
  by (simp_all add: set_pipe_def)

definition pipe_room :: "pipe \<Rightarrow> nat" where
  "pipe_room q = 512 - length (pipe_contents q)"

text \<open>What \<open>pipewrite\<close> does once it finds the pipe full, with the bytes \<open>bs\<close> still to write.\<close>

definition pipewrite_full :: "u32 \<Rightarrow> u8 list \<Rightarrow> 'a ftab_scheme \<Rightarrow> (pw_end, 'a ftab_scheme) kresult" where
  "pipewrite_full p bs s =
     bindE (if \<not> readopen (pipes s p) then Inr (True, s) else myproc_killed s) (\<lambda>stop s.
       if stop then bindE (lk_release (PipeLock p) s) (\<lambda>_ s. Inr (PwDone (-1), s))
       else
         bindE (wakeup (ChNread p) s) (\<lambda>_ s.
         bindE (sleep_enter (ChNwrite p) (Some (PipeLock p)) s) (\<lambda>_ s. Inr (PwSleeps bs, s))))"

lemma pipewrite_loop_eq:
  "pipe_inv (pipes s p) \<Longrightarrow>
   pipewrite_loop p bs n s =
     (let k = pipe_room (pipes s p); t = set_pipe p (pipe_puts (take k bs)) s in
      if length bs \<le> k
      then bindE (wakeup (ChNread p) t) (\<lambda>_ s. bindE (lk_release (PipeLock p) s) (\<lambda>_ s. Inr (PwDone n, s)))
      else pipewrite_full p (drop k bs) t)"
proof (induction bs arbitrary: s)
  case Nil
  then show ?case by simp
next
  case (Cons b bs)
  let ?q = "pipes s p"
  show ?case
  proof (cases "pipe_full ?q")
    case True
    then have "pipe_room ?q = 0" by (simp add: pipe_room_def pipe_full_iff)
    with True show ?thesis by (simp add: pipewrite_full_def)
  next
    case False
    then have len: "length (pipe_contents ?q) < 512" using Cons.prems by (simp add: pipe_full_iff pipe_inv_def)
    have c: "pipe_contents (pipe_put b ?q) = pipe_contents ?q @ [b]" by (rule pipe_put_contents [OF len])
    let ?s = "set_pipe p (pipe_put b) s"
    have i: "pipe_inv (pipes ?s p)" using len c by (simp add: pipe_inv_def)
    obtain k where k: "pipe_room ?q = Suc k" "pipe_room (pipes ?s p) = k"
      using len c by (cases "pipe_room ?q") (auto simp: pipe_room_def)
    show ?thesis using False Cons.IH [OF i] k by (simp add: Let_def)
  qed
qed

lemma piperead_copy_eq:
  "pipe_inv (pipes s p) \<Longrightarrow>
   piperead_copy p n s =
     (take n (pipe_contents (pipes s p)),
      set_pipe p (\<lambda>q. q\<lparr>nread := nread q + of_nat (min n (length (pipe_contents q)))\<rparr>) s)"
proof (induction n arbitrary: s)
  case 0
  then show ?case by simp
next
  case (Suc n)
  let ?q = "pipes s p"
  show ?case
  proof (cases "pipe_contents ?q = []")
    case True
    then show ?thesis by (simp add: pipe_empty_iff set_pipe_def)
  next
    case False
    obtain b q' where g: "pipe_get ?q = (b, q')" by (cases "pipe_get ?q")
    have c: "pipe_contents ?q = b # pipe_contents q'" by (rule pipe_get_contents [OF False g])
    have q': "q' = ?q\<lparr>nread := nread ?q + 1\<rparr>" using g by (simp add: pipe_get_def)
    let ?s = "set_pipe p (\<lambda>_. q') s"
    have "pipe_inv (pipes ?s p)" using Suc.prems c by (simp add: pipe_inv_def)
    from Suc.IH [OF this] False g c q' show ?thesis
      by (simp add: pipe_empty_iff set_pipe_def algebra_simps)
  qed
qed

lemma pipe_drop_contents:
  "pipe_contents (q\<lparr>nread := nread q + of_nat (min n (length (pipe_contents q)))\<rparr>) = drop n (pipe_contents q)"
proof -
  define l where "l = length (pipe_contents q)"
  have l: "unat (nwrite q - nread q) = l" "nwrite q = nread q + of_nat l"
    by (simp_all add: l_def pipe_contents_def)
  define k where "k = min n l"
  have k: "k \<le> l" by (simp add: k_def)
  have "l < 2 ^ 32" using l(1) unsigned_less [where ?'a = nat, of "nwrite q - nread q"] by simp
  then have "unat (of_nat (l - k) :: u32) = l - k" by (simp add: unat_of_nat)
  moreover have "nwrite q - (nread q + of_nat k) = of_nat (l - k)" using l(2) k by (simp add: of_nat_diff)
  ultimately have "unat (nwrite q - (nread q + of_nat k)) = l - k" by simp
  moreover have "pipe_contents q = ring_seq PIPESIZE (pi_data q) (nread q) k @
      ring_seq PIPESIZE (pi_data q) (nread q + of_nat k) (l - k)"
    using ring_seq_add [of PIPESIZE "pi_data q" "nread q" k "l - k"] k l(1) by (simp add: pipe_contents_def)
  moreover have "drop n (pipe_contents q) = drop k (pipe_contents q)"
    by (simp add: k_def min_def l_def)
  moreover have "pipe_contents (q\<lparr>nread := nread q + of_nat k\<rparr>) =
      ring_seq PIPESIZE (pi_data q) (nread q + of_nat k) (unat (nwrite q - (nread q + of_nat k)))"
    by (simp add: pipe_contents_def)
  ultimately show ?thesis unfolding l_def [symmetric] k_def [symmetric] by simp
qed

section \<open>The calls\<close>

text \<open>Process \<open>i\<close> runs, holds no lock and has not been killed; the pipe's counters are consistent.\<close>

definition pipe_caller :: "u32 \<Rightarrow> nat \<Rightarrow> 'a ftab_scheme \<Rightarrow> bool" where
  "pipe_caller p i s \<longleftrightarrow> pipe_inv (pipes s p) \<and> klk s = {} \<and> cur s = Some i \<and> i < length (ptable s) \<and>
     \<not> p_killed (ptable s ! i)"

lemma room_contents:
  assumes "pipe_inv q"
  shows "pipe_contents (pipe_puts (take (pipe_room q) bs) q) = pipe_contents q @ take (pipe_room q) bs"
    and "pipe_inv (pipe_puts (take (pipe_room q) bs) q)"
proof -
  have "length (pipe_contents q) + length (take (pipe_room q) bs) \<le> 512"
    using assms by (simp add: pipe_room_def pipe_inv_def)
  from pipe_puts_contents [OF this] this
  show "pipe_contents (pipe_puts (take (pipe_room q) bs) q) = pipe_contents q @ take (pipe_room q) bs"
    and "pipe_inv (pipe_puts (take (pipe_room q) bs) q)" by (simp_all add: pipe_inv_def)
qed

lemma pipewrite_fits:
  assumes "pipe_caller p i s" and "length bs \<le> pipe_room (pipes s p)"
  shows "\<exists>s'. pipewrite p bs (int (length bs)) s = Inr (int (length bs), s') \<and> pipe_caller p i s' \<and>
    pipe_contents (pipes s' p) = pipe_contents (pipes s p) @ bs \<and>
    readopen (pipes s' p) = readopen (pipes s p) \<and> writeopen (pipes s' p) = writeopen (pipes s p)"
proof -
  let ?u = "s\<lparr>klk := {PipeLock p}\<rparr>"
  let ?s = "(wakeup1 (Some (ChNread p)) (set_pipe p (pipe_puts bs) ?u))\<lparr>klk := {}\<rparr>"
  have c: "pipe_inv (pipes s p)" "klk s = {}" using assms(1) by (simp_all add: pipe_caller_def)
  have eq: "pipewrite p bs (int (length bs)) s = Inr (int (length bs), ?s)"
    using c assms(2) by (simp add: pipewrite_def pipewrite_loop_eq Let_def)
  have q: "pipes ?s p = pipe_puts bs (pipes s p)" by (simp add: wakeup1_def set_pipe_def)
  moreover have "pipe_caller p i ?s"
    using assms room_contents(2) [OF c(1), of bs] q by (simp add: pipe_caller_def wakeup1_def set_pipe_def)
  ultimately show ?thesis
    using eq room_contents(1) [OF c(1), of bs] assms(2) by (intro exI [of _ ?s]) simp
qed

lemma pipewrite_reader_gone:
  assumes "pipe_caller p i s" and "pipe_room (pipes s p) < length bs" and "\<not> readopen (pipes s p)"
  shows "\<exists>s'. pipewrite p bs (int (length bs)) s = Inr (-1, s') \<and> pipe_caller p i s' \<and>
    pipe_contents (pipes s' p) = pipe_contents (pipes s p) @ take (pipe_room (pipes s p)) bs"
proof -
  let ?k = "pipe_room (pipes s p)"
  let ?s = "set_pipe p (pipe_puts (take ?k bs)) s"
  have c: "pipe_inv (pipes s p)" "klk s = {}" using assms(1) by (simp_all add: pipe_caller_def)
  have "(set_pipe p (pipe_puts (take ?k bs)) (s\<lparr>klk := {PipeLock p}\<rparr>))\<lparr>klk := {}\<rparr> = ?s"
    using c(2) by (simp add: set_pipe_def)
  then have "pipewrite p bs (int (length bs)) s = Inr (-1, ?s)"
    using c assms(2,3) by (simp add: pipewrite_def pipewrite_loop_eq Let_def pipewrite_full_def)
  then show ?thesis
    using assms(1) room_contents [OF c(1), of bs] by (intro exI [of _ ?s]) (simp add: pipe_caller_def)
qed

lemma pipewrite_loop_waits:
  assumes "pipe_caller p i s" and "pipe_room (pipes s p) < length bs" and "readopen (pipes s p)"
  shows "\<exists>s'. pipewrite_loop p bs m (s\<lparr>klk := {PipeLock p}\<rparr>) = Inr (PwSleeps (drop (pipe_room (pipes s p)) bs), s') \<and>
    pipe_contents (pipes s' p) = pipe_contents (pipes s p) @ take (pipe_room (pipes s p)) bs \<and>
    p_state (ptable s' ! i) = SLEEPING \<and> p_chan (ptable s' ! i) = Some (ChNwrite p)"
proof -
  let ?k = "pipe_room (pipes s p)"
  let ?t = "set_pipe p (pipe_puts (take ?k bs)) (s\<lparr>klk := {PipeLock p}\<rparr>)"
  let ?w = "wakeup1 (Some (ChNread p)) ?t"
  have c: "pipe_inv (pipes s p)" "cur s = Some i" "i < length (ptable s)" "\<not> p_killed (ptable s ! i)"
    using assms(1) by (simp_all add: pipe_caller_def)
  have w: "klk ?w = {PipeLock p}" "cur ?w = Some i" "i < length (ptable ?w)" "pipes ?w p = pipe_puts (take ?k bs) (pipes s p)"
    using c by (simp_all add: wakeup1_def set_pipe_def)
  have "myproc_killed ?t = Inr (False, ?t)" using c by (simp add: myproc_killed_def)
  then have eq: "pipewrite_loop p bs m (s\<lparr>klk := {PipeLock p}\<rparr>) =
      bindE (sleep_enter (ChNwrite p) (Some (PipeLock p)) ?w) (\<lambda>_ s. Inr (PwSleeps (drop ?k bs), s))"
    using c(1) assms(2,3) by (simp add: pipewrite_loop_eq Let_def pipewrite_full_def)
  show ?thesis
    unfolding eq using sleep_enter_eq [OF w(1) _ w(2,3), of "ChNwrite p"] w(3,4) room_contents(1) [OF c(1), of bs]
    by (simp add: switchkvm_def set_proc_def)
qed

lemma pipewrite_waits:
  assumes "pipe_caller p i s" and "pipe_room (pipes s p) < length bs" and "readopen (pipes s p)"
  shows "pipewrite p bs (int (length bs)) s = Inl (Blocked (ChNwrite p))"
proof -
  have "klk s = {}" using assms(1) by (simp add: pipe_caller_def)
  with pipewrite_loop_waits [OF assms, of "int (length bs)"] show ?thesis by (auto simp: pipewrite_def)
qed

lemma piperead_some:
  assumes "pipe_caller p i s" and "pipe_contents (pipes s p) \<noteq> [] \<or> \<not> writeopen (pipes s p)"
  shows "\<exists>s'. piperead p n s = Inr ((int (min (nat n) (length (pipe_contents (pipes s p)))), take (nat n) (pipe_contents (pipes s p))), s') \<and>
    pipe_caller p i s' \<and> pipe_contents (pipes s' p) = drop (nat n) (pipe_contents (pipes s p)) \<and>
    readopen (pipes s' p) = readopen (pipes s p) \<and> writeopen (pipes s' p) = writeopen (pipes s p)"
proof -
  let ?f = "\<lambda>q. q\<lparr>nread := nread q + of_nat (min (nat n) (length (pipe_contents q)))\<rparr>"
  let ?s = "(wakeup1 (Some (ChNwrite p)) (set_pipe p ?f (s\<lparr>klk := {PipeLock p}\<rparr>)))\<lparr>klk := {}\<rparr>"
  have c: "pipe_inv (pipes s p)" "klk s = {}" using assms(1) by (simp_all add: pipe_caller_def)
  have wake: "(nread (pipes s p) = nwrite (pipes s p) \<and> writeopen (pipes s p)) = False"
    using assms(2) pipe_empty_iff [of "pipes s p"] by auto
  have "piperead p n s = Inr ((int (length (take (nat n) (pipe_contents (pipes s p)))), take (nat n) (pipe_contents (pipes s p))), ?s)"
    using c by (simp add: piperead_def piperead_sect_def wake piperead_copy_eq)
  moreover have q: "pipes ?s p = ?f (pipes s p)" by (simp add: wakeup1_def set_pipe_def)
  moreover have "pipe_caller p i ?s"
    using assms(1) q by (auto simp: pipe_caller_def pipe_inv_def pipe_drop_contents wakeup1_def set_pipe_def)
  ultimately show ?thesis by (intro exI [of _ ?s]) (simp add: pipe_drop_contents min.commute)
qed

lemma piperead_sect_waits:
  assumes "pipe_caller p i s" and "pipe_contents (pipes s p) = []" and "writeopen (pipes s p)"
  shows "\<exists>s'. piperead_sect p n (s\<lparr>klk := {PipeLock p}\<rparr>) = Inr (None, s') \<and> pipes s' p = pipes s p \<and>
    p_state (ptable s' ! i) = SLEEPING \<and> p_chan (ptable s' ! i) = Some (ChNread p)"
proof -
  let ?u = "s\<lparr>klk := {PipeLock p}\<rparr>"
  have c: "cur ?u = Some i" "i < length (ptable ?u)" "\<not> p_killed (ptable s ! i)" "klk ?u = {PipeLock p}"
    using assms(1) by (simp_all add: pipe_caller_def)
  have "piperead_sect p n ?u = bindE (sleep_enter (ChNread p) (Some (PipeLock p)) ?u) (\<lambda>_ s. Inr (None, s))"
    using assms(2,3) c by (simp add: piperead_sect_def pipe_empty_iff myproc_killed_def)
  with sleep_enter_eq [OF c(4) _ c(1,2), of "ChNread p"] c(2) show ?thesis
    by (simp add: switchkvm_def set_proc_def)
qed

lemma piperead_waits:
  assumes "pipe_caller p i s" and "pipe_contents (pipes s p) = []" and "writeopen (pipes s p)"
  shows "piperead p n s = Inl (Blocked (ChNread p))"
proof -
  have "klk s = {}" using assms(1) by (simp add: pipe_caller_def)
  with piperead_sect_waits [OF assms, of n] show ?thesis by (auto simp: piperead_def)
qed

section \<open>A pipe is a first-in first-out channel\<close>

definition pipe_open :: "u32 \<Rightarrow> nat \<Rightarrow> 'a ftab_scheme \<Rightarrow> bool" where
  "pipe_open p i s \<longleftrightarrow> pipe_caller p i s \<and> readopen (pipes s p) \<and> writeopen (pipes s p)"

interpretation pipe_fifo: fifo 512 "\<lambda>bs. pipewrite p bs (int (length bs))" "\<lambda>n. piperead p (int n)"
    "\<lambda>s. pipe_contents (pipes s p)" "pipe_open p i" for p i
proof unfold_locales
  fix s :: "'a ftab_scheme" and bs :: "u8 list" and n :: nat
  assume "pipe_open p i s"
  then have o: "pipe_caller p i s" "readopen (pipes s p)" "writeopen (pipes s p)" by (simp_all add: pipe_open_def)
  then show le: "length (pipe_contents (pipes s p)) \<le> 512" by (simp add: pipe_caller_def pipe_inv_def)
  show "\<exists>s'. pipewrite p bs (int (length bs)) s = Inr (int (length bs), s') \<and> pipe_open p i s' \<and>
      pipe_contents (pipes s' p) = pipe_contents (pipes s p) @ bs"
    if "length (pipe_contents (pipes s p)) + length bs \<le> 512"
  proof -
    have "length bs \<le> pipe_room (pipes s p)" using that by (simp add: pipe_room_def)
    from pipewrite_fits [OF o(1) this] o show ?thesis by (auto simp: pipe_open_def)
  qed
  show "\<exists>e. pipewrite p bs (int (length bs)) s = Inl e" if "512 < length (pipe_contents (pipes s p)) + length bs"
  proof -
    have "pipe_room (pipes s p) < length bs" using that le by (simp add: pipe_room_def)
    from pipewrite_waits [OF o(1) this o(2)] show ?thesis by simp
  qed
  show "\<exists>s'. piperead p (int n) s = Inr ((int (min n (length (pipe_contents (pipes s p)))), take n (pipe_contents (pipes s p))), s') \<and>
      pipe_open p i s' \<and> pipe_contents (pipes s' p) = drop n (pipe_contents (pipes s p))"
    if "pipe_contents (pipes s p) \<noteq> []"
    using piperead_some [OF o(1), of "int n"] that o by (auto simp: pipe_open_def)
  show "\<exists>e. piperead p (int n) s = Inl e" if "pipe_contents (pipes s p) = []"
    using piperead_waits [OF o(1) that o(3)] by simp
qed

text \<open>C17. A pipe is a first-in first-out channel of 512 bytes.  \<open>pipewrite\<close> of bytes that fit appends all of them to
  the bytes in the pipe and returns their number.  If they do not fit, it appends as many as fit; then it returns -1 if the read end
  is closed, and otherwise sleeps with exactly the other bytes still to write.  \<open>piperead\<close> of \<open>n\<close> bytes takes the first \<open>n\<close>, or
  all if there are fewer, out of the pipe and returns them with their number; it sleeps only if the pipe is empty and the
  write end open.  Hence in every sequence of calls, none of which waits, on a pipe with both ends open, the bytes come out in the order in which
  they went in, none lost or duplicated.  All of this holds for any values of the 32 bit counters, also when they wrap.\<close>

theorem pipe_is_fifo:
  fixes s :: "'a ftab_scheme"
  assumes "pipe_caller p i s"
  shows "(let c = pipe_contents (pipes s p); k = 512 - length c in
      (if length bs \<le> k
       then \<exists>s'. pipewrite p bs (int (length bs)) s = Inr (int (length bs), s') \<and> pipe_caller p i s' \<and>
         pipe_contents (pipes s' p) = c @ bs
       else if \<not> readopen (pipes s p)
       then \<exists>s'. pipewrite p bs (int (length bs)) s = Inr (-1, s') \<and> pipe_caller p i s' \<and>
         pipe_contents (pipes s' p) = c @ take k bs
       else \<exists>s'. pipewrite_loop p bs m (s\<lparr>klk := {PipeLock p}\<rparr>) = Inr (PwSleeps (drop k bs), s') \<and>
         pipe_contents (pipes s' p) = c @ take k bs \<and>
         p_state (ptable s' ! i) = SLEEPING \<and> p_chan (ptable s' ! i) = Some (ChNwrite p)) \<and>
      (if c = [] \<and> writeopen (pipes s p)
       then \<exists>s'. piperead_sect p n (s\<lparr>klk := {PipeLock p}\<rparr>) = Inr (None, s') \<and> pipes s' p = pipes s p \<and>
         p_state (ptable s' ! i) = SLEEPING \<and> p_chan (ptable s' ! i) = Some (ChNread p)
       else \<exists>s'. piperead p n s = Inr ((int (min (nat n) (length c)), take (nat n) c), s') \<and> pipe_caller p i s' \<and>
         pipe_contents (pipes s' p) = drop (nat n) c)) \<and>
    (readopen (pipes s p) \<and> writeopen (pipes s p) \<and>
     fifo_run (\<lambda>bs. pipewrite p bs (int (length bs))) (\<lambda>n. piperead p (int n)) calls s = Inr ((ins, outs), s1) \<longrightarrow>
       outs @ pipe_contents (pipes s1 p) = pipe_contents (pipes s p) @ ins \<and> length (pipe_contents (pipes s1 p)) \<le> 512)"
proof -
  let ?c = "pipe_contents (pipes s p)"
  have k: "512 - length ?c = pipe_room (pipes s p)" by (simp add: pipe_room_def)
  have W: "if length bs \<le> pipe_room (pipes s p)
       then \<exists>s'. pipewrite p bs (int (length bs)) s = Inr (int (length bs), s') \<and> pipe_caller p i s' \<and>
         pipe_contents (pipes s' p) = ?c @ bs
       else if \<not> readopen (pipes s p)
       then \<exists>s'. pipewrite p bs (int (length bs)) s = Inr (-1, s') \<and> pipe_caller p i s' \<and>
         pipe_contents (pipes s' p) = ?c @ take (pipe_room (pipes s p)) bs
       else \<exists>s'. pipewrite_loop p bs m (s\<lparr>klk := {PipeLock p}\<rparr>) = Inr (PwSleeps (drop (pipe_room (pipes s p)) bs), s') \<and>
         pipe_contents (pipes s' p) = ?c @ take (pipe_room (pipes s p)) bs \<and>
         p_state (ptable s' ! i) = SLEEPING \<and> p_chan (ptable s' ! i) = Some (ChNwrite p)"
    using pipewrite_fits [OF assms, of bs] pipewrite_reader_gone [OF assms, of bs] pipewrite_loop_waits [OF assms, of bs m]
    by (simp add: not_le) blast
  have R: "if ?c = [] \<and> writeopen (pipes s p)
       then \<exists>s'. piperead_sect p n (s\<lparr>klk := {PipeLock p}\<rparr>) = Inr (None, s') \<and> pipes s' p = pipes s p \<and>
         p_state (ptable s' ! i) = SLEEPING \<and> p_chan (ptable s' ! i) = Some (ChNread p)
       else \<exists>s'. piperead p n s = Inr ((int (min (nat n) (length ?c)), take (nat n) ?c), s') \<and> pipe_caller p i s' \<and>
         pipe_contents (pipes s' p) = drop (nat n) ?c"
    using piperead_some [OF assms, of n] piperead_sect_waits [OF assms, of n] by (simp split: if_split) blast
  have "outs @ pipe_contents (pipes s1 p) = ?c @ ins \<and> length (pipe_contents (pipes s1 p)) \<le> 512"
    if "readopen (pipes s p)" "writeopen (pipes s p)"
      "fifo_run (\<lambda>bs. pipewrite p bs (int (length bs))) (\<lambda>n. piperead p (int n)) calls s = Inr ((ins, outs), s1)"
    using pipe_fifo.run_order [of p i s, OF _ that(3)] assms that(1,2) by (simp add: pipe_open_def)
  with W R show ?thesis unfolding Let_def k by blast
qed

text \<open>The counters of this pipe wrap with the next byte.\<close>

definition pipe_wrapping :: kern where
  "pipe_wrapping = (kern_bss (\<lambda>_ _. 0))\<lparr>cur := Some 0,
     pipes := (\<lambda>_. \<lparr>pi_data = (\<lambda>_. 0), nread = -1, nwrite = -1, readopen = True, writeopen = True\<rparr>)\<rparr>"

lemma pipe_wrapping_open:
  "pipe_open 0x80400000 0 pipe_wrapping" "pipe_contents (pipes pipe_wrapping 0x80400000) = []"
  by (simp_all add: pipe_open_def pipe_caller_def pipe_inv_def pipe_contents_def pipe_wrapping_def kern_bss_def
      NPROC_def proc_bss_def)

theorem pipe_is_fifo_witness:
  "\<exists>s1 s2. pipewrite 0x80400000 [1, 2, 3] 3 pipe_wrapping = Inr (3, s1) \<and>
     pipe_contents (pipes s1 0x80400000) = [1, 2, 3] \<and>
     fifo_run (\<lambda>bs. pipewrite 0x80400000 bs (int (length bs))) (\<lambda>n. piperead 0x80400000 (int n)) [Put [1, 2, 3], Get 3]
       pipe_wrapping = Inr (([1, 2, 3], [1, 2, 3]), s2) \<and> pipe_contents (pipes s2 0x80400000) = []"
proof -
  let ?p = "0x80400000 :: u32"
  obtain s2 where run: "fifo_run (\<lambda>bs. pipewrite ?p bs (int (length bs))) (\<lambda>n. piperead ?p (int n)) [Put [1, 2, 3], Get 3]
      pipe_wrapping = Inr (([1, 2, 3], [1, 2, 3]), s2)"
    using pipe_fifo.put_get [OF pipe_wrapping_open, of "[1, 2, 3]"] by auto
  have o: "pipe_caller ?p 0 pipe_wrapping" "readopen (pipes pipe_wrapping ?p)" "writeopen (pipes pipe_wrapping ?p)"
    using pipe_wrapping_open(1) by (simp_all add: pipe_open_def)
  from pipe_is_fifo [OF o(1), where bs = "[1, 2, 3]" and calls = "[Put [1, 2, 3], Get 3]" and ins = "[1, 2, 3]"
      and outs = "[1, 2, 3]" and ?s1.0 = s2] o(2,3) run
  show ?thesis unfolding pipe_wrapping_open(2) Let_def by (auto simp del: fifo_run.simps)
qed

end
