(* ===== verification/Pipe_Sched.thy ===== *)
theory Pipe_Sched
  imports Pipe_Props Boot
begin

text \<open>
  A writer and a reader of one pipe under the scheduler.  Between two turns the scheduler holds
  the lock of the process table and runs no process.  In a turn it dispatches one of the two
  processes, which either starts a call or returns from \<open>sleep\<close>, runs until its routine returns or
  sleeps, and gives the CPU back.
\<close>

section \<open>Turns\<close>








section \<open>The turns in closed form\<close>



lemma set_proc_simps [simp]:
  "klk (set_proc i f s) = klk s" "cur (set_proc i f s) = cur s"
  "ptable (set_proc i f s) = (ptable s)[i := f (ptable s ! i)]"
  by (simp_all add: set_proc_def)

lemma set_proc_pipes [simp]: "pipes (set_proc i f s) = pipes s"
  by (simp add: set_proc_def)

lemma switchkvm_simps [simp]:
  "klk (switchkvm s) = klk s" "cur (switchkvm s) = cur s" "ptable (switchkvm s) = ptable s"
  by (simp_all add: switchkvm_def)

lemma switchkvm_pipes [simp]: "pipes (switchkvm s) = pipes s"
  by (simp add: switchkvm_def)

lemma wakeup1_pipes [simp]: "pipes (wakeup1 c s) = pipes s" "cur (wakeup1 c s) = cur s"
  by (simp_all add: wakeup1_def)




lemma wake_running [simp]: "p_state x = RUNNING \<Longrightarrow> wake_proc c x = x"
  by (simp add: wake_proc_def)

lemma ptable_wakeup1: "j < length (ptable s) \<Longrightarrow> ptable (wakeup1 c s) ! j = wake_proc c (ptable s ! j)"
  by (simp add: wakeup1_def)







section \<open>No lost wakeup\<close>


text \<open>A process may run, or it sleeps on \<open>ch\<close> for the reason \<open>why\<close>.\<close>

definition waits :: "proc \<Rightarrow> chan \<Rightarrow> bool \<Rightarrow> bool" where
  "waits x ch why \<longleftrightarrow> p_state x = RUNNABLE \<or> p_state x = SLEEPING \<and> p_chan x = Some ch \<and> why"











lemma waits_wake: "waits x ch why \<Longrightarrow> p_state (wake_proc (Some ch) x) = RUNNABLE"
  by (auto simp: waits_def wake_proc_def)

lemma waits_wake_other: "waits x ch why \<Longrightarrow> c \<noteq> ch \<Longrightarrow> waits (wake_proc (Some c) x) ch why"
  by (auto simp: waits_def wake_proc_def)
















end
