(* ===== verification/Vm_Props.thy ===== *)
theory Vm_Props
  imports Vm Boot
begin

text \<open>
  Page tables as maps from virtual pages to entries: what \<open>mappages\<close>, \<open>setupkvm\<close> and \<open>copyuvm\<close> do to the
  map, with the directories and tables kept apart from each other and from the free pages.
\<close>

section \<open>Words in pages\<close>

lemma slot_unat: "x < 1024 \<Longrightarrow> unat (4 * x :: u32) = 4 * unat x \<and> unat (4 * x) + 4 \<le> 4096"
  by (auto simp: word_less_nat_alt unat_word_ariths)

lemma get32_page:
  assumes "same_page p m m'" and "unat o1 + 4 \<le> 4096"
  shows "get32 m' (p + o1) = get32 m (p + o1)"
proof -
  have "m' (p + o1 + of_nat k) = m (p + o1 + of_nat k)" if "k < 4" for k
  proof -
    have "unat (o1 + of_nat k) < 4096" using unat_plus_nat [of o1 k] assms(2) that by simp
    with assms(1) show ?thesis by (simp add: same_page_def add.assoc)
  qed
  from this [of 0] this [of 1] this [of 2] this [of 3] show ?thesis by (simp add: get32_def)
qed

lemma get32_put32_slot:
  assumes "x < 1024" and "y < 1024" and "x \<noteq> y"
  shows "get32 (put32 m (p + 4 * x) w) (p + 4 * y) = get32 m (p + 4 * y)"
proof -
  have "put32 m (p + 4 * x) w (p + 4 * y + of_nat k) = m (p + 4 * y + of_nat k)" if k: "k < 4" for k
  proof -
    have "\<not> unat (4 * y + of_nat k - 4 * x) < 4"
    proof
      let ?e = "4 * y + of_nat k - 4 * x"
      assume e: "unat ?e < 4"
      have "unat (4 * x + ?e) = 4 * unat x + unat ?e"
        using unat_plus_nat [of "4 * x" "unat ?e"] slot_unat [OF assms(1)] e by simp
      moreover have "unat (4 * y + of_nat k) = 4 * unat y + k"
        using unat_plus_nat [of "4 * y" k] slot_unat [OF assms(2)] k by simp
      ultimately have "4 * unat x + unat ?e = 4 * unat y + k" by simp
      then have "unat x = unat y" using e k by linarith
      with assms(3) show False by (simp add: word_unat_eq_iff)
    qed
    moreover have "p + 4 * y + of_nat k = p + 4 * x + (4 * y + of_nat k - 4 * x)" by simp
    ultimately show ?thesis using put32_at [of m "p + 4 * x" w "4 * y + of_nat k - 4 * x"] by metis
  qed
  from this [of 0] this [of 1] this [of 2] this [of 3] show ?thesis by (simp add: get32_def)
qed

lemma get32_put32_page:
  assumes "page_aligned p" and "page_aligned q" and "x < 1024" and "y < 1024" and "p \<noteq> q \<or> x \<noteq> y"
  shows "get32 (put32 m (p + 4 * x) w) (q + 4 * y) = get32 m (q + 4 * y)"
proof (cases "p = q")
  case True
  with assms show ?thesis by (simp add: get32_put32_slot)
next
  case False
  have "same_page q m (put32 m (p + 4 * x) w)"
    using assms False slot_unat [OF assms(3)] by (intro same_page_put32) auto
  then show ?thesis using slot_unat [OF assms(4)] by (intro get32_page) auto
qed

lemma slot_nonzero:
  assumes "kfree_ok e t" and "KERNLINK \<le> e" and "x < 1024"
  shows "t + 4 * x \<noteq> 0"
proof -
  have "unat (t + 4 * x) = unat t + unat (4 * x)"
    using page_offset_unat [of t "4 * x"] assms slot_unat [OF assms(3)] by auto
  moreover have "0 < unat t" using kfree_ok_nonzero [OF assms(1,2)] by (simp add: unat_gt_0)
  ultimately show ?thesis by (metis add_gr_0 less_irrefl unat_0)
qed

lemma page_aligned_mask: "page_aligned p \<longleftrightarrow> p AND 0xFFF = 0"
proof -
  have "p mod PGSIZE = take_bit 12 p" by (simp add: PGSIZE_def take_bit_eq_mod)
  also have "\<dots> = p AND 0xFFF" by (simp add: take_bit_eq_mask mask_eq_exp_minus_1)
  finally show ?thesis by (simp add: page_aligned_def)
qed

lemma PTE_ADDR_or:
  assumes "page_aligned x" and "f AND NOT 0xFFF = 0"
  shows "PTE_ADDR (x OR f) = x" "PTE_FLAGS (x OR f) = f"
proof -
  have x: "x AND 0xFFF = 0" using assms(1) by (simp add: page_aligned_mask)
  have split: "a = (a AND m) OR (a AND NOT m)" for a m :: u32 by (simp flip: bit.conj_disj_distrib)
  have *: "f AND 0xFFF = f" using split [of f "0xFFF"] assms(2) by simp
  have **: "x AND NOT 0xFFF = x" using split [of x "0xFFF"] x by simp
  show "PTE_ADDR (x OR f) = x" unfolding PTE_ADDR_def bit.conj_disj_distrib2 using assms(2) ** by simp
  show "PTE_FLAGS (x OR f) = f" unfolding PTE_FLAGS_def bit.conj_disj_distrib2 using * x by simp
qed

lemma kernel_page:
  assumes "kfree_ok e t" and "KERNLINK \<le> e"
  shows "P2V (V2P t) = t" "page_aligned (V2P t)"
proof -
  show "P2V (V2P t) = t" by (simp add: P2V_def V2P_def)
  have "KERNBASE \<le> t" using assms
    by (auto simp: kfree_ok_def KERNLINK_def KERNBASE_def EXTMEM_def word_le_nat_alt word_less_nat_alt)
  then have u: "unat (V2P t) = unat t - 2147483648" by (simp add: V2P_def KERNBASE_def unat_sub)
  have "page_aligned t" using assms(1) by simp
  then obtain k where "unat t = 4096 * k" unfolding page_aligned_unat by auto
  then have "unat (V2P t) = 4096 * (k - 524288)" using u by (simp add: diff_mult_distrib2)
  then show "page_aligned (V2P t)" unfolding page_aligned_unat by simp
qed

section \<open>A page directory and its tables\<close>

definition pde_present :: "memory \<Rightarrow> u32 \<Rightarrow> u32 \<Rightarrow> bool" where
  "pde_present m d i \<longleftrightarrow> get32 m (d + 4 * i) AND PTE_P \<noteq> 0"

definition pde_table :: "memory \<Rightarrow> u32 \<Rightarrow> u32 \<Rightarrow> u32" where
  "pde_table m d i = P2V (PTE_ADDR (get32 m (d + 4 * i)))"

definition pde_used :: "memory \<Rightarrow> u32 \<Rightarrow> u32 set" where
  "pde_used m d = {i. i < 1024 \<and> pde_present m d i}"

definition pt_tables :: "memory \<Rightarrow> u32 \<Rightarrow> u32 set" where
  "pt_tables m d = pde_table m d ` pde_used m d"

text \<open>The entry of the page of \<open>va\<close>, if it is mapped.\<close>

definition pt_entry :: "memory \<Rightarrow> u32 \<Rightarrow> u32 \<Rightarrow> u32 option" where
  "pt_entry m d va =
     (let e = get32 m (pde_table m d (PDX va) + 4 * PTX va) in
      if pde_present m d (PDX va) \<and> e AND PTE_P \<noteq> 0 then Some e else None)"

text \<open>The directory and its tables are different pages from \<open>kalloc\<close>, none of them on the free list \<open>ps\<close>.\<close>

definition pt_wf :: "u32 list \<Rightarrow> u32 \<Rightarrow> 'a kmem_scheme \<Rightarrow> bool" where
  "pt_wf ps d s \<longleftrightarrow> kalloc_inv ps s \<and> kmem_unlocked s \<and> kfree_ok (kend s) d \<and> d \<notin> set ps \<and>
     (\<forall>t \<in> pt_tables (mem s) d. kfree_ok (kend s) t \<and> t \<notin> set ps \<and> t \<noteq> d) \<and>
     inj_on (pde_table (mem s) d) (pde_used (mem s) d)"

text \<open>From \<open>s\<close> to \<open>s'\<close> the pages \<open>qs\<close> became tables of \<open>d\<close>, and only they, \<open>d\<close> and its tables were written.\<close>

definition pt_grows :: "u32 list \<Rightarrow> u32 \<Rightarrow> 'a kmem_scheme \<Rightarrow> 'a kmem_scheme \<Rightarrow> bool" where
  "pt_grows qs d s s' \<longleftrightarrow> (\<exists>m f. s' = s\<lparr>mem := m, freelist := f\<rparr>) \<and>
     pt_tables (mem s') d = pt_tables (mem s) d \<union> set qs \<and>
     (\<forall>q. page_aligned q \<longrightarrow> q \<notin> insert d (pt_tables (mem s') d) \<longrightarrow> same_page q (mem s) (mem s'))"

lemma pt_grows_refl [simp]: "pt_grows [] d s s"
  unfolding pt_grows_def by (intro conjI exI [of _ "mem s"] exI [of _ "freelist s"]) simp_all

lemma pt_grows_trans:
  assumes "pt_grows qs d s s1" and "pt_grows rs d s1 s2"
  shows "pt_grows (qs @ rs) d s s2"
proof -
  from assms obtain m f m2 f2 where "s1 = s\<lparr>mem := m, freelist := f\<rparr>" "s2 = s1\<lparr>mem := m2, freelist := f2\<rparr>"
    unfolding pt_grows_def by blast
  then have "s2 = s\<lparr>mem := m2, freelist := f2\<rparr>" by simp
  then have "\<exists>m f. s2 = s\<lparr>mem := m, freelist := f\<rparr>" by blast
  moreover have "same_page q (mem s) (mem s2)" if "page_aligned q" "q \<notin> insert d (pt_tables (mem s2) d)" for q
    using assms that unfolding pt_grows_def by (intro same_page_trans [of q "mem s" "mem s1" "mem s2"]) auto
  ultimately show ?thesis using assms unfolding pt_grows_def by auto
qed

lemma pt_grows_fields: "pt_grows qs d s s' \<Longrightarrow> kend s' = kend s \<and> klk s' = klk s \<and> kdata s' = kdata s"
  by (auto simp: pt_grows_def)

lemma PDX_less: "PDX va < 1024" and PTX_less: "PTX va < 1024"
  unfolding PDX_def PTX_def by (rule le_less_trans [OF word_and_le1], simp)+

lemma slot_fits: "unat (4 * PTX va) + 4 \<le> 4096" "unat (4 * PDX va) + 4 \<le> 4096"
  using slot_unat [OF PTX_less [of va]] slot_unat [OF PDX_less [of va]] by simp_all

lemma pte_at_present: "pde_present m d (PDX va) \<Longrightarrow> pte_at m d va = pde_table m d (PDX va) + 4 * PTX va"
  by (simp add: pte_at_def pde_present_def pde_table_def)

lemma pt_wf_table:
  assumes "pt_wf ps d s" and "pde_present (mem s) d i" and "i < 1024"
  shows "kfree_ok (kend s) (pde_table (mem s) d i)" "pde_table (mem s) d i \<notin> set ps" "pde_table (mem s) d i \<noteq> d"
    "pde_table (mem s) d i \<in> pt_tables (mem s) d"
proof -
  show "pde_table (mem s) d i \<in> pt_tables (mem s) d" using assms(2,3) by (auto simp: pt_tables_def pde_used_def)
  then show "kfree_ok (kend s) (pde_table (mem s) d i)" "pde_table (mem s) d i \<notin> set ps" "pde_table (mem s) d i \<noteq> d"
    using assms(1) by (auto simp: pt_wf_def)
qed

text \<open>A new, empty table.\<close>

definition add_table :: "memory \<Rightarrow> u32 \<Rightarrow> u32 \<Rightarrow> u32 \<Rightarrow> memory" where
  "add_table m d i p = put32 (memset m p 0 PGSIZE) (d + 4 * i) (V2P p OR PTE_P OR PTE_W OR PTE_U)"

lemma add_table_same:
  assumes "page_aligned d" "page_aligned p" "page_aligned q" "q \<noteq> d" "q \<noteq> p" "i < 1024"
  shows "same_page q m (add_table m d i p)"
proof -
  have "same_page q (memset m p 0 PGSIZE) (add_table m d i p)"
    unfolding add_table_def using assms slot_unat [OF assms(6)] by (intro same_page_put32) auto
  with same_page_memset [OF assms(3,2,5)] show ?thesis by (rule same_page_trans)
qed

lemma get32_memset0: "unat o1 + 4 \<le> 4096 \<Longrightarrow> get32 (memset m p 0 PGSIZE) (p + o1) = 0"
proof -
  assume o1: "unat o1 + 4 \<le> 4096"
  have "memset m p 0 PGSIZE (p + o1 + of_nat k) = 0" if "k < 4" for k
    using that o1 unat_plus_nat [of o1 k] by (simp add: memset_fills algebra_simps)
  from this [of 0] this [of 1] this [of 2] this [of 3] show ?thesis by (simp add: get32_def le32_def)
qed

lemma add_table_pde:
  assumes "page_aligned d" "kfree_ok e p" "KERNLINK \<le> e" "d \<noteq> p" "i < 1024" "j < 1024"
  shows "pde_present (add_table m d i p) d j \<longleftrightarrow> j = i \<or> pde_present m d j"
    and "pde_table (add_table m d i p) d j = (if j = i then p else pde_table m d j)"
proof -
  have p: "page_aligned p" using assms(2) by simp
  have other: "get32 (add_table m d i p) (d + 4 * j) = get32 m (d + 4 * j)" if "j \<noteq> i"
  proof -
    have "get32 (add_table m d i p) (d + 4 * j) = get32 (memset m p 0 PGSIZE) (d + 4 * j)"
      unfolding add_table_def using assms that by (intro get32_put32_slot) auto
    also have "\<dots> = get32 m (d + 4 * j)"
      using same_page_memset [OF assms(1) p assms(4)] slot_unat [OF assms(6)] by (intro get32_page) auto
    finally show ?thesis .
  qed
  have f: "(PTE_P OR PTE_W OR PTE_U) AND NOT 0xFFF = 0" by (simp add: PTE_P_def PTE_W_def PTE_U_def)
  have "pde_present (add_table m d i p) d i"
    unfolding pde_present_def add_table_def by (simp add: PTE_P_def bit.conj_disj_distrib2 or_eq_0_iff)
  moreover have "pde_table (add_table m d i p) d i = p"
    unfolding pde_table_def add_table_def
    using PTE_ADDR_or(1) [OF kernel_page(2) [OF assms(2,3)] f] kernel_page(1) [OF assms(2,3)] by simp
  ultimately show "pde_present (add_table m d i p) d j \<longleftrightarrow> j = i \<or> pde_present m d j"
    and "pde_table (add_table m d i p) d j = (if j = i then p else pde_table m d j)"
    using other by (cases "j = i"; simp add: pde_present_def pde_table_def)+
qed

lemma add_table_wf:
  assumes W: "pt_wf (p # ps) d s" and i: "i < 1024" and "\<not> pde_present (mem s) d i"
  defines "s' \<equiv> s\<lparr>mem := add_table (mem s) d i p, freelist := get32 (mem s) p\<rparr>"
  shows "pt_wf ps d s'" "pt_grows [p] d s s'" "pt_entry (mem s') d va = pt_entry (mem s) d va"
    "pde_present (mem s') d i" "pde_table (mem s') d i = p"
proof -
  let ?m = "add_table (mem s) d i p"
  have K: "kalloc_inv (p # ps) s" and d: "kfree_ok (kend s) d" "d \<notin> set ps" "d \<noteq> p"
    using W by (auto simp: pt_wf_def)
  have p: "kfree_ok (kend s) p" "KERNLINK \<le> kend s" using K by (auto simp: kalloc_inv_def)
  have al: "page_aligned d" "page_aligned p" using d p by simp_all
  note pde = add_table_pde [OF al(1) p d(3) i, of _ "mem s"]
  have used: "pde_used ?m d = insert i (pde_used (mem s) d)"
    using pde(1) i by (auto simp: pde_used_def)
  have i': "i \<notin> pde_used (mem s) d" using assms(3) by (simp add: pde_used_def)
  have tab: "pde_table ?m d j = pde_table (mem s) d j" if "j \<in> pde_used (mem s) d" for j
  proof -
    have "j \<noteq> i" "j < 1024" using that i' by (auto simp: pde_used_def)
    then show ?thesis using pde(2) [of j] by simp
  qed
  have pi: "pde_table ?m d i = p" using pde(2) [OF i] by simp
  have "pde_table ?m d ` pde_used (mem s) d = pde_table (mem s) d ` pde_used (mem s) d"
    by (intro image_cong refl tab)
  then have tabs: "pt_tables ?m d = insert p (pt_tables (mem s) d)"
    by (simp add: pt_tables_def used pi)
  have tw: "kfree_ok (kend s) t" "t \<notin> set (p # ps)" "t \<noteq> d" if "t \<in> pt_tables (mem s) d" for t
    using W that by (auto simp: pt_wf_def)
  have same: "same_page q (mem s) ?m" if "page_aligned q" "q \<noteq> d" "q \<noteq> p" for q
    using add_table_same [OF al that i] .
  have fp: "free_pages ?m (get32 (mem s) p) ps"
  proof (rule free_pages_same [of "mem s"])
    show "free_pages (mem s) (get32 (mem s) p) ps" using K by (auto simp: kalloc_inv_def)
    fix q assume q: "q \<in> set ps"
    then have "kfree_ok (kend s) q" "q \<noteq> p" "q \<noteq> d" using K d(2) by (auto simp: kalloc_inv_def)
    then show "same_page q (mem s) ?m" by (intro same) auto
  qed
  have inj: "inj_on (pde_table ?m d) (pde_used ?m d)"
  proof -
    have "inj_on (pde_table ?m d) (pde_used (mem s) d)"
      using W tab inj_on_cong [of "pde_used (mem s) d" "pde_table ?m d" "pde_table (mem s) d"] by (simp add: pt_wf_def)
    moreover have "p \<notin> pde_table ?m d ` pde_used (mem s) d"
      using tw(2) tab by (auto simp: pt_tables_def)
    ultimately show ?thesis unfolding used by (simp add: pi i')
  qed
  show "pt_wf ps d s'"
    using W K p d fp tabs tw inj unfolding pt_wf_def s'_def
    by (auto simp: kalloc_inv_def kmem_unlocked_def)
  show "pt_grows [p] d s s'"
    unfolding pt_grows_def s'_def using tabs same by auto
  show "pde_present (mem s') d i" "pde_table (mem s') d i = p" unfolding s'_def using pde [OF i] by simp_all
  show "pt_entry (mem s') d va = pt_entry (mem s) d va"
  proof (cases "PDX va = i")
    case True
    have "get32 ?m (p + 4 * PTX va) = get32 (memset (mem s) p 0 PGSIZE) (p + 4 * PTX va)"
      unfolding add_table_def using al d i PTX_less by (intro get32_put32_page) auto
    also have "\<dots> = 0" by (intro get32_memset0 slot_fits)
    finally show ?thesis using True pde [OF i] assms(3) by (simp add: pt_entry_def s'_def)
  next
    case False
    note P = pde [OF PDX_less [of va]]
    show ?thesis
    proof (cases "pde_present (mem s) d (PDX va)")
      case True
      let ?t = "pde_table (mem s) d (PDX va)"
      note T = pt_wf_table [OF W True PDX_less]
      have "get32 ?m (?t + 4 * PTX va) = get32 (mem s) (?t + 4 * PTX va)"
        using T by (intro get32_page same slot_fits) auto
      then show ?thesis using P False True by (simp add: pt_entry_def s'_def)
    qed (use P False in \<open>simp add: pt_entry_def s'_def\<close>)
  qed
qed

lemma walkpgdir_alloc:
  assumes W: "pt_wf ps d s"
  obtains (full) "ps = []" "walkpgdir d va True s = Inr (0, s)"
  | (found) qs ps' s' where "ps = qs @ ps'" "walkpgdir d va True s = Inr (pde_table (mem s') d (PDX va) + 4 * PTX va, s')"
      "pde_present (mem s') d (PDX va)" "pt_wf ps' d s'" "pt_grows qs d s s'"
      "\<And>v. pt_entry (mem s') d v = pt_entry (mem s) d v"
proof (cases "pde_present (mem s) d (PDX va)")
  case True
  then have "walkpgdir d va True s = Inr (pde_table (mem s) d (PDX va) + 4 * PTX va, s)"
    by (simp add: walkpgdir_def pde_present_def [symmetric] pte_at_present)
  then show ?thesis using found [of "[]" ps s] True W by simp
next
  case False
  have K: "kalloc_inv ps s" "kmem_unlocked s" using W by (auto simp: pt_wf_def)
  show ?thesis
  proof (cases ps)
    case Nil
    have "walkpgdir d va True s = Inr (0, s)"
      using False kalloc_nil [OF K(1) [unfolded Nil] K(2)] by (simp add: walkpgdir_def pde_present_def)
    then show ?thesis using full Nil by simp
  next
    case (Cons p qs)
    note A = add_table_wf [OF W [unfolded Cons] PDX_less False]
    let ?s = "s\<lparr>mem := add_table (mem s) d (PDX va) p, freelist := get32 (mem s) p\<rparr>"
    have "walkpgdir d va True s = Inr (p + 4 * PTX va, ?s)"
      using False kalloc_cons [OF K(1) [unfolded Cons] K(2)]
      by (auto simp: walkpgdir_def pde_present_def [symmetric] Let_def add_table_def)
    then show ?thesis using found [of "[p]" qs ?s] A Cons by simp
  qed
qed

section \<open>Virtual pages\<close>

definition vpn :: "u32 \<Rightarrow> nat" where
  "vpn va = unat va div 4096"

lemma PDX_unat: "unat (PDX va) = unat va div 4194304"
proof -
  have "PDX va = take_bit 10 (drop_bit 22 va)"
    by (simp add: PDX_def take_bit_eq_mask mask_eq_exp_minus_1)
  then have "unat (PDX va) = (unat va div 4194304) mod 1024"
    by (simp add: take_bit_eq_mod drop_bit_eq_div unat_mod_distrib unat_div_distrib)
  moreover have "unat va div 4194304 < 1024" using unsigned_less [where ?'a = nat, of va] by auto
  ultimately show ?thesis by simp
qed

lemma PTX_unat: "unat (PTX va) = vpn va mod 1024"
proof -
  have "PTX va = take_bit 10 (drop_bit 12 va)"
    by (simp add: PTX_def take_bit_eq_mask mask_eq_exp_minus_1)
  then show ?thesis
    by (simp add: take_bit_eq_mod drop_bit_eq_div unat_mod_distrib unat_div_distrib vpn_def)
qed

lemma same_vpage: "PDX v = PDX w \<and> PTX v = PTX w \<longleftrightarrow> vpn v = vpn w"
proof -
  have d: "unat x div 4194304 = vpn x div 1024" for x by (simp add: vpn_def div_mult2_eq [symmetric])
  have "PDX v = PDX w \<and> PTX v = PTX w \<longleftrightarrow> vpn v div 1024 = vpn w div 1024 \<and> vpn v mod 1024 = vpn w mod 1024"
    by (simp add: word_unat_eq_iff PDX_unat PTX_unat d)
  also have "\<dots> \<longleftrightarrow> vpn v = vpn w" by (metis div_mult_mod_eq)
  finally show ?thesis .
qed

lemma pt_entry_vpn: "vpn v = vpn w \<Longrightarrow> pt_entry m d v = pt_entry m d w"
  using same_vpage [of v w] by (simp add: pt_entry_def)

lemma vpn_next: "vpn a + 1 < 1048576 \<Longrightarrow> vpn (a + PGSIZE) = Suc (vpn a)"
proof -
  assume "vpn a + 1 < 1048576"
  then have "unat a + 4096 < 2 ^ 32" by (simp add: vpn_def)
  then show ?thesis using unat_plus_nat [of a 4096] by (simp add: vpn_def PGSIZE_def)
qed

section \<open>Mapping pages\<close>

lemma set_entry_wf:
  assumes W: "pt_wf ps d s" and P: "pde_present (mem s) d (PDX va)" and e: "e AND PTE_P \<noteq> 0"
  defines "s' \<equiv> s\<lparr>mem := put32 (mem s) (pde_table (mem s) d (PDX va) + 4 * PTX va) e\<rparr>"
  shows "pt_wf ps d s'" "pt_grows [] d s s'"
    "pt_entry (mem s') d v = (if vpn v = vpn va then Some e else pt_entry (mem s) d v)"
proof -
  let ?t = "pde_table (mem s) d (PDX va)" and ?m = "mem s'"
  note T = pt_wf_table [OF W P PDX_less]
  have al: "page_aligned d" "page_aligned ?t" using W T by (auto simp: pt_wf_def)
  have pde: "get32 ?m (d + 4 * j) = get32 (mem s) (d + 4 * j)" if "j < 1024" for j
    unfolding s'_def using al T(3) that PTX_less by (auto intro!: get32_put32_page)
  have used: "pde_used ?m d = pde_used (mem s) d" using pde by (auto simp: pde_used_def pde_present_def)
  have tab: "pde_table ?m d j = pde_table (mem s) d j" if "j < 1024" for j using pde [OF that] by (simp add: pde_table_def)
  have "pde_table ?m d ` pde_used (mem s) d = pde_table (mem s) d ` pde_used (mem s) d"
    by (intro image_cong refl tab) (simp add: pde_used_def)
  then have tabs: "pt_tables ?m d = pt_tables (mem s) d" by (simp add: pt_tables_def used)
  have inj: "inj_on (pde_table ?m d) (pde_used ?m d)"
    using W inj_on_cong [of "pde_used (mem s) d" "pde_table ?m d" "pde_table (mem s) d"] tab
    by (simp add: pt_wf_def used) (simp add: pde_used_def)
  have same: "same_page q (mem s) ?m" if "page_aligned q" "q \<noteq> ?t" for q
    unfolding s'_def using that al slot_fits by (simp add: same_page_put32)
  have fp: "free_pages ?m (freelist s) ps"
  proof (rule free_pages_same [of "mem s"])
    show "free_pages (mem s) (freelist s) ps" using W by (auto simp: pt_wf_def kalloc_inv_def)
    fix q assume "q \<in> set ps"
    then have "page_aligned q" "q \<noteq> ?t" using W T(2) by (auto simp: pt_wf_def kalloc_inv_def)
    then show "same_page q (mem s) ?m" by (rule same)
  qed
  have s: "freelist s' = freelist s" "kend s' = kend s" "klk s' = klk s" by (simp_all add: s'_def)
  show "pt_wf ps d s'"
    using W fp tabs inj unfolding pt_wf_def kalloc_inv_def kmem_unlocked_def s by simp
  show "pt_grows [] d s s'" unfolding pt_grows_def
  proof (intro conjI)
    show "\<exists>m f. s' = s\<lparr>mem := m, freelist := f\<rparr>" unfolding s'_def
      by (intro exI [of _ "put32 (mem s) (?t + 4 * PTX va) e"] exI [of _ "freelist s"]) simp
  qed (use tabs same T(4) in auto)
  show "pt_entry (mem s') d v = (if vpn v = vpn va then Some e else pt_entry (mem s) d v)"
  proof (cases "vpn v = vpn va")
    case True
    have "pt_entry ?m d v = pt_entry ?m d va" using True by (rule pt_entry_vpn)
    also have "\<dots> = Some e"
      using P e pde [OF PDX_less [of va]] tab [OF PDX_less [of va]]
      by (simp add: pt_entry_def pde_present_def) (simp add: s'_def)
    finally show ?thesis using True by simp
  next
    case False
    show ?thesis
    proof (cases "pde_present (mem s) d (PDX v)")
      case Pv: True
      let ?u = "pde_table (mem s) d (PDX v)"
      have u: "page_aligned ?u" using pt_wf_table(1) [OF W Pv PDX_less] by simp
      have "?u \<noteq> ?t \<or> PTX v \<noteq> PTX va"
      proof (cases "PDX v = PDX va")
        case True
        with False same_vpage [of v va] show ?thesis by simp
      next
        case ne: False
        have "inj_on (pde_table (mem s) d) (pde_used (mem s) d)" using W by (simp add: pt_wf_def)
        with ne P Pv PDX_less show ?thesis by (auto simp: inj_on_def pde_used_def)
      qed
      then have "get32 ?m (?u + 4 * PTX v) = get32 (mem s) (?u + 4 * PTX v)"
        unfolding s'_def using al u PTX_less by (auto intro!: get32_put32_page)
      then show ?thesis using False pde [OF PDX_less [of v]] tab [OF PDX_less [of v]]
        by (simp add: pt_entry_def pde_present_def)
    qed (use False pde [OF PDX_less [of v]] in \<open>simp add: pt_entry_def pde_present_def\<close>)
  qed
qed

text \<open>The entry that maps the page of \<open>v\<close> when the page of \<open>a\<close> is mapped to \<open>pa\<close> and the next ones follow.\<close>

definition mapped_to :: "u32 \<Rightarrow> u32 \<Rightarrow> u32 \<Rightarrow> u32 \<Rightarrow> u32" where
  "mapped_to a pa perm v = (pa + of_nat (vpn v - vpn a) * PGSIZE) OR perm OR PTE_P"

definition vrange :: "u32 \<Rightarrow> nat \<Rightarrow> u32 set" where
  "vrange a n = {v. vpn a \<le> vpn v \<and> vpn v \<le> vpn a + n}"

lemma PTE_P_set: "(x OR y OR PTE_P) AND PTE_P \<noteq> 0"
  by (simp add: PTE_P_def bit.conj_disj_distrib2 or_eq_0_iff)

lemma vrange_Suc:
  assumes "vpn a + Suc n < 1048576"
  shows "v \<in> vrange a (Suc n) \<longleftrightarrow> vpn v = vpn a \<or> v \<in> vrange (a + PGSIZE) n"
  using vpn_next [of a] assms by (auto simp: vrange_def)

lemma mapped_to_next:
  assumes "vpn a + Suc n < 1048576" and "v \<in> vrange (a + PGSIZE) n"
  shows "mapped_to (a + PGSIZE) (pa + PGSIZE) perm v = mapped_to a pa perm v"
proof -
  have "vpn v - vpn a = Suc (vpn v - Suc (vpn a))" using assms vpn_next [of a] by (auto simp: vrange_def)
  then have "of_nat (vpn v - vpn a) * PGSIZE = PGSIZE + of_nat (vpn v - Suc (vpn a)) * PGSIZE"
    by (simp add: algebra_simps)
  then show ?thesis using vpn_next [of a] assms(1) by (simp add: mapped_to_def add.assoc)
qed

text \<open>What a call of \<open>mappages\<close> on a range of pages has done.\<close>

definition maps :: "u32 list \<Rightarrow> u32 \<Rightarrow> u32 \<Rightarrow> nat \<Rightarrow> u32 \<Rightarrow> u32 \<Rightarrow> 'a kmem_scheme \<Rightarrow> (int, 'a kmem_scheme) kresult \<Rightarrow> bool" where
  "maps ps d a n pa perm s x \<longleftrightarrow> (\<exists>r qs ps' s'. x = Inr (r, s') \<and> ps = qs @ ps' \<and> pt_wf ps' d s' \<and> pt_grows qs d s s' \<and>
     (\<forall>v. v \<notin> vrange a n \<longrightarrow> pt_entry (mem s') d v = pt_entry (mem s) d v) \<and>
     (r = 0 \<and> (\<forall>v \<in> vrange a n. pt_entry (mem s') d v = Some (mapped_to a pa perm v)) \<or> r = -1 \<and> ps' = []))"

lemma mapsI:
  assumes "x = Inr (r, s')" "ps = qs @ ps'" "pt_wf ps' d s'" "pt_grows qs d s s'"
    "\<And>v. v \<notin> vrange a n \<Longrightarrow> pt_entry (mem s') d v = pt_entry (mem s) d v"
    "r = 0 \<and> (\<forall>v \<in> vrange a n. pt_entry (mem s') d v = Some (mapped_to a pa perm v)) \<or> r = -1 \<and> ps' = []"
  shows "maps ps d a n pa perm s x"
  unfolding maps_def using assms by blast

lemma mappages_step:
  assumes W: "pt_wf ps d s" and N: "pt_entry (mem s) d a = None"
  obtains (full) "ps = []" "mappages_loop d a n pa perm s = Inr (-1, s)"
  | (more) qs ps' s1 where "ps = qs @ ps'" "pt_wf ps' d s1" "pt_grows qs d s s1"
      "\<And>v. pt_entry (mem s1) d v = (if vpn v = vpn a then Some (pa OR perm OR PTE_P) else pt_entry (mem s) d v)"
      "mappages_loop d a n pa perm s =
         (case n of 0 \<Rightarrow> Inr (0, s1) | Suc n \<Rightarrow> mappages_loop d (a + PGSIZE) n (pa + PGSIZE) perm s1)"
proof (cases rule: walkpgdir_alloc [OF W, of a, case_names full found])
  case full
  with that(1) show ?thesis by (simp add: mappages_loop.simps [of d a])
next
  case (found qs ps' s')
  let ?pte = "pde_table (mem s') d (PDX a) + 4 * PTX a" and ?e = "pa OR perm OR PTE_P"
  let ?s = "s'\<lparr>mem := put32 (mem s') ?pte ?e\<rparr>"
  note S = set_entry_wf [OF found(4,3) PTE_P_set [of pa perm]]
  have "KERNLINK \<le> kend s'" using found(4) by (simp add: pt_wf_def kalloc_inv_def)
  then have "?pte \<noteq> 0" using pt_wf_table(1) [OF found(4,3) PDX_less] PTX_less by (intro slot_nonzero)
  moreover have "get32 (mem s') ?pte AND PTE_P = 0"
    using found(3) found(6) [of a] N by (auto simp: pt_entry_def Let_def split: if_splits)
  ultimately have "mappages_loop d a n pa perm s =
      (case n of 0 \<Rightarrow> Inr (0, ?s) | Suc n \<Rightarrow> mappages_loop d (a + PGSIZE) n (pa + PGSIZE) perm ?s)"
    using found(2) by (subst mappages_loop.simps) (simp add: Let_def)
  moreover have "pt_grows qs d s ?s" using pt_grows_trans [OF found(5) S(2)] by simp
  ultimately show ?thesis using that(2) [of qs ps' ?s] found(1,6) S by simp
qed

lemma mappages_loop_maps:
  "pt_wf ps d s \<Longrightarrow> \<forall>v \<in> vrange a n. pt_entry (mem s) d v = None \<Longrightarrow> vpn a + n < 1048576 \<Longrightarrow>
   maps ps d a n pa perm s (mappages_loop d a n pa perm s)"
proof (induction n arbitrary: a pa ps s)
  case 0
  have N: "pt_entry (mem s) d a = None" using 0(2) by (simp add: vrange_def)
  show ?case
  proof (cases rule: mappages_step [OF 0(1) N, where n = 0 and pa = pa and perm = perm, case_names full more])
    case full
    then show ?thesis using 0(1) by (intro mapsI [of _ "-1" s ps "[]" ps]) auto
  next
    case (more qs ps' s1)
    then show ?thesis by (intro mapsI [of _ 0 s1 ps qs ps']) (auto simp: vrange_def mapped_to_def)
  qed
next
  case (Suc n)
  have N: "pt_entry (mem s) d a = None" using Suc.prems(2) by (simp add: vrange_def)
  show ?case
  proof (cases rule: mappages_step [OF Suc.prems(1) N, where n = "Suc n" and pa = pa and perm = perm, case_names full more])
    case full
    then show ?thesis using Suc.prems(1) by (intro mapsI [of _ "-1" s ps "[]" ps]) auto
  next
    case (more qs ps' s1)
    note R = vrange_Suc [OF Suc.prems(3)]
    have "\<forall>v \<in> vrange (a + PGSIZE) n. pt_entry (mem s1) d v = None"
      using more(4) Suc.prems(2,3) R vpn_next [of a] by (auto simp: vrange_def)
    with Suc.IH [OF more(2)] Suc.prems(3) vpn_next [of a]
    have "maps ps' d (a + PGSIZE) n (pa + PGSIZE) perm s1 (mappages_loop d (a + PGSIZE) n (pa + PGSIZE) perm s1)" by simp
    then obtain r qs2 ps2 s2 where
      L: "mappages_loop d (a + PGSIZE) n (pa + PGSIZE) perm s1 = Inr (r, s2)" "ps' = qs2 @ ps2" "pt_wf ps2 d s2"
        "pt_grows qs2 d s1 s2" "\<And>v. v \<notin> vrange (a + PGSIZE) n \<Longrightarrow> pt_entry (mem s2) d v = pt_entry (mem s1) d v"
        "r = 0 \<and> (\<forall>v \<in> vrange (a + PGSIZE) n. pt_entry (mem s2) d v = Some (mapped_to (a + PGSIZE) (pa + PGSIZE) perm v))
          \<or> r = -1 \<and> ps2 = []" unfolding maps_def by blast
    have a: "v \<notin> vrange (a + PGSIZE) n" if "vpn v = vpn a" for v
      using that vpn_next [of a] Suc.prems(3) by (simp add: vrange_def)
    show ?thesis
    proof (intro mapsI [of _ r s2 ps "qs @ qs2" ps2])
      show "pt_entry (mem s2) d v = pt_entry (mem s) d v" if "v \<notin> vrange a (Suc n)" for v
        using that L(5) [of v] more(4) [of v] R by auto
      show "r = 0 \<and> (\<forall>v \<in> vrange a (Suc n). pt_entry (mem s2) d v = Some (mapped_to a pa perm v)) \<or> r = -1 \<and> ps2 = []"
        using L(5,6) more(4) R a mapped_to_next [OF Suc.prems(3)] by (auto simp: mapped_to_def)
    qed (use more L pt_grows_trans in auto)
  qed
qed

lemma vpn_round: "vpn (PGROUNDDOWN va) = vpn va" "unat (PGROUNDDOWN va) = 4096 * vpn va"
  using PGROUNDDOWN_unat [of va] by (auto simp: vpn_def)

definition last_page :: "u32 \<Rightarrow> u32 \<Rightarrow> nat" where
  "last_page va sz = vpn (va + sz - 1) - vpn va"

lemma range_end:
  fixes va sz :: u32
  assumes "0 < sz" and "unat va + unat sz \<le> 2 ^ 32"
  shows "unat (va + sz - 1) = unat va + unat sz - 1"
proof -
  have "unat (sz - 1) = unat sz - 1" using assms(1) by (simp add: unat_minus_one word_gt_0)
  moreover have "0 < unat sz" using assms(1) by (simp add: word_less_nat_alt)
  ultimately show ?thesis using unat_plus_nat [of va "unat (sz - 1)"] assms(2) by (simp add: add_diff_eq)
qed

lemma mappages_eq:
  assumes "0 < sz" and "unat va + unat sz \<le> 2 ^ 32"
  shows "mappages d va sz pa perm s = mappages_loop d (PGROUNDDOWN va) (last_page va sz) pa perm s"
    "vpn va + last_page va sz < 1048576" "vpn va + last_page va sz = (unat va + unat sz - 1) div 4096"
proof -
  note e = range_end [OF assms]
  have p: "0 < unat sz" using assms(1) by (simp add: word_less_nat_alt)
  have le: "vpn va \<le> vpn (va + sz - 1)" unfolding vpn_def e using p by (intro div_le_mono) linarith
  have "unat (PGROUNDDOWN (va + sz - 1) - PGROUNDDOWN va) = 4096 * vpn (va + sz - 1) - 4096 * vpn va"
    using le by (simp add: unat_sub word_le_nat_alt vpn_round(2))
  then have "unat ((PGROUNDDOWN (va + sz - 1) - PGROUNDDOWN va) div PGSIZE) = last_page va sz"
    by (simp add: unat_div_distrib last_page_def diff_mult_distrib2 [symmetric])
  then show "mappages d va sz pa perm s = mappages_loop d (PGROUNDDOWN va) (last_page va sz) pa perm s"
    by (simp add: mappages_def)
  show f: "vpn va + last_page va sz = (unat va + unat sz - 1) div 4096"
    using le e by (simp add: last_page_def) (simp add: vpn_def)
  show "vpn va + last_page va sz < 1048576" unfolding f using assms(2) p by (intro less_mult_imp_div_less) simp
qed

lemma maps_round: "maps ps d (PGROUNDDOWN a) n pa perm s x \<longleftrightarrow> maps ps d a n pa perm s x"
  by (simp add: maps_def vrange_def mapped_to_def vpn_round)

lemma mappages_maps_range:
  assumes "pt_wf ps d s" and "0 < sz" and "unat va + unat sz \<le> 2 ^ 32"
    and "\<forall>v \<in> vrange va (last_page va sz). pt_entry (mem s) d v = None"
  shows "maps ps d va (last_page va sz) pa perm s (mappages d va sz pa perm s)"
proof -
  note e = mappages_eq [OF assms(2,3)]
  have "maps ps d (PGROUNDDOWN va) (last_page va sz) pa perm s
      (mappages_loop d (PGROUNDDOWN va) (last_page va sz) pa perm s)"
    using assms(1,4) e(2) by (intro mappages_loop_maps) (auto simp: vrange_def vpn_round)
  then show ?thesis by (simp add: e(1) maps_round)
qed

text \<open>C13. \<open>mappages\<close> maps a range of virtual addresses: if no page of the range is mapped, it returns 0 and every page
  of the range has an entry for the corresponding page of physical memory with the given permissions, or it
  returns -1 and there is no free page left.  No other page changes its entry, the directory and its tables
  stay different pages that are not free, the only pages it takes are new tables, and no other page
  of memory is written.\<close>

theorem mappages_maps:
  assumes "pt_wf ps d s" and "0 < sz" and "unat va + unat sz \<le> 2 ^ 32"
    and "\<forall>v. unat va div 4096 \<le> unat v div 4096 \<and> unat v div 4096 \<le> (unat va + unat sz - 1) div 4096 \<longrightarrow>
      pt_entry (mem s) d v = None"
  shows "\<exists>r s' qs ps'. mappages d va sz pa perm s = Inr (r, s') \<and> ps = qs @ ps' \<and> pt_wf ps' d s' \<and>
    pt_tables (mem s') d = pt_tables (mem s) d \<union> set qs \<and>
    (\<forall>q. page_aligned q \<longrightarrow> q \<notin> insert d (pt_tables (mem s') d) \<longrightarrow> same_page q (mem s) (mem s')) \<and>
    (r = 0 \<or> r = -1 \<and> ps' = []) \<and>
    (\<forall>v. if unat va div 4096 \<le> unat v div 4096 \<and> unat v div 4096 \<le> (unat va + unat sz - 1) div 4096
         then r = 0 \<longrightarrow> pt_entry (mem s') d v =
           Some ((pa + of_nat (unat v div 4096 - unat va div 4096) * PGSIZE) OR perm OR PTE_P)
         else pt_entry (mem s') d v = pt_entry (mem s) d v)"
proof -
  have r: "v \<in> vrange va (last_page va sz) \<longleftrightarrow>
      unat va div 4096 \<le> unat v div 4096 \<and> unat v div 4096 \<le> (unat va + unat sz - 1) div 4096" for v
    using mappages_eq(3) [OF assms(2,3)] by (simp add: vrange_def vpn_def)
  have "maps ps d va (last_page va sz) pa perm s (mappages d va sz pa perm s)"
    using assms r by (intro mappages_maps_range) auto
  then obtain x qs ps' s' where m: "mappages d va sz pa perm s = Inr (x, s')" "ps = qs @ ps'" "pt_wf ps' d s'"
      "pt_grows qs d s s'" "\<forall>v. v \<notin> vrange va (last_page va sz) \<longrightarrow> pt_entry (mem s') d v = pt_entry (mem s) d v"
      "x = 0 \<and> (\<forall>v \<in> vrange va (last_page va sz). pt_entry (mem s') d v = Some (mapped_to va pa perm v)) \<or>
       x = -1 \<and> ps' = []" unfolding maps_def by blast
  have "if unat va div 4096 \<le> unat v div 4096 \<and> unat v div 4096 \<le> (unat va + unat sz - 1) div 4096
         then x = 0 \<longrightarrow> pt_entry (mem s') d v =
           Some ((pa + of_nat (unat v div 4096 - unat va div 4096) * PGSIZE) OR perm OR PTE_P)
         else pt_entry (mem s') d v = pt_entry (mem s) d v" for v
    unfolding r [symmetric] using m(5,6) by (auto simp: mapped_to_def vpn_def)
  moreover have "x = 0 \<or> x = -1 \<and> ps' = []" using m(6) by blast
  ultimately show ?thesis using m(1-4) unfolding pt_grows_def
    by (intro exI [of _ x] exI [of _ s'] exI [of _ qs] exI [of _ ps'] conjI) blast+
qed

text \<open>A state with an empty page directory and one free page.\<close>

definition one_dir :: kern where
  "one_dir = (kern_bss (\<lambda>_ _. 0))\<lparr>freelist := 0x80201000\<rparr>"

lemma one_dir_wf: "pt_wf [0x80201000] 0x80200000 one_dir"
  by (simp add: pt_wf_def one_dir_def kern_bss_def kalloc_inv_def kmem_unlocked_def kfree_ok_def get32_def le32_def
      PGSIZE_def V2P_def KERNBASE_def PHYSTOP_def KERNLINK_def EXTMEM_def pt_tables_def pde_used_def pde_present_def)

lemma one_dir_empty: "pt_entry (mem one_dir) d v = None"
  by (simp add: pt_entry_def pde_present_def one_dir_def kern_bss_def get32_def le32_def)

theorem mappages_maps_witness:
  "\<exists>r s' qs ps'. mappages 0x80200000 0 8192 0x300000 PTE_U one_dir = Inr (r, s') \<and> [0x80201000] = qs @ ps' \<and>
     pt_wf ps' 0x80200000 s' \<and> (r = 0 \<longrightarrow> pt_entry (mem s') 0x80200000 4196 = Some 0x301005)"
proof -
  have "0 < (8192 :: u32)" "unat (0 :: u32) + unat (8192 :: u32) \<le> 2 ^ 32" by simp_all
  from mappages_maps [OF one_dir_wf this, of "0x300000" PTE_U] obtain r s' qs ps' where
    m: "mappages 0x80200000 0 8192 0x300000 PTE_U one_dir = Inr (r, s')" "[0x80201000] = qs @ ps'"
      "pt_wf ps' 0x80200000 s'"
      "\<forall>v. if unat (0 :: u32) div 4096 \<le> unat v div 4096 \<and>
            unat v div 4096 \<le> (unat (0 :: u32) + unat (8192 :: u32) - 1) div 4096
         then r = 0 \<longrightarrow> pt_entry (mem s') 0x80200000 v =
           Some ((0x300000 + of_nat (unat v div 4096 - unat (0 :: u32) div 4096) * PGSIZE) OR PTE_U OR PTE_P)
         else pt_entry (mem s') 0x80200000 v = pt_entry (mem one_dir) 0x80200000 v"
    using one_dir_empty by auto
  from m(4) [rule_format, of 4196] have "r = 0 \<longrightarrow> pt_entry (mem s') 0x80200000 4196 = Some 0x301005"
    by (simp add: PGSIZE_def PTE_U_def PTE_P_def)
  with m(1-3) show ?thesis by blast
qed

end
