(* ===== verification/Vm_Fork.thy ===== *)
theory Vm_Fork
  imports Vm_Props
begin

text \<open>
  The address space that \<open>setupkvm\<close> builds for the kernel, with the free pages that its tables need.
\<close>

section \<open>Enough memory for the tables\<close>

lemma card_pt_tables: "card (pt_tables m d) \<le> 1024" "finite (pt_tables m d)"
proof -
  have "pde_used m d \<subseteq> of_nat ` {..<1024 :: nat}"
  proof
    fix i assume "i \<in> pde_used m d"
    then have "unat i < 1024" by (simp add: pde_used_def word_less_nat_alt)
    then show "i \<in> of_nat ` {..<1024 :: nat}" by (intro image_eqI [of _ _ "unat i"]) auto
  qed
  then have f: "finite (pde_used m d)" "card (pde_used m d) \<le> card (of_nat ` {..<1024 :: nat} :: u32 set)"
    by (auto intro: finite_subset card_mono)
  moreover have "card (of_nat ` {..<1024 :: nat} :: u32 set) \<le> 1024" using card_image_le [of "{..<1024 :: nat}"] by simp
  moreover have "card (pt_tables m d) \<le> card (pde_used m d)" unfolding pt_tables_def by (rule card_image_le [OF f(1)])
  ultimately show "card (pt_tables m d) \<le> 1024" by simp
  show "finite (pt_tables m d)" unfolding pt_tables_def using f(1) by simp
qed

lemma tables_le:
  assumes "set qs \<subseteq> pt_tables m d" and "distinct qs"
  shows "length qs \<le> 1024"
proof -
  have "length qs = card (set qs)" using assms(2) by (simp add: distinct_card)
  also have "\<dots> \<le> card (pt_tables m d)" using assms(1) card_pt_tables(2) by (rule card_mono [rotated])
  finally show ?thesis using card_pt_tables(1) [of m d] by simp
qed

text \<open>\<open>building ps0 d s0 qs ps s\<close>: starting in \<open>s0\<close> with the free pages \<open>ps0\<close>, the pages \<open>qs\<close> have been
  used up, \<open>ps\<close> are still free, and only pages among \<open>qs\<close> have been written.\<close>

definition building :: "u32 list \<Rightarrow> 'a kmem_scheme \<Rightarrow> u32 list \<Rightarrow> u32 list \<Rightarrow> 'a kmem_scheme \<Rightarrow> bool" where
  "building ps0 s0 qs ps s \<longleftrightarrow> ps0 = qs @ ps \<and> distinct ps0 \<and> (\<exists>m f. s = s0\<lparr>mem := m, freelist := f\<rparr>) \<and>
     (\<forall>q. page_aligned q \<longrightarrow> q \<notin> set qs \<longrightarrow> same_page q (mem s0) (mem s))"

lemma building_grow:
  assumes "building ps0 s0 qs ps s" and "ps = rs @ ps'" and "pt_grows rs d s s'"
    and "insert d (pt_tables (mem s) d) \<subseteq> set qs"
  shows "building ps0 s0 (qs @ rs) ps' s'"
proof -
  from assms(1,3) obtain m f m2 f2 where "s = s0\<lparr>mem := m, freelist := f\<rparr>" "s' = s\<lparr>mem := m2, freelist := f2\<rparr>"
    unfolding building_def pt_grows_def by blast
  then have "s' = s0\<lparr>mem := m2, freelist := f2\<rparr>" by simp
  then have "\<exists>m f. s' = s0\<lparr>mem := m, freelist := f\<rparr>" by blast
  moreover have "same_page q (mem s0) (mem s')" if "page_aligned q" "q \<notin> set (qs @ rs)" for q
  proof (rule same_page_trans)
    show "same_page q (mem s0) (mem s)" using assms(1) that by (simp add: building_def)
    have "q \<notin> insert d (pt_tables (mem s') d)" using assms(3,4) that(2) by (auto simp: pt_grows_def)
    with assms(3) that(1) show "same_page q (mem s) (mem s')" by (simp add: pt_grows_def)
  qed
  ultimately show ?thesis using assms(1,2) unfolding building_def by auto
qed

section \<open>The kernel's mappings\<close>

definition kmap_size :: "kmap \<Rightarrow> u32" where
  "kmap_size k = phys_end k - phys_start k"

definition kmap_ok :: "kmap \<Rightarrow> bool" where
  "kmap_ok k \<longleftrightarrow> 0 < kmap_size k \<and> unat (virt k) + unat (kmap_size k) \<le> 2 ^ 32"

definition kmap_pages :: "kmap \<Rightarrow> u32 set" where
  "kmap_pages k = vrange (virt k) (last_page (virt k) (kmap_size k))"

definition kmap_entry :: "kmap list \<Rightarrow> u32 \<Rightarrow> u32 option" where
  "kmap_entry ks v = map_option (\<lambda>k. mapped_to (virt k) (phys_start k) (kperm k) v) (find (\<lambda>k. v \<in> kmap_pages k) ks)"

fun kmaps_apart :: "kmap list \<Rightarrow> bool" where
  "kmaps_apart [] \<longleftrightarrow> True"
| "kmaps_apart (k # ks) \<longleftrightarrow> kmap_ok k \<and> (\<forall>j \<in> set ks. kmap_pages k \<inter> kmap_pages j = {}) \<and> kmaps_apart ks"

lemma setupkvm_loop_maps:
  "pt_wf ps d s \<Longrightarrow> building ps0 s0 qs ps s \<Longrightarrow> qs = d # ts \<Longrightarrow> pt_tables (mem s) d = set ts \<Longrightarrow> length ps0 > 1025 \<Longrightarrow>
   kmaps_apart ks \<Longrightarrow> \<forall>k \<in> set ks. \<forall>v \<in> kmap_pages k. pt_entry (mem s) d v = None \<Longrightarrow>
   \<exists>ts' ps' s'. setupkvm_loop d ks s = Inr (d, s') \<and> pt_wf ps' d s' \<and> building ps0 s0 (d # ts') ps' s' \<and>
     pt_tables (mem s') d = set ts' \<and>
     (\<forall>v. pt_entry (mem s') d v = (case kmap_entry ks v of None \<Rightarrow> pt_entry (mem s) d v | Some e \<Rightarrow> Some e))"
proof (induction ks arbitrary: s ps qs ts)
  case Nil
  then show ?case by (auto simp: kmap_entry_def)
next
  case (Cons k ks)
  have ok: "0 < kmap_size k" "unat (virt k) + unat (kmap_size k) \<le> 2 ^ 32" using Cons.prems(6) by (auto simp: kmap_ok_def)
  have "maps ps d (virt k) (last_page (virt k) (kmap_size k)) (phys_start k) (kperm k) s
      (mappages d (virt k) (kmap_size k) (phys_start k) (kperm k) s)"
    using Cons.prems(1,7) ok by (intro mappages_maps_range) (auto simp: kmap_pages_def)
  then obtain r rs ps1 s1 where m: "mappages d (virt k) (kmap_size k) (phys_start k) (kperm k) s = Inr (r, s1)"
      "ps = rs @ ps1" "pt_wf ps1 d s1" "pt_grows rs d s s1"
      "\<forall>v. v \<notin> kmap_pages k \<longrightarrow> pt_entry (mem s1) d v = pt_entry (mem s) d v"
      "r = 0 \<and> (\<forall>v \<in> kmap_pages k. pt_entry (mem s1) d v = Some (mapped_to (virt k) (phys_start k) (kperm k) v)) \<or>
       r = -1 \<and> ps1 = []" unfolding maps_def kmap_pages_def by blast
  have B: "building ps0 s0 (d # ts @ rs) ps1 s1"
    using building_grow [OF Cons.prems(2) m(2,4)] Cons.prems(3,4) by simp
  have T: "pt_tables (mem s1) d = set (ts @ rs)" using m(4) Cons.prems(4) by (simp add: pt_grows_def)
  have "distinct (ts @ rs)" "ps0 = d # (ts @ rs) @ ps1" using B by (auto simp: building_def)
  then have "ps1 \<noteq> []" using tables_le [of "ts @ rs" "mem s1" d] T Cons.prems(5) by auto
  with m(6) have r: "r = 0" and e: "\<forall>v \<in> kmap_pages k. pt_entry (mem s1) d v =
      Some (mapped_to (virt k) (phys_start k) (kperm k) v)" by auto
  have "\<forall>j \<in> set ks. \<forall>v \<in> kmap_pages j. pt_entry (mem s1) d v = None"
    using Cons.prems(6,7) m(5) by fastforce
  with Cons.IH [OF m(3) B refl T Cons.prems(5)] Cons.prems(6) obtain ts' ps' s' where
    L: "setupkvm_loop d ks s1 = Inr (d, s')" "pt_wf ps' d s'" "building ps0 s0 (d # ts') ps' s'"
      "pt_tables (mem s') d = set ts'"
      "\<forall>v. pt_entry (mem s') d v = (case kmap_entry ks v of None \<Rightarrow> pt_entry (mem s1) d v | Some e \<Rightarrow> Some e)" by auto
  have no: "kmap_entry ks v = None" if "v \<in> kmap_pages k" for v
    using that Cons.prems(6) by (auto simp: kmap_entry_def find_None_iff)
  have "pt_entry (mem s') d v = (case kmap_entry (k # ks) v of None \<Rightarrow> pt_entry (mem s) d v | Some e \<Rightarrow> Some e)" for v
    using L(5) no e m(5) by (cases "v \<in> kmap_pages k") (auto simp: kmap_entry_def split: option.split)
  then show ?case using m(1) r L(1-4) by (auto simp: kmap_size_def)
qed

text \<open>The kernel's own data starts on a page boundary, after its code and before the end of memory.\<close>

definition kdata_ok :: "'a kmem_scheme \<Rightarrow> bool" where
  "kdata_ok s \<longleftrightarrow> page_aligned (kdata s) \<and> KERNLINK < kdata s \<and> kdata s < P2V PHYSTOP"

text \<open>What the kernel part of every address space maps.\<close>

definition kernel_entry :: "u32 \<Rightarrow> u32 \<Rightarrow> u32 option" where
  "kernel_entry kd v =
     (if v < KERNBASE then None
      else if v < KERNLINK then Some (V2P (PGROUNDDOWN v) OR PTE_W OR PTE_P)
      else if v < kd then Some (V2P (PGROUNDDOWN v) OR PTE_P)
      else if v < P2V PHYSTOP then Some (V2P (PGROUNDDOWN v) OR PTE_W OR PTE_P)
      else if v < DEVSPACE then None
      else Some (PGROUNDDOWN v OR PTE_W OR PTE_P))"

lemma page_distance:
  assumes "page_aligned a" and "vpn a \<le> vpn v"
  shows "of_nat (vpn v - vpn a) * PGSIZE = PGROUNDDOWN v - a"
proof -
  have of: "x = of_nat n" if "unat x = n" for x :: u32 and n using that by auto
  have a: "a = of_nat (4096 * vpn a)" using assms(1) by (intro of) (auto simp: page_aligned_unat vpn_def)
  have "PGROUNDDOWN v = of_nat (4096 * vpn v)" using vpn_round(2) [of v] by (rule of)
  then have "PGROUNDDOWN v - a = of_nat (4096 * vpn v) - of_nat (4096 * vpn a)" using a by simp
  also have "\<dots> = of_nat (vpn v - vpn a) * 4096" using assms(2) by (simp add: of_nat_diff algebra_simps)
  finally show ?thesis by (simp add: PGSIZE_def)
qed

lemma kmap_pages_iff:
  assumes "kmap_ok k"
  shows "v \<in> kmap_pages k \<longleftrightarrow> vpn (virt k) \<le> vpn v \<and> vpn v \<le> (unat (virt k) + unat (kmap_size k) - 1) div 4096"
  using mappages_eq(3) [of "kmap_size k" "virt k"] assms by (simp add: kmap_pages_def vrange_def kmap_ok_def)

lemma less_aligned: "page_aligned a \<Longrightarrow> vpn v < vpn a \<longleftrightarrow> v < a"
proof -
  assume "page_aligned a"
  then obtain k where k: "unat a = k * 4096" by (auto simp: page_aligned_unat)
  have "unat v div 4096 < k \<longleftrightarrow> unat v < k * 4096" by (simp add: div_less_iff_less_mult)
  with k show ?thesis by (simp add: vpn_def word_less_nat_alt)
qed

lemma kmap_pages_between:
  assumes "kmap_ok k" and "page_aligned (virt k)" and "page_aligned b" and "unat b = unat (virt k) + unat (kmap_size k)"
  shows "v \<in> kmap_pages k \<longleftrightarrow> virt k \<le> v \<and> v < b"
proof -
  obtain j where j: "unat b = j * 4096" using assms(3) by (auto simp: page_aligned_unat)
  have "0 < unat b" using assms(1,4) by (simp add: kmap_ok_def word_less_nat_alt)
  with j obtain i where i: "j = Suc i" by (cases j) auto
  have "(unat b - 1) div 4096 = i" "vpn b = Suc i" using j i by (simp_all add: vpn_def)
  then have "vpn v \<le> (unat (virt k) + unat (kmap_size k) - 1) div 4096 \<longleftrightarrow> vpn v < vpn b"
    unfolding assms(4) [symmetric] by (simp add: less_Suc_eq_le)
  moreover have "vpn (virt k) \<le> vpn v \<longleftrightarrow> virt k \<le> v" using less_aligned [OF assms(2), of v] by (simp add: not_less [symmetric])
  ultimately show ?thesis using kmap_pages_iff [OF assms(1)] less_aligned [OF assms(3)] by simp
qed

lemma kmap_table_ranges:
  assumes "page_aligned kd" and "KERNLINK < kd" and "kd < P2V PHYSTOP"
  defines "k1 \<equiv> kmap_table kd ! 0" and "k2 \<equiv> kmap_table kd ! 1" and "k3 \<equiv> kmap_table kd ! 2"
    and "k4 \<equiv> kmap_table kd ! 3"
  shows "kmap_ok k1" "kmap_ok k2" "kmap_ok k3" "kmap_ok k4"
    "v \<in> kmap_pages k1 \<longleftrightarrow> KERNBASE \<le> v \<and> v < KERNLINK" "v \<in> kmap_pages k2 \<longleftrightarrow> KERNLINK \<le> v \<and> v < kd"
    "v \<in> kmap_pages k3 \<longleftrightarrow> kd \<le> v \<and> v < P2V PHYSTOP" "v \<in> kmap_pages k4 \<longleftrightarrow> DEVSPACE \<le> v"
proof -
  note D = KERNBASE_def KERNLINK_def EXTMEM_def PHYSTOP_def DEVSPACE_def P2V_def V2P_def
  have n: "2148532224 < unat kd" "unat kd < 2382364672" using assms(2,3) by (simp_all add: D word_less_nat_alt)
  have 2: "unat (kmap_size k2) = unat kd - 2148532224"
    unfolding k2_def kmap_size_def kmap_table_def using n by (simp add: D unat_sub_if_size word_size)
  have 3: "unat (kmap_size k3) = 2382364672 - unat kd"
    unfolding k3_def kmap_size_def kmap_table_def using n by (simp add: D unat_sub_if_size word_size)
  show ok: "kmap_ok k1" "kmap_ok k2" "kmap_ok k3" "kmap_ok k4"
    using 2 3 n by (simp_all add: kmap_ok_def k1_def k2_def k3_def k4_def kmap_table_def kmap_size_def D word_less_nat_alt)
  have al: "page_aligned KERNBASE" "page_aligned KERNLINK" "page_aligned DEVSPACE" "page_aligned (P2V PHYSTOP)"
    by (simp_all add: D page_aligned_def PGSIZE_def)
  show "v \<in> kmap_pages k1 \<longleftrightarrow> KERNBASE \<le> v \<and> v < KERNLINK"
    using kmap_pages_between [OF ok(1), of KERNLINK v] al by (simp add: k1_def kmap_table_def kmap_size_def D)
  show "v \<in> kmap_pages k2 \<longleftrightarrow> KERNLINK \<le> v \<and> v < kd"
    using kmap_pages_between [OF ok(2), of kd v] al assms(1) 2 n by (simp add: k2_def kmap_table_def) (simp add: D)
  show "v \<in> kmap_pages k3 \<longleftrightarrow> kd \<le> v \<and> v < P2V PHYSTOP"
    using kmap_pages_between [OF ok(3), of "P2V PHYSTOP" v] al assms(1) 3 n by (simp add: k3_def kmap_table_def) (simp add: D)
  have "vpn v < 1048576" using unsigned_less [where ?'a = nat, of v] by (simp add: vpn_def)
  then show "v \<in> kmap_pages k4 \<longleftrightarrow> DEVSPACE \<le> v"
    using kmap_pages_iff [OF ok(4), of v] less_aligned [OF al(3), of v]
    by (simp add: k4_def kmap_table_def kmap_size_def not_less [symmetric]) (simp add: D)
qed

lemma kmap_table_list: "kmap_table kd = [kmap_table kd ! 0, kmap_table kd ! 1, kmap_table kd ! 2, kmap_table kd ! 3]"
  by (simp add: kmap_table_def numeral_2_eq_2 numeral_3_eq_3)

lemma kmap_table_apart:
  assumes "page_aligned kd" and "KERNLINK < kd" and "kd < P2V PHYSTOP"
  shows "kmaps_apart (kmap_table kd)"
proof -
  note R = kmap_table_ranges [OF assms]
  have o: "KERNBASE < KERNLINK" "P2V PHYSTOP < DEVSPACE"
    by (simp_all add: KERNBASE_def KERNLINK_def EXTMEM_def P2V_def PHYSTOP_def DEVSPACE_def)
  have "kmap_pages (kmap_table kd ! 0) \<inter> kmap_pages (kmap_table kd ! 1) = {}"
    "kmap_pages (kmap_table kd ! 0) \<inter> kmap_pages (kmap_table kd ! 2) = {}"
    "kmap_pages (kmap_table kd ! 0) \<inter> kmap_pages (kmap_table kd ! 3) = {}"
    "kmap_pages (kmap_table kd ! 1) \<inter> kmap_pages (kmap_table kd ! 2) = {}"
    "kmap_pages (kmap_table kd ! 1) \<inter> kmap_pages (kmap_table kd ! 3) = {}"
    "kmap_pages (kmap_table kd ! 2) \<inter> kmap_pages (kmap_table kd ! 3) = {}"
    using R(5-8) o assms by (force simp del: One_nat_def)+
  then show ?thesis using R(1-4) by (subst kmap_table_list) (simp del: One_nat_def)
qed

lemma kmap_table_entry:
  assumes "page_aligned kd" and "KERNLINK < kd" and "kd < P2V PHYSTOP"
  shows "kmap_entry (kmap_table kd) v = kernel_entry kd v"
proof -
  note R = kmap_table_ranges(5-8) [OF assms, of v]
  note D = KERNBASE_def KERNLINK_def EXTMEM_def PHYSTOP_def DEVSPACE_def P2V_def V2P_def
  have al: "page_aligned KERNBASE" "page_aligned KERNLINK" "page_aligned DEVSPACE"
    by (simp_all add: D page_aligned_def PGSIZE_def)
  have m: "mapped_to a pa perm v = (pa + (PGROUNDDOWN v - a)) OR perm OR PTE_P" if "page_aligned a" "a \<le> v" for a pa perm
  proof -
    have "vpn a \<le> vpn v" using less_aligned [OF that(1), of v] that(2) by (simp add: not_less [symmetric])
    from page_distance [OF that(1) this] show ?thesis by (simp only: mapped_to_def)
  qed
  have o: "KERNBASE \<le> KERNLINK" "KERNLINK \<le> kd" "kd \<le> P2V PHYSTOP" "P2V PHYSTOP \<le> DEVSPACE"
    using assms by (simp_all add: D)
  have "kmap_entry (kmap_table kd) v =
     (if KERNBASE \<le> v \<and> v < KERNLINK then Some (mapped_to KERNBASE 0 PTE_W v)
      else if KERNLINK \<le> v \<and> v < kd then Some (mapped_to KERNLINK (V2P KERNLINK) 0 v)
      else if kd \<le> v \<and> v < P2V PHYSTOP then Some (mapped_to kd (V2P kd) PTE_W v)
      else if DEVSPACE \<le> v then Some (mapped_to DEVSPACE DEVSPACE PTE_W v) else None)"
    unfolding kmap_entry_def by (subst kmap_table_list) (simp only: find.simps R, simp add: kmap_table_def)
  note e = this
  consider "v < KERNBASE" | "KERNBASE \<le> v" "v < KERNLINK" | "KERNLINK \<le> v" "v < kd" | "kd \<le> v" "v < P2V PHYSTOP"
    | "P2V PHYSTOP \<le> v" "v < DEVSPACE" | "DEVSPACE \<le> v" by (metis not_less)
  then show ?thesis
  proof cases
    case 1
    with o have "\<not> KERNBASE \<le> v" "\<not> KERNLINK \<le> v" "\<not> kd \<le> v" "\<not> DEVSPACE \<le> v" by order+
    with e 1 show ?thesis by (simp add: kernel_entry_def)
  next
    case 2
    with o have "\<not> v < KERNBASE" by order
    with e 2 m [OF al(1) 2(1)] show ?thesis by (simp add: kernel_entry_def V2P_def)
  next
    case 3
    with o have "\<not> v < KERNBASE" "\<not> v < KERNLINK" by order+
    with e 3 m [OF al(2) 3(1)] show ?thesis by (simp add: kernel_entry_def V2P_def)
  next
    case 4
    with o have "\<not> v < KERNBASE" "\<not> v < KERNLINK" "\<not> v < kd" by order+
    with e 4 m [OF assms(1) 4(1)] show ?thesis by (simp add: kernel_entry_def V2P_def)
  next
    case 5
    with o have "\<not> v < KERNBASE" "\<not> v < KERNLINK" "\<not> v < kd" "\<not> v < P2V PHYSTOP" "\<not> DEVSPACE \<le> v" by order+
    with e 5 show ?thesis by (simp add: kernel_entry_def)
  next
    case 6
    with o have "\<not> v < KERNBASE" "\<not> v < KERNLINK" "\<not> v < kd" "\<not> v < P2V PHYSTOP" "\<not> v < DEVSPACE" by order+
    with e 6 m [OF al(3) 6(1)] show ?thesis by (simp add: kernel_entry_def)
  qed
qed

lemma new_dir_wf:
  assumes K: "kalloc_inv (d # ps) s" and u: "kmem_unlocked s"
  defines "s' \<equiv> s\<lparr>freelist := get32 (mem s) d, mem := memset (mem s) d 0 PGSIZE\<rparr>"
  shows "pt_wf ps d s'" "building (d # ps) s [d] ps s'" "pt_tables (mem s') d = {}" "pt_entry (mem s') d v = None"
proof -
  have d: "kfree_ok (kend s) d" "d \<notin> set ps" "page_aligned d" using K by (auto simp: kalloc_inv_def)
  have same: "same_page q (mem s) (mem s')" if "page_aligned q" "q \<noteq> d" for q
    unfolding s'_def using same_page_memset [OF that(1) d(3) that(2)] by simp
  have fp: "free_pages (mem s') (get32 (mem s) d) ps"
  proof (rule free_pages_same [of "mem s"])
    show "free_pages (mem s) (get32 (mem s) d) ps" using K by (auto simp: kalloc_inv_def)
    fix q assume "q \<in> set ps"
    then show "same_page q (mem s) (mem s')" using K d by (intro same) (auto simp: kalloc_inv_def)
  qed
  have zero: "get32 (mem s') (d + 4 * i) = 0" if "i < 1024" for i
    unfolding s'_def using slot_unat [OF that] by (simp add: get32_memset0)
  then have none: "\<not> pde_present (mem s') d i" if "i < 1024" for i using that by (simp add: pde_present_def)
  then have used: "pde_used (mem s') d = {}" by (auto simp: pde_used_def)
  then show tabs: "pt_tables (mem s') d = {}" by (simp add: pt_tables_def)
  show "pt_entry (mem s') d v = None" using none [OF PDX_less] by (simp add: pt_entry_def)
  have "kalloc_inv ps s'" using K fp by (auto simp: kalloc_inv_def s'_def)
  then show "pt_wf ps d s'" using u d tabs used by (simp add: pt_wf_def kmem_unlocked_def s'_def)
  have "\<exists>m f. s' = s\<lparr>mem := m, freelist := f\<rparr>" unfolding s'_def
    by (intro exI [of _ "memset (mem s) d 0 PGSIZE"] exI [of _ "get32 (mem s) d"]) simp
  then show "building (d # ps) s [d] ps s'" using same K by (auto simp: building_def kalloc_inv_def)
qed

lemma setupkvm_built:
  assumes K: "kalloc_inv ps s" "kmem_unlocked s" and "1025 < length ps" and D: "kdata_ok s"
  obtains d ts ps' s' where "setupkvm s = Inr (d, s')" "d \<noteq> 0" "pt_wf ps' d s'" "building ps s (d # ts) ps' s'"
    "pt_tables (mem s') d = set ts" "\<And>v. pt_entry (mem s') d v = kernel_entry (kdata s) v"
proof -
  obtain d qs where ps: "ps = d # qs" using assms(3) by (cases ps) auto
  note N = new_dir_wf [OF K(1) [unfolded ps] K(2)]
  let ?s = "s\<lparr>freelist := get32 (mem s) d, mem := memset (mem s) d 0 PGSIZE\<rparr>"
  have kd: "page_aligned (kdata s)" "KERNLINK < kdata s" "kdata s < P2V PHYSTOP" using D by (auto simp: kdata_ok_def)
  have T: "pt_tables (mem ?s) d = set []" using N(3) by simp
  have len: "1025 < length (d # qs)" using assms(3) ps by simp
  have "\<forall>k \<in> set (kmap_table (kdata s)). \<forall>v \<in> kmap_pages k. pt_entry (mem ?s) d v = None" using N(4) by blast
  from setupkvm_loop_maps [OF N(1,2) refl T len kmap_table_apart [OF kd] this]
  obtain ts' ps' s' where L: "setupkvm_loop d (kmap_table (kdata s)) ?s = Inr (d, s')" "pt_wf ps' d s'"
      "building ps s (d # ts') ps' s'" "pt_tables (mem s') d = set ts'"
      "\<forall>v. pt_entry (mem s') d v =
         (case kernel_entry (kdata s) v of None \<Rightarrow> pt_entry (mem ?s) d v | Some e \<Rightarrow> Some e)"
    unfolding kmap_table_entry [OF kd] ps by blast
  have d: "d \<noteq> 0" using K(1) ps kfree_ok_nonzero by (auto simp: kalloc_inv_def)
  have "\<not> P2V PHYSTOP > DEVSPACE" by (simp add: P2V_def PHYSTOP_def DEVSPACE_def KERNBASE_def)
  then have "setupkvm s = Inr (d, s')"
    using kalloc_cons [OF K(1) [unfolded ps] K(2)] d L(1) by (auto simp: setupkvm_def Let_def)
  moreover have "pt_entry (mem s') d v = kernel_entry (kdata s) v" for v
    using L(5) N(4) by (cases "kernel_entry (kdata s) v") (metis option.simps(4), metis option.simps(5))
  ultimately show ?thesis using that [of d s' ps' ts'] d L(2-4) by blast
qed

section \<open>States with many free pages\<close>

text \<open>\<open>free_run s n\<close> is \<open>s\<close> after \<open>kfree\<close> of the \<open>n\<close> pages from \<open>0x80400000\<close>.\<close>

fun free_run :: "'a kmem_scheme \<Rightarrow> nat \<Rightarrow> 'a kmem_scheme" where
  "free_run s 0 = s"
| "free_run s (Suc n) = (case kfree (0x80400000 + of_nat n * PGSIZE) (free_run s n) of Inl _ \<Rightarrow> free_run s n | Inr (_, s') \<Rightarrow> s')"

definition run_page :: "nat \<Rightarrow> u32" where
  "run_page n = 0x80400000 + of_nat n * PGSIZE"

lemma run_page_unat: "n \<le> 5000 \<Longrightarrow> unat (run_page n) = 2151677952 + 4096 * n"
  by (simp add: run_page_def PGSIZE_def unat_word_ariths unat_of_nat)

lemma run_page_ok:
  assumes "n \<le> 5000" and "e \<le> 0x80400000"
  shows "kfree_ok e (run_page n)"
proof -
  note u = run_page_unat [OF assms(1)]
  have "run_page n mod PGSIZE = 0" using u by (simp add: page_aligned_unat flip: page_aligned_def)
  moreover have "\<not> run_page n < e" using u assms(2) by (simp add: word_less_nat_alt word_le_nat_alt)
  moreover have "unat (V2P (run_page n)) = 4194304 + 4096 * n" using u
    by (simp add: V2P_def KERNBASE_def unat_sub word_le_nat_alt)
  then have "V2P (run_page n) < PHYSTOP" using assms(1) by (simp add: PHYSTOP_def word_less_nat_alt)
  ultimately show ?thesis by (simp add: kfree_ok_def)
qed

lemma run_page_inj: "i < n \<Longrightarrow> n \<le> 5000 \<Longrightarrow> run_page i \<noteq> run_page n"
  using run_page_unat [of i] run_page_unat [of n] by auto

lemma free_run_inv:
  assumes "kalloc_inv [] s" and "kmem_unlocked s" and "kend s \<le> 0x80400000"
  shows "n \<le> 5000 \<Longrightarrow> kalloc_inv (rev (map run_page [0..<n])) (free_run s n) \<and>
    (\<exists>m f. free_run s n = s\<lparr>mem := m, freelist := f\<rparr>) \<and>
    (\<forall>q. page_aligned q \<longrightarrow> q < 0x80400000 \<longrightarrow> same_page q (mem s) (mem (free_run s n)))"
proof (induction n)
  case 0
  have "s = s\<lparr>mem := mem s, freelist := freelist s\<rparr>" by simp
  then have "\<exists>m f. s = s\<lparr>mem := m, freelist := f\<rparr>" by blast
  then show ?case using assms(1) by simp
next
  case (Suc n)
  let ?s = "free_run s n"
  have n: "n \<le> 5000" using Suc.prems by simp
  from Suc.IH [OF n] obtain m f where I: "kalloc_inv (rev (map run_page [0..<n])) ?s" "?s = s\<lparr>mem := m, freelist := f\<rparr>"
    "\<forall>q. page_aligned q \<longrightarrow> q < 0x80400000 \<longrightarrow> same_page q (mem s) (mem ?s)" by blast
  have ok: "kfree_ok (kend ?s) (run_page n)" using run_page_ok [OF n assms(3)] I(2) by simp
  have u: "kmem_unlocked ?s" using assms(2) I(2) by (simp add: kmem_unlocked_def)
  have "run_page n \<notin> set (rev (map run_page [0..<n]))" using run_page_inj [OF _ n] by fastforce
  from kfree_push [OF I(1) ok this u] kfree_eq [OF ok u]
  obtain s' where s': "kfree (run_page n) ?s = Inr ((), s')" "kalloc_inv (run_page n # rev (map run_page [0..<n])) s'"
      "\<forall>q. page_aligned q \<longrightarrow> q \<noteq> run_page n \<longrightarrow> same_page q (mem ?s) (mem s')"
      "s' = ?s\<lparr>mem := put32 (memset (mem ?s) (run_page n) 1 PGSIZE) (run_page n) (freelist ?s), freelist := run_page n\<rparr>"
    by auto
  have e: "free_run s (Suc n) = s'" using s'(1) by (simp add: run_page_def)
  have "s' = s\<lparr>mem := put32 (memset m (run_page n) 1 PGSIZE) (run_page n) f, freelist := run_page n\<rparr>"
    using s'(4) I(2) by simp
  then have "\<exists>m f. s' = s\<lparr>mem := m, freelist := f\<rparr>" by blast
  moreover have "same_page q (mem s) (mem s')" if q: "page_aligned q" "q < 0x80400000" for q
  proof (rule same_page_trans)
    show "same_page q (mem s) (mem ?s)" using I(3) q by simp
    have "q \<noteq> run_page n" using q(2) run_page_unat [OF n] by (auto simp: word_less_nat_alt)
    then show "same_page q (mem ?s) (mem s')" using s'(3) q(1) by simp
  qed
  ultimately show ?case unfolding e using s'(2) by simp
qed

text \<open>C12. With at least 1026 free pages \<open>setupkvm\<close> returns a new page directory.  Below \<open>KERNBASE\<close> nothing is mapped; the
  kernel's addresses are mapped to the physical addresses \<open>KERNBASE\<close> below them, the kernel's code read-only and
  the I/O space, the data and the free memory writable; device memory is mapped to itself, the gap before it is not
  mapped, and no entry can be used from user mode.  No page that was in use is written.\<close>

theorem setupkvm_maps_kernel:
  assumes "kalloc_inv ps s" and "kmem_unlocked s" and "1025 < length ps"
    and "page_aligned (kdata s)" and "KERNLINK < kdata s" and "kdata s < P2V PHYSTOP"
  shows "\<exists>d ps' s'. setupkvm s = Inr (d, s') \<and> d \<noteq> 0 \<and> pt_wf ps' d s' \<and>
    (\<forall>v. pt_entry (mem s') d v =
       (if v < KERNBASE then None
        else if v < KERNLINK then Some (V2P (PGROUNDDOWN v) OR PTE_W OR PTE_P)
        else if v < kdata s then Some (V2P (PGROUNDDOWN v) OR PTE_P)
        else if v < P2V PHYSTOP then Some (V2P (PGROUNDDOWN v) OR PTE_W OR PTE_P)
        else if v < DEVSPACE then None
        else Some (PGROUNDDOWN v OR PTE_W OR PTE_P))) \<and>
    (\<forall>q. page_aligned q \<longrightarrow> q \<notin> set ps \<longrightarrow> same_page q (mem s) (mem s'))"
proof -
  have "kdata_ok s" using assms(4-6) by (simp add: kdata_ok_def)
  then obtain d ts ps' s' where b: "setupkvm s = Inr (d, s')" "d \<noteq> 0" "pt_wf ps' d s'"
    "building ps s (d # ts) ps' s'" "\<And>v. pt_entry (mem s') d v = kernel_entry (kdata s) v"
    using setupkvm_built [OF assms(1-3)] by metis
  then have "\<forall>q. page_aligned q \<longrightarrow> q \<notin> set ps \<longrightarrow> same_page q (mem s) (mem s')" by (auto simp: building_def)
  with b show ?thesis unfolding kernel_entry_def by blast
qed

lemma kern_bss_pool: "kalloc_inv [] (kern_bss d)" "kmem_unlocked (kern_bss d)" "kend (kern_bss d) \<le> 0x80400000"
  by (simp_all add: kalloc_inv_def kmem_unlocked_def kern_bss_def KERNLINK_def KERNBASE_def EXTMEM_def)

theorem setupkvm_maps_kernel_witness:
  "\<exists>d s'. setupkvm (free_run (kern_bss (\<lambda>_ _. 0)) 1026) = Inr (d, s') \<and> d \<noteq> 0 \<and> pt_entry (mem s') d 0x1000 = None \<and>
     pt_entry (mem s') d 0x80107008 = Some 0x107001 \<and> pt_entry (mem s') d 0x80108000 = Some 0x108003 \<and>
     pt_entry (mem s') d 0xFEC00010 = Some 0xFEC00003"
proof -
  let ?s = "free_run (kern_bss (\<lambda>_ _. 0)) 1026"
  have "1026 \<le> (5000 :: nat)" by simp
  from free_run_inv [OF kern_bss_pool this, of "\<lambda>_ _. 0"] obtain m f where
    s: "kalloc_inv (rev (map run_page [0..<1026])) ?s" "?s = (kern_bss (\<lambda>_ _. 0))\<lparr>mem := m, freelist := f\<rparr>" by blast
  have u: "kmem_unlocked ?s" "kdata ?s = 0x80108000" using s(2) by (simp_all add: kmem_unlocked_def kern_bss_def)
  have c: "1025 < length (rev (map run_page [0..<1026]))" "page_aligned (kdata ?s)" "KERNLINK < kdata ?s" "kdata ?s < P2V PHYSTOP"
    by (simp_all add: u(2) page_aligned_unat KERNLINK_def KERNBASE_def EXTMEM_def P2V_def PHYSTOP_def)
  from setupkvm_maps_kernel [OF s(1) u(1) c] obtain d s' where r: "setupkvm ?s = Inr (d, s')" "d \<noteq> 0"
    "\<forall>v. pt_entry (mem s') d v =
       (if v < KERNBASE then None
        else if v < KERNLINK then Some (V2P (PGROUNDDOWN v) OR PTE_W OR PTE_P)
        else if v < kdata ?s then Some (V2P (PGROUNDDOWN v) OR PTE_P)
        else if v < P2V PHYSTOP then Some (V2P (PGROUNDDOWN v) OR PTE_W OR PTE_P)
        else if v < DEVSPACE then None
        else Some (PGROUNDDOWN v OR PTE_W OR PTE_P))" by blast
  note defs = KERNLINK_def KERNBASE_def EXTMEM_def P2V_def PHYSTOP_def V2P_def PGROUNDDOWN_def PGSIZE_def PTE_P_def PTE_W_def DEVSPACE_def
  have "pt_entry (mem s') d 0x1000 = None" using r(3) [rule_format, of "0x1000"] by (simp add: defs u(2))
  moreover have "pt_entry (mem s') d 0x80107008 = Some 0x107001" using r(3) [rule_format, of "0x80107008"] by (simp add: defs u(2))
  moreover have "pt_entry (mem s') d 0x80108000 = Some 0x108003" using r(3) [rule_format, of "0x80108000"] by (simp add: defs u(2))
  moreover have "pt_entry (mem s') d 0xFEC00010 = Some 0xFEC00003" using r(3) [rule_format, of "0xFEC00010"] by (simp add: defs u(2))
  ultimately show ?thesis using r(1,2) by blast
qed

end
