(* ===== verification/Vm_Copy.thy ===== *)
theory Vm_Copy
  imports Vm_Fork
begin

text \<open>
  The copy of a user address space that \<open>copyuvm\<close> makes for \<open>fork\<close>.
\<close>

section \<open>Copying one page\<close>

lemma memmove_page:
  assumes "page_aligned p" and "page_aligned q" and "p \<noteq> q"
  shows "unat e < 4096 \<Longrightarrow> memmove m p q PGSIZE (p + e) = m (q + e)"
    and "page_aligned r \<Longrightarrow> r \<noteq> p \<Longrightarrow> same_page r m (memmove m p q PGSIZE)"
proof -
  have no: "\<not> (q < p \<and> p < q + PGSIZE)"
  proof
    assume a: "q < p \<and> p < q + PGSIZE"
    then have "unat q + 4096 \<le> unat p" using assms aligned_gap [of q p] by (simp add: word_less_nat_alt)
    moreover have "unat (q + PGSIZE) \<le> unat q + 4096" by (simp add: unat_word_ariths)
    ultimately show False using a by (simp add: word_less_nat_alt)
  qed
  have far: "p \<noteq> q + of_nat i" if "i < 4096" for i
    using page_disjoint [OF assms(2,1) assms(3) [symmetric], of "of_nat i"] that
    by (auto simp: unat_of_nat)
  have at: "memmove m p q PGSIZE (p + e) = (if unat e < 4096 then m (q + e) else m (p + e))" for e
    using copy_up_at [of 4096 p q m e] far no by (auto simp: memmove_def)
  then show "unat e < 4096 \<Longrightarrow> memmove m p q PGSIZE (p + e) = m (q + e)" by simp
  assume r: "page_aligned r" "r \<noteq> p"
  show "same_page r m (memmove m p q PGSIZE)" unfolding same_page_def
  proof (intro allI impI)
    fix d :: u32 assume "unat d < 4096"
    then have "\<not> unat (r + d - p) < 4096" by (rule page_disjoint [OF r(1) assms(1) r(2)])
    then show "memmove m p q PGSIZE (r + d) = m (r + d)" using at [of "r + d - p"] by simp
  qed
qed

lemma pt_entry_same:
  assumes "page_aligned d" and "same_page d m m'" and "\<And>t. t \<in> pt_tables m d \<Longrightarrow> page_aligned t \<and> same_page t m m'"
  shows "pt_entry m' d v = pt_entry m d v" "pt_tables m' d = pt_tables m d"
proof -
  have e: "get32 m' (d + 4 * i) = get32 m (d + 4 * i)" if "i < 1024" for i
    using assms(1,2) slot_unat [OF that] by (intro get32_page) auto
  have p: "pde_present m' d i = pde_present m d i" "pde_table m' d i = pde_table m d i" if "i < 1024" for i
    using e [OF that] by (simp_all add: pde_present_def pde_table_def)
  have u: "pde_used m' d = pde_used m d" using p(1) by (auto simp: pde_used_def)
  show "pt_tables m' d = pt_tables m d" unfolding pt_tables_def u
    by (intro image_cong refl p(2)) (simp add: pde_used_def)
  have "get32 m' (pde_table m d (PDX v) + 4 * PTX v) = get32 m (pde_table m d (PDX v) + 4 * PTX v)"
    if "pde_present m d (PDX v)"
  proof -
    have "pde_table m d (PDX v) \<in> pt_tables m d" using that PDX_less [of v] by (auto simp: pt_tables_def pde_used_def)
    with assms(3) show ?thesis using slot_fits(1) [of v] by (intro get32_page) auto
  qed
  with p [OF PDX_less [of v]] show "pt_entry m' d v = pt_entry m d v" by (auto simp: pt_entry_def Let_def)
qed

lemma walkpgdir_find:
  assumes "pt_entry (mem s) d v = Some e" and "kfree_ok (kend s) (pde_table (mem s) d (PDX v))" and "KERNLINK \<le> kend s"
  shows "\<exists>pte. walkpgdir d v False s = Inr (pte, s) \<and> pte \<noteq> 0 \<and> get32 (mem s) pte = e \<and> e AND PTE_P \<noteq> 0"
proof -
  have p: "pde_present (mem s) d (PDX v)" "get32 (mem s) (pte_at (mem s) d v) = e" "e AND PTE_P \<noteq> 0"
    using assms(1) by (auto simp: pt_entry_def Let_def pte_at_present split: if_splits)
  have "pte_at (mem s) d v \<noteq> 0"
    using slot_nonzero [OF assms(2,3) PTX_less [of v]] p(1) by (simp add: pte_at_present)
  with p show ?thesis by (intro exI [of _ "pte_at (mem s) d v"]) (simp add: walkpgdir_def pde_present_def)
qed

lemma flags_kept:
  assumes "page_aligned x" and "e AND PTE_P \<noteq> 0"
  shows "PTE_ADDR (x OR PTE_FLAGS e OR PTE_P) = x" "PTE_FLAGS (x OR PTE_FLAGS e OR PTE_P) = PTE_FLAGS e"
proof -
  have "bit e 0" using assms(2) by (auto simp: PTE_P_def and_one_eq odd_iff_mod_2_eq_one bit_0)
  then have f: "PTE_FLAGS e OR PTE_P = PTE_FLAGS e" unfolding PTE_FLAGS_def PTE_P_def
    by (intro bit_word_eqI) (auto simp: bit_simps)
  have "PTE_FLAGS e AND NOT 0xFFF = 0" by (simp add: PTE_FLAGS_def and.assoc)
  then show "PTE_ADDR (x OR PTE_FLAGS e OR PTE_P) = x" "PTE_FLAGS (x OR PTE_FLAGS e OR PTE_P) = PTE_FLAGS e"
    using PTE_ADDR_or [OF assms(1)] f by simp_all
qed

section \<open>The pages copied so far\<close>

text \<open>\<open>frame m d v\<close> is the page of memory that \<open>d\<close> maps at \<open>v\<close>.\<close>

definition frame :: "memory \<Rightarrow> u32 \<Rightarrow> u32 \<Rightarrow> u32" where
  "frame m d v = P2V (PTE_ADDR (the (pt_entry m d v)))"

lemma frame_aligned [simp]: "page_aligned (frame m d v)"
proof -
  have "page_aligned (PTE_ADDR x)" for x unfolding page_aligned_mask PTE_ADDR_def by (simp add: and.assoc)
  moreover have "page_aligned (x + KERNBASE)" if "page_aligned x" for x
  proof -
    from that obtain k where "unat x = 4096 * k" unfolding page_aligned_unat by auto
    then have "unat (x + KERNBASE) = 4096 * ((k + 524288) mod 1048576)"
      using mult_mod_right [of 4096 "k + 524288" 1048576] by (simp add: KERNBASE_def unat_word_ariths add_mult_distrib2)
    then show ?thesis unfolding page_aligned_unat by simp
  qed
  ultimately show ?thesis by (simp add: frame_def P2V_def)
qed

text \<open>The pages below page \<open>n\<close> of the user memory of \<open>pgdir\<close> have been copied to the pages \<open>fs\<close>, which \<open>d\<close> maps.\<close>

definition cloned :: "u32 list \<Rightarrow> 'a kmem_scheme \<Rightarrow> u32 \<Rightarrow> u32 \<Rightarrow> u32 list \<Rightarrow> u32 list \<Rightarrow> 'a kmem_scheme \<Rightarrow> bool" where
  "cloned ps0 s0 pgdir d fs ps s \<longleftrightarrow> pt_wf ps d s \<and>
     (\<exists>qs. building ps0 s0 qs ps s \<and> set qs = insert d (pt_tables (mem s) d \<union> set fs)) \<and>
     distinct fs \<and> set fs \<inter> insert d (pt_tables (mem s) d) = {} \<and>
     (\<forall>v. pt_entry (mem s) d v =
        (if vpn v < length fs then Some (V2P (fs ! vpn v) OR PTE_FLAGS (the (pt_entry (mem s0) pgdir v)) OR PTE_P)
         else kernel_entry (kdata s0) v)) \<and>
     (\<forall>v e. vpn v < length fs \<longrightarrow> unat e < 4096 \<longrightarrow> mem s (fs ! vpn v + e) = mem s0 (frame (mem s0) pgdir v + e))"

text \<open>The parent's user pages are mapped, and neither they nor its tables are free.\<close>

definition user_mapped :: "u32 list \<Rightarrow> 'a kmem_scheme \<Rightarrow> u32 \<Rightarrow> nat \<Rightarrow> bool" where
  "user_mapped ps s pgdir n \<longleftrightarrow> pt_wf ps pgdir s \<and>
     (\<forall>v. vpn v < n \<longrightarrow> pt_entry (mem s) pgdir v \<noteq> None \<and> frame (mem s) pgdir v \<notin> set ps)"

lemma building_parent:
  assumes "building ps0 s0 qs ps s" and "pt_wf ps0 pgdir s0"
  shows "pt_entry (mem s) pgdir v = pt_entry (mem s0) pgdir v"
proof (rule pt_entry_same)
  have "set qs \<subseteq> set ps0" using assms(1) by (auto simp: building_def)
  then show "page_aligned pgdir" "same_page pgdir (mem s0) (mem s)"
    and "\<And>t. t \<in> pt_tables (mem s0) pgdir \<Longrightarrow> page_aligned t \<and> same_page t (mem s0) (mem s)"
    using assms by (auto simp: building_def pt_wf_def)
qed

lemma building_kend: "building ps0 s0 qs ps s \<Longrightarrow> kend s = kend s0 \<and> kdata s = kdata s0"
  by (auto simp: building_def)

lemma building_table:
  assumes "building ps0 s0 qs ps s" and "pt_wf ps0 pgdir s0" and "pt_entry (mem s0) pgdir v \<noteq> None"
  shows "kfree_ok (kend s) (pde_table (mem s) pgdir (PDX v))"
proof -
  have "set qs \<subseteq> set ps0" using assms(1) by (auto simp: building_def)
  then have "same_page pgdir (mem s0) (mem s)" "page_aligned pgdir" using assms by (auto simp: building_def pt_wf_def)
  then have "get32 (mem s) (pgdir + 4 * PDX v) = get32 (mem s0) (pgdir + 4 * PDX v)"
    using slot_fits(2) by (intro get32_page) auto
  moreover have "pde_present (mem s0) pgdir (PDX v)" using assms(3) by (auto simp: pt_entry_def Let_def split: if_splits)
  ultimately show ?thesis
    using pt_wf_table(1) [OF assms(2) _ PDX_less] building_kend [OF assms(1)] by (simp add: pde_table_def)
qed

lemma take_page_wf:
  assumes "pt_wf (pg # ps) d s" and "page_aligned q" and "q \<noteq> pg"
  defines "s' \<equiv> s\<lparr>freelist := get32 (mem s) pg, mem := memmove (mem s) pg q PGSIZE\<rparr>"
  shows "pt_wf ps d s'" "pt_entry (mem s') d v = pt_entry (mem s) d v" "pt_tables (mem s') d = pt_tables (mem s) d"
    "\<And>r. page_aligned r \<Longrightarrow> r \<noteq> pg \<Longrightarrow> same_page r (mem s) (mem s')"
    "\<And>e. unat e < 4096 \<Longrightarrow> mem s' (pg + e) = mem s (q + e)"
proof -
  have K: "kalloc_inv (pg # ps) s" and pg: "page_aligned pg" "pg \<notin> set ps" using assms(1) by (auto simp: pt_wf_def kalloc_inv_def)
  show same: "same_page r (mem s) (mem s')" if "page_aligned r" "r \<noteq> pg" for r
    using memmove_page(2) [OF pg(1) assms(2)] that assms(3) by (simp add: s'_def)
  show "mem s' (pg + e) = mem s (q + e)" if "unat e < 4096" for e
    using memmove_page(1) [OF pg(1) assms(2)] that assms(3) by (simp add: s'_def)
  have D: "page_aligned d" "d \<noteq> pg" "\<And>t. t \<in> pt_tables (mem s) d \<Longrightarrow> page_aligned t \<and> t \<noteq> pg"
    using assms(1) by (auto simp: pt_wf_def)
  show "pt_entry (mem s') d v = pt_entry (mem s) d v" and T: "pt_tables (mem s') d = pt_tables (mem s) d"
    using pt_entry_same [OF D(1) same [OF D(1,2)]] D(3) same by blast+
  have "free_pages (mem s') (get32 (mem s) pg) ps"
  proof (rule free_pages_same)
    show "free_pages (mem s) (get32 (mem s) pg) ps" using K by (auto simp: kalloc_inv_def)
    show "\<And>r. r \<in> set ps \<Longrightarrow> same_page r (mem s) (mem s')" using K pg(2) by (intro same) (auto simp: kalloc_inv_def)
  qed
  then have K': "kalloc_inv ps s'" using K by (auto simp: kalloc_inv_def s'_def)
  have dir: "pde_table (mem s') d i = pde_table (mem s) d i \<and> pde_present (mem s') d i = pde_present (mem s) d i"
    if "i < 1024" for i
  proof -
    have "get32 (mem s') (d + 4 * i) = get32 (mem s) (d + 4 * i)"
      using same [OF D(1,2)] D(1) slot_unat [OF that] by (intro get32_page) auto
    then show ?thesis by (simp add: pde_table_def pde_present_def)
  qed
  then have u: "pde_used (mem s') d = pde_used (mem s) d" by (auto simp: pde_used_def)
  have "inj_on (pde_table (mem s') d) (pde_used (mem s') d) \<longleftrightarrow> inj_on (pde_table (mem s) d) (pde_used (mem s) d)"
    unfolding u using dir by (intro inj_on_cong) (auto simp: pde_used_def)
  with K' show "pt_wf ps d s'" using assms(1) T by (simp add: pt_wf_def kmem_unlocked_def s'_def)
qed

lemma building_room:
  assumes "building ps0 s0 qs ps s" and "set qs = insert d (pt_tables m d \<union> set fs)"
  shows "length ps0 \<le> 1025 + length fs + length ps"
proof -
  have "length qs = card (set qs)" using assms(1) by (auto simp: building_def distinct_card)
  also have "\<dots> \<le> Suc (card (pt_tables m d \<union> set fs))" unfolding assms(2) by (rule card_insert_le_m1) simp_all
  also have "\<dots> \<le> Suc (card (pt_tables m d) + card (set fs))" using card_Un_le [of "pt_tables m d" "set fs"] by simp
  also have "\<dots> \<le> Suc (1024 + length fs)" using card_pt_tables(1) [of m d] card_length [of fs] by linarith
  finally show ?thesis using assms(1) by (simp add: building_def)
qed

lemma building_take:
  assumes "building ps0 s0 qs (pg # ps) s" and "s' = s\<lparr>freelist := f, mem := m\<rparr>"
    and "\<And>r. page_aligned r \<Longrightarrow> r \<noteq> pg \<Longrightarrow> same_page r (mem s) (mem s')"
  shows "building ps0 s0 (qs @ [pg]) ps s'"
proof -
  from assms(1) obtain m1 f1 where "s = s0\<lparr>mem := m1, freelist := f1\<rparr>" by (auto simp: building_def)
  with assms(2) have "s' = s0\<lparr>mem := m, freelist := f\<rparr>" by simp
  moreover have "same_page q (mem s0) (mem s')" if "page_aligned q" "q \<notin> set (qs @ [pg])" for q
    using that assms(1) by (intro same_page_trans [OF _ assms(3)]) (auto simp: building_def)
  ultimately show ?thesis using assms(1) unfolding building_def by auto
qed

lemma vpn_page:
  assumes "n < 1048576"
  shows "vpn (of_nat n * PGSIZE) = n" "unat (of_nat n * PGSIZE :: u32) = 4096 * n"
proof -
  show "unat (of_nat n * PGSIZE :: u32) = 4096 * n" using assms by (simp add: PGSIZE_def unat_word_ariths unat_of_nat)
  then show "vpn (of_nat n * PGSIZE) = n" by (simp add: vpn_def)
qed

lemma user_page_unmapped:
  assumes "vpn v < 524288"
  shows "kernel_entry kd v = None"
proof -
  have "unat v < 2147483648" using assms div_less_iff_less_mult [of 4096 "unat v" 524288] by (simp add: vpn_def)
  then have "v < KERNBASE" by (simp add: KERNBASE_def word_less_nat_alt)
  then show ?thesis by (simp add: kernel_entry_def)
qed

lemma map_page:
  assumes "pt_wf ps d s" and "vpn v < 1048576" and "\<And>w. vpn w = vpn v \<Longrightarrow> pt_entry (mem s) d w = None" and "page_aligned v"
  obtains r rs ps' s' where "mappages d v PGSIZE pa perm s = Inr (r, s')" "ps = rs @ ps'" "pt_wf ps' d s'" "pt_grows rs d s s'"
    "ps' \<noteq> [] \<longrightarrow> r = 0"
    "r = 0 \<longrightarrow> (\<forall>w. pt_entry (mem s') d w = (if vpn w = vpn v then Some (pa OR perm OR PTE_P) else pt_entry (mem s) d w))"
proof -
  have u: "unat v = 4096 * vpn v" using assms(4) by (auto simp: vpn_def page_aligned_unat)
  have b: "0 < PGSIZE" "unat v + unat PGSIZE \<le> 2 ^ 32" using assms(2) u by (simp_all add: PGSIZE_def)
  have l: "last_page v PGSIZE = 0" using range_end [OF b] u by (simp add: last_page_def vpn_def [of "v + PGSIZE - 1"])
  have r: "w \<in> vrange v (last_page v PGSIZE) \<longleftrightarrow> vpn w = vpn v" for w by (auto simp: vrange_def l)
  have "maps ps d v (last_page v PGSIZE) pa perm s (mappages d v PGSIZE pa perm s)"
    using assms(1,3) b by (intro mappages_maps_range) (auto simp: r)
  then obtain x rs ps' s' where m: "mappages d v PGSIZE pa perm s = Inr (x, s')" "ps = rs @ ps'" "pt_wf ps' d s'"
      "pt_grows rs d s s'" "\<forall>w. vpn w \<noteq> vpn v \<longrightarrow> pt_entry (mem s') d w = pt_entry (mem s) d w"
      "x = 0 \<and> (\<forall>w. vpn w = vpn v \<longrightarrow> pt_entry (mem s') d w = Some (mapped_to v pa perm w)) \<or> x = -1 \<and> ps' = []"
    unfolding maps_def r Ball_def by blast
  show ?thesis using m(5,6) by (intro that [OF m(1-4)]) (auto simp: mapped_to_def)
qed

section \<open>One turn of the loop\<close>

lemma frame_vpn: "vpn v = vpn w \<Longrightarrow> frame m d v = frame m d w"
  using pt_entry_vpn [of v w m d] by (simp add: frame_def)

lemma cloned_extend:
  assumes C: "cloned ps0 s0 pgdir d fs (pg # ps) s" and v: "vpn v = length fs"
    and s1: "s1 = s\<lparr>freelist := get32 (mem s) pg, mem := memmove (mem s) pg (frame (mem s0) pgdir v) PGSIZE\<rparr>"
    and q: "frame (mem s0) pgdir v \<notin> set ps0" and K: "kalloc_inv ps0 s0"
    and m: "ps = rs @ ps'" "pt_wf ps' d s'" "pt_grows rs d s1 s'"
    and e: "\<forall>w. pt_entry (mem s') d w = (if vpn w = vpn v
      then Some (V2P pg OR PTE_FLAGS (the (pt_entry (mem s0) pgdir v)) OR PTE_P) else pt_entry (mem s1) d w)"
  shows "cloned ps0 s0 pgdir d (fs @ [pg]) ps' s'"
proof -
  let ?q = "frame (mem s0) pgdir v"
  from C obtain qs where B: "building ps0 s0 qs (pg # ps) s" and qs: "set qs = insert d (pt_tables (mem s) d \<union> set fs)"
    and W: "pt_wf (pg # ps) d s" unfolding cloned_def by blast
  have ps0: "ps0 = qs @ pg # rs @ ps'" "distinct ps0" using B m(1) by (auto simp: building_def)
  then have "?q \<noteq> pg" using q by auto
  note T = take_page_wf [OF W frame_aligned this, folded s1]
  have B1: "building ps0 s0 (qs @ [pg]) ps s1" using building_take [OF B s1 T(4)] by blast
  have "building ps0 s0 ((qs @ [pg]) @ rs) ps' s'"
    using building_grow [OF B1 m(1,3)] qs T(3) by auto
  moreover have tab: "pt_tables (mem s') d = pt_tables (mem s) d \<union> set rs" using m(3) T(3) by (simp add: pt_grows_def)
  moreover have "set ((qs @ [pg]) @ rs) = insert d (pt_tables (mem s') d \<union> set (fs @ [pg]))" using qs tab by auto
  moreover have new: "distinct (fs @ [pg])" "set (fs @ [pg]) \<inter> insert d (pt_tables (mem s') d) = {}"
  proof -
    have "distinct fs" "set fs \<inter> insert d (pt_tables (mem s) d) = {}" using C by (auto simp: cloned_def)
    moreover have "pg \<notin> set qs" "set qs \<inter> set rs = {}" "pg \<notin> set rs" using ps0 by auto
    ultimately show "distinct (fs @ [pg])" "set (fs @ [pg]) \<inter> insert d (pt_tables (mem s') d) = {}"
      using qs tab by auto
  qed
  moreover have "pt_entry (mem s') d w = (if vpn w < length (fs @ [pg])
      then Some (V2P ((fs @ [pg]) ! vpn w) OR PTE_FLAGS (the (pt_entry (mem s0) pgdir w)) OR PTE_P)
      else kernel_entry (kdata s0) w)" for w
  proof (cases "vpn w = vpn v")
    case True
    then show ?thesis using e v pt_entry_vpn [OF True, of "mem s0" pgdir] by simp
  next
    case False
    then have "pt_entry (mem s') d w = pt_entry (mem s) d w" using e T(2) by simp
    then show ?thesis using C False v by (simp add: cloned_def nth_append)
  qed
  moreover have "mem s' ((fs @ [pg]) ! vpn w + x) = mem s0 (frame (mem s0) pgdir w + x)"
    if w: "vpn w < length (fs @ [pg])" and x: "unat x < 4096" for w x
  proof -
    let ?f = "(fs @ [pg]) ! vpn w"
    have f: "?f \<in> set (fs @ [pg])" using w by (intro nth_mem)
    then have "?f \<in> set ps0" using qs ps0(1) by auto
    then have al: "page_aligned ?f" using K by (auto simp: kalloc_inv_def)
    have "?f \<notin> insert d (pt_tables (mem s') d)" using f new(2) by blast
    then have "same_page ?f (mem s1) (mem s')" using m(3) al by (simp add: pt_grows_def)
    then have "mem s' (?f + x) = mem s1 (?f + x)" using x by (simp add: same_page_def)
    also have "\<dots> = mem s0 (frame (mem s0) pgdir w + x)"
    proof (cases "vpn w = length fs")
      case True
      then have "mem s1 (?f + x) = mem s (?q + x)" using T(5) [OF x] by simp
      moreover have "same_page ?q (mem s0) (mem s)" using B q ps0(1) by (auto simp: building_def)
      ultimately show ?thesis using x frame_vpn [of w v] True v by (simp add: same_page_def)
    next
      case False
      then have f: "?f = fs ! vpn w" "vpn w < length fs" using w by (auto simp: nth_append)
      have "?f \<noteq> pg" using f new(1) by auto
      then have "mem s1 (?f + x) = mem s (?f + x)" using T(4) [OF al] x by (simp add: same_page_def)
      then show ?thesis using C f x by (simp add: cloned_def)
    qed
    finally show ?thesis .
  qed
  ultimately show ?thesis using m(2) unfolding cloned_def by blast
qed

lemma copyuvm_turn:
  assumes C: "cloned ps0 s0 pgdir d fs ps s" and U: "user_mapped ps0 s0 pgdir n" and "length fs < n" "n \<le> 524288"
    and len: "1025 + n < length ps0"
  obtains pg ps' s' where "copyuvm_loop pgdir d (of_nat (length fs) * PGSIZE # is) s = copyuvm_loop pgdir d is s'"
    "cloned ps0 s0 pgdir d (fs @ [pg]) ps' s'"
proof -
  define v where "v = (of_nat (length fs) * PGSIZE :: u32)"
  have v: "vpn v = length fs" "page_aligned v" using vpn_page [of "length fs"] assms(3,4) by (auto simp: v_def page_aligned_unat)
  have "vpn v < n" using v(1) assms(3) by simp
  then obtain e where e: "pt_entry (mem s0) pgdir v = Some e" and q: "frame (mem s0) pgdir v \<notin> set ps0"
    and W0: "pt_wf ps0 pgdir s0" using U unfolding user_mapped_def by blast
  from C obtain qs where B: "building ps0 s0 qs ps s" and qs: "set qs = insert d (pt_tables (mem s) d \<union> set fs)"
    and W: "pt_wf ps d s" unfolding cloned_def by blast
  have K: "kalloc_inv ps s" "kmem_unlocked s" "kalloc_inv ps0 s0" using W W0 by (auto simp: pt_wf_def)
  then have end1: "KERNLINK \<le> kend s" by (simp add: kalloc_inv_def)
  have "pt_entry (mem s) pgdir v = Some e" using building_parent [OF B W0] e by simp
  from walkpgdir_find [OF this building_table [OF B W0] end1] e obtain pte where
    w: "walkpgdir pgdir v False s = Inr (pte, s)" "pte \<noteq> 0" "get32 (mem s) pte = e" "e AND PTE_P \<noteq> 0" by auto
  have "ps \<noteq> []" using building_room [OF B qs] len assms(3) by auto
  then obtain pg ps1 where ps: "ps = pg # ps1" by (cases ps) auto
  let ?q = "frame (mem s0) pgdir v"
  define s1 where "s1 = s\<lparr>freelist := get32 (mem s) pg, mem := memmove (mem s) pg ?q PGSIZE\<rparr>"
  have "?q \<noteq> pg" using q B ps by (auto simp: building_def)
  note T = take_page_wf [OF W [unfolded ps] frame_aligned this, folded s1_def]
  have free: "pt_entry (mem s1) d w = None" if "vpn w = vpn v" for w
    using C that v(1) assms(3,4) T(2) user_page_unmapped [of w] by (simp add: cloned_def)
  have "vpn v < 1048576" using v(1) assms(3,4) by simp
  note mp = map_page [OF T(1) this free v(2), of "V2P pg" "PTE_FLAGS e"]
  obtain r rs ps' s' where
    m: "mappages d v PGSIZE (V2P pg) (PTE_FLAGS e) s1 = Inr (r, s')" "ps1 = rs @ ps'" "pt_wf ps' d s'" "pt_grows rs d s1 s'"
      "ps' \<noteq> [] \<longrightarrow> r = 0"
      "r = 0 \<longrightarrow> (\<forall>w. pt_entry (mem s') d w = (if vpn w = vpn v then Some (V2P pg OR PTE_FLAGS e OR PTE_P) else pt_entry (mem s1) d w))"
    by (rule mp)
  have B1: "building ps0 s0 (qs @ [pg]) ps1 s1" using building_take [OF B [unfolded ps] s1_def T(4)] by blast
  have B2: "building ps0 s0 ((qs @ [pg]) @ rs) ps' s'" using building_grow [OF B1 m(2,4)] qs T(3) by auto
  have "set ((qs @ [pg]) @ rs) = insert d (pt_tables (mem s') d \<union> set (fs @ [pg]))"
    using qs m(4) T(3) by (auto simp: pt_grows_def)
  from building_room [OF B2 this] have "ps' \<noteq> []" using len assms(3) by auto
  with m(5,6) have r: "r = 0" and ent: "\<forall>w. pt_entry (mem s') d w =
    (if vpn w = vpn v then Some (V2P pg OR PTE_FLAGS e OR PTE_P) else pt_entry (mem s1) d w)" by auto
  have "cloned ps0 s0 pgdir d (fs @ [pg]) ps' s'"
    using cloned_extend [OF C [unfolded ps] v(1) s1_def q K(3) m(2-4)] ent e by simp
  moreover have "copyuvm_loop pgdir d (v # is) s = copyuvm_loop pgdir d is s'"
    using w m(1) r kalloc_cons [OF K(1) [unfolded ps] K(2)] e by (auto simp: frame_def s1_def Let_def)
  ultimately show ?thesis using that unfolding v_def by blast
qed

lemma copyuvm_loop_clones:
  assumes "user_mapped ps0 s0 pgdir n" and "n \<le> 524288" and "1025 + n < length ps0"
  shows "cloned ps0 s0 pgdir d fs ps s \<Longrightarrow> length fs + k = n \<Longrightarrow>
    \<exists>fs' ps' s'. copyuvm_loop pgdir d (map (\<lambda>i. of_nat i * PGSIZE) [length fs..<n]) s = Inr (d, s') \<and>
      length fs' = n \<and> cloned ps0 s0 pgdir d fs' ps' s'"
proof (induction k arbitrary: fs ps s)
  case (Suc k)
  then have "length fs < n" by simp
  from copyuvm_turn [OF Suc.prems(1) assms(1) this assms(2,3)] obtain pg ps' s' where
    t: "copyuvm_loop pgdir d (of_nat (length fs) * PGSIZE # map (\<lambda>i. of_nat i * PGSIZE) [Suc (length fs)..<n]) s =
       copyuvm_loop pgdir d (map (\<lambda>i. of_nat i * PGSIZE) [Suc (length fs)..<n]) s'"
       "cloned ps0 s0 pgdir d (fs @ [pg]) ps' s'" by blast
  from Suc.IH [OF t(2)] Suc.prems(2) t(1) \<open>length fs < n\<close> show ?case by (simp add: upt_conv_Cons)
qed auto

section \<open>The copy\<close>

lemma cloned_start:
  assumes "building ps s (d # ts) ps' s'" and "pt_wf ps' d s'" and "pt_tables (mem s') d = set ts"
    and "\<And>v. pt_entry (mem s') d v = kernel_entry (kdata s) v"
  shows "cloned ps s pgdir d [] ps' s'"
  using assms unfolding cloned_def by auto

lemma page_below:
  assumes "vpn v < (unat sz + 4095) div 4096"
  shows "PGROUNDDOWN v < sz"
proof -
  have "Suc (vpn v) * 4096 \<le> unat sz + 4095" using assms by (simp add: less_eq_div_iff_mult_less_eq flip: Suc_le_eq)
  then show ?thesis using vpn_round(2) [of v] by (simp add: word_less_nat_alt)
qed

lemma cloned_frame:
  assumes C: "cloned ps s pgdir d fs ps' s'" and K: "kalloc_inv ps s" and v: "vpn v < length fs" and "pt_entry (mem s) pgdir v = Some e"
  shows "\<exists>e'. pt_entry (mem s') d v = Some e' \<and> PTE_FLAGS e' = PTE_FLAGS e" "frame (mem s') d v = fs ! vpn v"
    "fs ! vpn v \<in> set ps"
proof -
  from C obtain qs where B: "building ps s qs ps' s'" "set fs \<subseteq> set qs" unfolding cloned_def by blast
  moreover have "fs ! vpn v \<in> set fs" using v by simp
  ultimately show f: "fs ! vpn v \<in> set ps" by (auto simp: building_def)
  then have k: "kfree_ok (kend s) (fs ! vpn v)" "KERNLINK \<le> kend s" using K by (auto simp: kalloc_inv_def)
  have p: "e AND PTE_P \<noteq> 0" using assms(4) by (auto simp: pt_entry_def Let_def split: if_splits)
  have "pt_entry (mem s') d v = Some (V2P (fs ! vpn v) OR PTE_FLAGS e OR PTE_P)" using C v assms(4) by (simp add: cloned_def)
  then show "\<exists>e'. pt_entry (mem s') d v = Some e' \<and> PTE_FLAGS e' = PTE_FLAGS e" "frame (mem s') d v = fs ! vpn v"
    using flags_kept [OF kernel_page(2) [OF k] p] kernel_page(1) [OF k] by (simp_all add: frame_def)
qed

text \<open>C11. \<open>copyuvm\<close> gives the child its own copy of the parent's memory: if the parent's pages below \<open>sz\<close> are mapped and
  there are free pages for them and for the tables, it returns a new directory in which every user page has
  the parent's permissions and the parent's contents, in a page that was free before and that no other
  page of the child uses.  Above, the child maps what the kernel maps in every process.  The parent's
  mappings stay as they were, and no page that was in use is written.\<close>

theorem copyuvm_copies:
  assumes "pt_wf ps pgdir s" and "page_aligned (kdata s)" and "KERNLINK < kdata s" and "kdata s < P2V PHYSTOP"
    and "sz \<le> KERNBASE" and "1025 + (unat sz + 4095) div 4096 < length ps"
    and "\<forall>v. v < sz \<longrightarrow> pt_entry (mem s) pgdir v \<noteq> None \<and> frame (mem s) pgdir v \<notin> set ps"
  shows "\<exists>d ps' s'. copyuvm pgdir sz s = Inr (d, s') \<and> d \<noteq> 0 \<and> pt_wf ps' d s' \<and>
    (\<forall>v. v < sz \<longrightarrow> (\<exists>e e'. pt_entry (mem s) pgdir v = Some e \<and> pt_entry (mem s') d v = Some e' \<and> PTE_FLAGS e' = PTE_FLAGS e) \<and>
      frame (mem s') d v \<in> set ps \<and>
      (\<forall>x. unat x < 4096 \<longrightarrow> mem s' (frame (mem s') d v + x) = mem s (frame (mem s) pgdir v + x)) \<and>
      (\<forall>w. w < sz \<longrightarrow> frame (mem s') d w = frame (mem s') d v \<longrightarrow> unat w div 4096 = unat v div 4096)) \<and>
    (\<forall>v. (unat sz + 4095) div 4096 \<le> unat v div 4096 \<longrightarrow> pt_entry (mem s') d v = kernel_entry (kdata s) v) \<and>
    (\<forall>v. pt_entry (mem s') pgdir v = pt_entry (mem s) pgdir v) \<and>
    (\<forall>q. page_aligned q \<longrightarrow> q \<notin> set ps \<longrightarrow> same_page q (mem s) (mem s'))"
proof -
  let ?n = "(unat sz + 4095) div 4096"
  have K: "kalloc_inv ps s" "kmem_unlocked s" using assms(1) by (auto simp: pt_wf_def)
  have D: "kdata_ok s" using assms(2-4) by (simp add: kdata_ok_def)
  have n: "?n \<le> 524288" using assms(5) by (simp add: KERNBASE_def word_le_nat_alt)
  have U: "user_mapped ps s pgdir ?n" unfolding user_mapped_def
  proof (intro conjI allI impI assms(1))
    fix v assume "vpn v < ?n"
    then have "PGROUNDDOWN v < sz" by (rule page_below)
    with assms(7) have "pt_entry (mem s) pgdir (PGROUNDDOWN v) \<noteq> None \<and> frame (mem s) pgdir (PGROUNDDOWN v) \<notin> set ps" by blast
    then show "pt_entry (mem s) pgdir v \<noteq> None" "frame (mem s) pgdir v \<notin> set ps"
      using pt_entry_vpn [OF vpn_round(1) [of v], of "mem s" pgdir] frame_vpn [OF vpn_round(1) [of v], of "mem s" pgdir] by auto
  qed
  have "1025 < length ps" using assms(6) by simp
  from setupkvm_built [OF K this D] obtain d ts ps1 s1 where b: "setupkvm s = Inr (d, s1)" "d \<noteq> 0" "pt_wf ps1 d s1"
      "building ps s (d # ts) ps1 s1" "pt_tables (mem s1) d = set ts" "\<And>v. pt_entry (mem s1) d v = kernel_entry (kdata s) v"
    by metis
  have "cloned ps s pgdir d [] ps1 s1" by (rule cloned_start [OF b(4,3,5,6)])
  from copyuvm_loop_clones [OF U n assms(6) this] obtain fs ps' s' where
    L: "copyuvm_loop pgdir d (map (\<lambda>i. of_nat i * PGSIZE) [0..<?n]) s1 = Inr (d, s')" "length fs = ?n"
      "cloned ps s pgdir d fs ps' s'" by auto
  then obtain qs where B: "building ps s qs ps' s'" unfolding cloned_def by blast
  have "copyuvm pgdir sz s = Inr (d, s')" using b(1,2) L(1) by (simp add: copyuvm_def page_steps_def)
  moreover have "pt_wf ps' d s'" using L(3) by (simp add: cloned_def)
  moreover have "(\<exists>e e'. pt_entry (mem s) pgdir v = Some e \<and> pt_entry (mem s') d v = Some e' \<and> PTE_FLAGS e' = PTE_FLAGS e) \<and>
      frame (mem s') d v \<in> set ps \<and>
      (\<forall>x. unat x < 4096 \<longrightarrow> mem s' (frame (mem s') d v + x) = mem s (frame (mem s) pgdir v + x)) \<and>
      (\<forall>w. w < sz \<longrightarrow> frame (mem s') d w = frame (mem s') d v \<longrightarrow> unat w div 4096 = unat v div 4096)"
    if "v < sz" for v
  proof -
    have lt: "vpn w < length fs" "\<exists>e. pt_entry (mem s) pgdir w = Some e" if "w < sz" for w
      using that assms(7) unfolding L(2) by (auto simp: vpn_def word_less_nat_alt)
    note F = cloned_frame [OF L(3) K(1) lt(1)]
    from lt(2) [OF that] obtain e where e: "pt_entry (mem s) pgdir v = Some e" by blast
    have "fs ! vpn w = fs ! vpn v \<Longrightarrow> vpn w = vpn v" if "w < sz" for w
      using L(3) lt(1) [OF that] lt(1) [OF \<open>v < sz\<close>] by (simp add: cloned_def nth_eq_iff_index_eq)
    then have "\<forall>w. w < sz \<longrightarrow> frame (mem s') d w = frame (mem s') d v \<longrightarrow> unat w div 4096 = unat v div 4096"
      using F(2) [OF that e] F(2) lt(2) unfolding vpn_def by metis
    moreover have "\<forall>x. unat x < 4096 \<longrightarrow> mem s' (frame (mem s') d v + x) = mem s (frame (mem s) pgdir v + x)"
      using F(2) [OF that e] L(3) lt(1) [OF that] by (simp add: cloned_def)
    ultimately show ?thesis using F [OF that e] e by auto
  qed
  moreover have "pt_entry (mem s') d v = kernel_entry (kdata s) v" if "(unat sz + 4095) div 4096 \<le> unat v div 4096" for v
  proof -
    have "\<not> vpn v < length fs" unfolding L(2) vpn_def using that by simp
    then show ?thesis using L(3) by (simp add: cloned_def)
  qed
  moreover have "\<forall>v. pt_entry (mem s') pgdir v = pt_entry (mem s) pgdir v" using building_parent [OF B assms(1)] by blast
  moreover have "\<forall>q. page_aligned q \<longrightarrow> q \<notin> set ps \<longrightarrow> same_page q (mem s) (mem s')" using B by (auto simp: building_def)
  ultimately show ?thesis using b(2) by (intro exI [of _ d] exI [of _ ps'] exI [of _ s'] conjI) blast+
qed

text \<open>A process with one page, at \<open>0x80202000\<close>, whose first byte is 42.\<close>

definition one_page :: kern where
  "one_page = (kern_bss (\<lambda>_ _. 0))\<lparr>mem := put32 (put32 ((\<lambda>_. 0)(0x80202000 := 42)) 0x80200000 0x201007) 0x80201000 0x202007\<rparr>"

lemma one_page_dir:
  assumes "i < 1024"
  shows "get32 (mem one_page) (0x80200000 + 4 * i) = (if i = 0 then 0x201007 else 0)"
proof -
  let ?m = "(\<lambda>_. 0)(0x80202000 := 42) :: memory"
  have al: "page_aligned 0x80200000" "page_aligned 0x80201000" "page_aligned 0x80202000" by (simp_all add: page_aligned_unat)
  have "get32 (mem one_page) (0x80200000 + 4 * i) = get32 (put32 ?m 0x80200000 0x201007) (0x80200000 + 4 * i)"
    using get32_put32_page [OF al(2,1) _ assms, of 0] by (simp add: one_page_def)
  also have "\<dots> = (if i = 0 then 0x201007 else 0)"
  proof (cases "i = 0")
    case False
    have s: "same_page 0x80200000 (\<lambda>_. 0) ?m" unfolding same_page_def using page_disjoint [OF al(1,3)] by fastforce
    have "get32 ?m (0x80200000 + 4 * i) = get32 (\<lambda>_. 0) (0x80200000 + 4 * i)"
      by (rule get32_page [OF s]) (use slot_unat [OF assms] in simp)
    then show ?thesis using get32_put32_page [OF al(1,1) _ assms, of 0] False by (simp add: get32_def le32_def)
  qed simp
  finally show ?thesis .
qed

lemma one_page_tables:
  "pde_used (mem one_page) 0x80200000 = {0}" "pt_tables (mem one_page) 0x80200000 = {0x80201000}"
proof -
  show u: "pde_used (mem one_page) 0x80200000 = {0}"
    using one_page_dir one_page_dir [of 0] by (auto simp: pde_used_def pde_present_def PTE_P_def split: if_splits)
  show "pt_tables (mem one_page) 0x80200000 = {0x80201000}"
    using one_page_dir [of 0] by (simp add: pt_tables_def u pde_table_def P2V_def PTE_ADDR_def KERNBASE_def)
qed

lemma one_page_entry: "vpn v = 0 \<Longrightarrow> pt_entry (mem one_page) 0x80200000 v = Some 0x202007"
proof -
  assume "vpn v = 0"
  then have "vpn v = vpn 0" by (simp add: vpn_def)
  from pt_entry_vpn [OF this] have "pt_entry (mem one_page) 0x80200000 v = pt_entry (mem one_page) 0x80200000 0" .
  also have "\<dots> = Some 0x202007"
    using one_page_dir [of 0] get32_put32_same [of "put32 ((\<lambda>_. 0)(0x80202000 := 42)) 0x80200000 0x201007" "0x80201000" "0x202007"]
    by (simp add: pt_entry_def pde_present_def pde_table_def PDX_def PTX_def PTE_P_def P2V_def PTE_ADDR_def KERNBASE_def one_page_def)
  finally show ?thesis .
qed

definition fork_state :: kern where
  "fork_state = free_run one_page 1027"

lemma fork_state_ok:
  "pt_wf (rev (map run_page [0..<1027])) 0x80200000 fork_state" "kdata fork_state = 0x80108000"
  "vpn v = 0 \<Longrightarrow> pt_entry (mem fork_state) 0x80200000 v = Some 0x202007" "mem fork_state 0x80202000 = 42"
proof -
  have K: "kalloc_inv [] one_page" "kmem_unlocked one_page" "kend one_page \<le> 0x80400000"
    by (simp_all add: one_page_def kalloc_inv_def kmem_unlocked_def kern_bss_def KERNLINK_def KERNBASE_def EXTMEM_def)
  have "1027 \<le> (5000 :: nat)" by simp
  from free_run_inv [OF K this, folded fork_state_def] obtain m f where
    s: "kalloc_inv (rev (map run_page [0..<1027])) fork_state" "fork_state = one_page\<lparr>mem := m, freelist := f\<rparr>"
      "\<forall>q. page_aligned q \<longrightarrow> q < 0x80400000 \<longrightarrow> same_page q (mem one_page) (mem fork_state)" by blast
  have al: "page_aligned 0x80200000" "page_aligned 0x80201000" "page_aligned 0x80202000" by (simp_all add: page_aligned_unat)
  have S: "same_page 0x80200000 (mem one_page) (mem fork_state)" "same_page 0x80201000 (mem one_page) (mem fork_state)"
    "same_page 0x80202000 (mem one_page) (mem fork_state)" using s(3) al by simp_all
  have E: "pt_entry (mem fork_state) 0x80200000 v = pt_entry (mem one_page) 0x80200000 v"
    "pt_tables (mem fork_state) 0x80200000 = pt_tables (mem one_page) 0x80200000" for v
    using pt_entry_same [OF al(1) S(1)] S(2) al one_page_tables(2) by auto
  show "kdata fork_state = 0x80108000" by (simp add: s(2) one_page_def kern_bss_def)
  show "vpn v = 0 \<Longrightarrow> pt_entry (mem fork_state) 0x80200000 v = Some 0x202007" by (simp add: E one_page_entry)
  have "mem one_page 0x80202000 = 42" by (simp add: one_page_def put32_def)
  then show "mem fork_state 0x80202000 = 42" using S(3) by (auto simp: same_page_def dest: spec [of _ 0])
  have "kend fork_state = 0x80115000" "kmem_unlocked fork_state"
    by (simp_all add: s(2) one_page_def kern_bss_def kmem_unlocked_def)
  moreover have far: "0x80200000 \<notin> set (rev (map run_page [0..<1027]))" "0x80201000 \<notin> set (rev (map run_page [0..<1027]))"
  proof -
    have "unat (run_page i) \<ge> 2151677952" if "i < 1027" for i using that by (simp add: run_page_unat)
    then show "0x80200000 \<notin> set (rev (map run_page [0..<1027]))" "0x80201000 \<notin> set (rev (map run_page [0..<1027]))"
      by fastforce+
  qed
  moreover have "pde_used (mem fork_state) 0x80200000 = {0}"
  proof -
    have "get32 (mem fork_state) (0x80200000 + 4 * i) = get32 (mem one_page) (0x80200000 + 4 * i)" if "i < 1024" for i
      using slot_unat [OF that] by (intro get32_page [OF S(1)]) simp
    then have "pde_used (mem fork_state) 0x80200000 = pde_used (mem one_page) 0x80200000"
      by (auto simp: pde_used_def pde_present_def)
    then show ?thesis by (simp add: one_page_tables)
  qed
  ultimately show "pt_wf (rev (map run_page [0..<1027])) 0x80200000 fork_state"
    using s(1) by (simp add: pt_wf_def E one_page_tables(2) kfree_ok_def PGSIZE_def V2P_def KERNBASE_def PHYSTOP_def)
qed

theorem copyuvm_copies_witness:
  "\<exists>d s'. copyuvm 0x80200000 100 fork_state = Inr (d, s') \<and> d \<noteq> 0 \<and> mem s' (frame (mem s') d 0) = 42 \<and>
     frame (mem s') d 0 \<in> run_page ` {..<1027} \<and> pt_entry (mem s') 0x80200000 0 = Some 0x202007"
proof -
  let ?ps = "rev (map run_page [0..<1027])"
  have kd: "page_aligned (kdata fork_state)" "KERNLINK < kdata fork_state" "kdata fork_state < P2V PHYSTOP"
    by (simp_all add: fork_state_ok(2) page_aligned_unat KERNLINK_def KERNBASE_def EXTMEM_def P2V_def PHYSTOP_def)
  have sz: "(100 :: u32) \<le> KERNBASE" "1025 + (unat (100 :: u32) + 4095) div 4096 < length ?ps" by (simp_all add: KERNBASE_def)
  have low: "vpn v = 0" if "v < 100" for v :: u32 using that by (simp add: vpn_def word_less_nat_alt)
  have f: "frame (mem fork_state) 0x80200000 v = 0x80202000" if "v < 100" for v
    using fork_state_ok(3) [OF low [OF that]] by (simp add: frame_def P2V_def PTE_ADDR_def KERNBASE_def)
  have "unat (run_page i) \<ge> 2151677952" if "i < 1027" for i using that by (simp add: run_page_unat)
  then have "0x80202000 \<notin> set ?ps" by fastforce
  with f fork_state_ok(3) low have
    "\<forall>v. v < 100 \<longrightarrow> pt_entry (mem fork_state) 0x80200000 v \<noteq> None \<and> frame (mem fork_state) 0x80200000 v \<notin> set ?ps" by auto
  from copyuvm_copies [OF fork_state_ok(1) kd sz this] obtain d s' where r: "copyuvm 0x80200000 100 fork_state = Inr (d, s')" "d \<noteq> 0"
      "\<forall>v. v < 100 \<longrightarrow> frame (mem s') d v \<in> set ?ps \<and>
        (\<forall>x. unat x < 4096 \<longrightarrow> mem s' (frame (mem s') d v + x) = mem fork_state (frame (mem fork_state) 0x80200000 v + x))"
      "\<forall>v. pt_entry (mem s') 0x80200000 v = pt_entry (mem fork_state) 0x80200000 v" by blast
  have "(0 :: u32) < 100" by simp
  note page0 = r(3) [rule_format, OF this]
  have "mem s' (frame (mem s') d 0 + 0) = mem fork_state (frame (mem fork_state) 0x80200000 0 + 0)"
    using page0 by (auto dest: spec [of _ 0])
  then have "mem s' (frame (mem s') d 0) = 42" using f [of 0] fork_state_ok(4) by simp
  moreover have "frame (mem s') d 0 \<in> run_page ` {..<1027}"
    using page0 by (simp add: atLeast0LessThan)
  moreover have "pt_entry (mem s') 0x80200000 0 = Some 0x202007" using r(4) fork_state_ok(3) [of 0] by (simp add: vpn_def)
  ultimately show ?thesis using r(1,2) by blast
qed

end
