(* ===== verification/User.thy ===== *)
theory User
  imports Console
begin

text \<open>
  The library of the user programs (\<open>ulib.c\<close>, \<open>printf.c\<close>) and its interface to the kernel (\<open>user.h\<close>).
  A program runs in a world \<open>'w\<close> that the system calls change; the calls are a record of functions
  on it, so that every program is a function of the kernel it runs on.  The result of a piece of
  a program is \<open>None\<close> when a loop of it never ends, \<open>Exited\<close> when it ended with \<open>exit\<close> (or replaced itself
  with \<open>exec\<close>), \<open>Fault\<close> when it read past its arguments, and else the returned value.
  A C string that is only read is the list of its bytes before the terminating zero; an
  array that is written is a function from the index.
\<close>

section \<open>System calls\<close>

record ustat =
  us_type :: u16
  us_dev :: u32
  us_ino :: u32
  us_nlink :: u16
  us_size :: u32

text \<open>\<open>u_read fd n\<close> yields the bytes that were stored, or \<open>None\<close> when the call returns -1; a call that may
  fail yields a negative number then, \<open>u_exec\<close> yields \<open>None\<close> when it does not return.\<close>

record 'w sysops =
  u_fork :: "'w \<Rightarrow> int \<times> 'w"
  u_wait :: "'w \<Rightarrow> int \<times> 'w"
  u_pipe :: "'w \<Rightarrow> (int \<times> int) option \<times> 'w"
  u_write :: "int \<Rightarrow> u8 list \<Rightarrow> 'w \<Rightarrow> int \<times> 'w"
  u_read :: "int \<Rightarrow> nat \<Rightarrow> 'w \<Rightarrow> u8 list option \<times> 'w"
  u_close :: "int \<Rightarrow> 'w \<Rightarrow> int \<times> 'w"
  u_kill :: "int \<Rightarrow> 'w \<Rightarrow> int \<times> 'w"
  u_exec :: "u8 list \<Rightarrow> u8 list list \<Rightarrow> 'w \<Rightarrow> int option \<times> 'w"
  u_open :: "u8 list \<Rightarrow> u32 \<Rightarrow> 'w \<Rightarrow> int \<times> 'w"
  u_mknod :: "u8 list \<Rightarrow> u16 \<Rightarrow> u16 \<Rightarrow> 'w \<Rightarrow> int \<times> 'w"
  u_unlink :: "u8 list \<Rightarrow> 'w \<Rightarrow> int \<times> 'w"
  u_fstat :: "int \<Rightarrow> 'w \<Rightarrow> ustat option \<times> 'w"
  u_link :: "u8 list \<Rightarrow> u8 list \<Rightarrow> 'w \<Rightarrow> int \<times> 'w"
  u_mkdir :: "u8 list \<Rightarrow> 'w \<Rightarrow> int \<times> 'w"
  u_chdir :: "u8 list \<Rightarrow> 'w \<Rightarrow> int \<times> 'w"
  u_dup :: "int \<Rightarrow> 'w \<Rightarrow> int \<times> 'w"
  u_sleep :: "int \<Rightarrow> 'w \<Rightarrow> int \<times> 'w"

section \<open>Results of programs\<close>

datatype ('a, 'w) ures = Ret 'a 'w | Exited 'w | Fault

type_synonym ('a, 'w) uprog = "('a, 'w) ures option"

definition ubind :: "('a, 'w) uprog \<Rightarrow> ('a \<Rightarrow> 'w \<Rightarrow> ('b, 'w) uprog) \<Rightarrow> ('b, 'w) uprog" where
  "ubind m f = Option.bind m (\<lambda>r. case r of Ret a w \<Rightarrow> f a w | Exited w \<Rightarrow> Some (Exited w) | Fault \<Rightarrow> Some Fault)"

definition uret :: "'a \<Rightarrow> 'w \<Rightarrow> ('a, 'w) uprog" where
  "uret a w = Some (Ret a w)"

definition uexit :: "'w \<Rightarrow> ('a, 'w) uprog" where
  "uexit w = Some (Exited w)"

lemma ubind_simps [simp]:
  "ubind None f = None" "ubind (Some (Ret a w)) f = f a w" "ubind (Some (Exited w)) f = Some (Exited w)"
  "ubind (Some Fault) f = Some Fault" "ubind (uret a w) f = f a w" "ubind (uexit w) f = uexit w"
  by (simp_all add: ubind_def uret_def uexit_def)

lemma uret_inject [simp]: "uret a w = uret b v \<longleftrightarrow> a = b \<and> w = v"
  by (simp add: uret_def)

lemma ubind_cong [fundef_cong]:
  assumes "m = m'" and "\<And>a w. m' = Some (Ret a w) \<Longrightarrow> f a w = f' a w"
  shows "ubind m f = ubind m' f'"
  using assms by (auto simp: ubind_def split: option.splits ures.splits bind_splits)

lemma ubind_assoc: "ubind (ubind m f) g = ubind m (\<lambda>a w. ubind (f a w) g)"
  by (auto simp: ubind_def split: option.splits ures.splits bind_splits)

lemma ubind_mono [partial_function_mono]:
  assumes "mono_option B" and "\<And>a w. mono_option (\<lambda>f. C a w f)"
  shows "mono_option (\<lambda>f. ubind (B f) (\<lambda>a w. C a w f))"
  unfolding ubind_def
proof (rule bind_mono [OF assms(1)])
  fix r
  show "mono_option (\<lambda>f. case r of Ret a w \<Rightarrow> C a w f | Exited w \<Rightarrow> Some (Exited w) | Fault \<Rightarrow> Some Fault)"
    by (cases r) (simp_all add: assms(2) option.const_mono)
qed

section \<open>Strings\<close>

text \<open>The loops over a string end at its zero byte; without one they read on for ever.\<close>

partial_function (option) strcpy_at :: "block \<Rightarrow> block \<Rightarrow> nat \<Rightarrow> block option" where
  "strcpy_at s t i = (let s = s(i := t i) in if t i \<noteq> 0 then strcpy_at s t (Suc i) else Some s)"

definition strcpy :: "block \<Rightarrow> block \<Rightarrow> block option" where
  "strcpy s t = strcpy_at s t 0"

fun strcmp :: "u8 list \<Rightarrow> u8 list \<Rightarrow> int" where
  "strcmp [] [] = 0"
| "strcmp [] (b # q) = - uint b"
| "strcmp (a # p) [] = uint a"
| "strcmp (a # p) (b # q) = (if a = b then strcmp p q else uint a - uint b)"

partial_function (option) strlen_loop :: "block \<Rightarrow> nat \<Rightarrow> nat option" where
  "strlen_loop s n = (if s n \<noteq> 0 then strlen_loop s (Suc n) else Some n)"

definition strlen_u :: "block \<Rightarrow> nat \<Rightarrow> nat option" where
  "strlen_u s i = map_option (\<lambda>n. n - i) (strlen_loop s i)"

text \<open>The string that starts at index \<open>i\<close> of an array.\<close>

definition str_at :: "block \<Rightarrow> nat \<Rightarrow> u8 list option" where
  "str_at s i = map_option (\<lambda>n. map s [i..<n]) (strlen_loop s i)"

fun memset_u :: "block \<Rightarrow> nat \<Rightarrow> u8 \<Rightarrow> nat \<Rightarrow> block" where
  "memset_u s i c 0 = s"
| "memset_u s i c (Suc n) = memset_u (s(i := c)) (Suc i) c n"

partial_function (option) strchr_at :: "block \<Rightarrow> nat \<Rightarrow> u8 \<Rightarrow> nat option option" where
  "strchr_at s i c =
     (if s i = 0 then Some None else if s i = c then Some (Some i) else strchr_at s (Suc i) c)"

text \<open>\<open>strchr\<close> on a constant string, where only whether it finds the character is used.\<close>

fun strchr :: "u8 list \<Rightarrow> u8 \<Rightarrow> bool" where
  "strchr [] c = False"
| "strchr (a # s) c = (a = c \<or> strchr s c)"

fun gets_loop :: "'w sysops \<Rightarrow> block \<Rightarrow> nat \<Rightarrow> nat \<Rightarrow> 'w \<Rightarrow> block \<times> 'w" where
  "gets_loop ops buf i 0 w = (buf(i := 0), w)"
| "gets_loop ops buf i (Suc k) w =
     (case u_read ops 0 1 w of
        (Some (c # _), w) \<Rightarrow>
          (let buf = buf(i := c) in
           if c = 10 \<or> c = 13 then (buf(Suc i := 0), w) else gets_loop ops buf (Suc i) k w)
      | (_, w) \<Rightarrow> (buf(i := 0), w))"

definition gets :: "'w sysops \<Rightarrow> block \<Rightarrow> nat \<Rightarrow> 'w \<Rightarrow> block \<times> 'w" where
  "gets ops buf mx w = gets_loop ops buf 0 (mx - 1) w"

definition stat_u :: "'w sysops \<Rightarrow> u8 list \<Rightarrow> 'w \<Rightarrow> ustat option \<times> 'w" where
  "stat_u ops n w =
     (let (fd, w) = u_open ops n 0 w in
      if fd < 0 then (None, w)
      else let (r, w) = u_fstat ops fd w; (_, w) = u_close ops fd w in (r, w))"

fun atoi_loop :: "u32 \<Rightarrow> u8 list \<Rightarrow> u32" where
  "atoi_loop n [] = n"
| "atoi_loop n (c # s) =
     (if 48 \<le> sint c \<and> sint c \<le> 57 then atoi_loop (n * 10 + scast c - 48) s else n)"

definition atoi :: "u8 list \<Rightarrow> u32" where
  "atoi s = atoi_loop 0 s"

text \<open>The user's \<open>memmove\<close> copies upwards, whatever the overlap.\<close>

fun memmove_u :: "block \<Rightarrow> nat \<Rightarrow> nat \<Rightarrow> nat \<Rightarrow> block" where
  "memmove_u s d f 0 = s"
| "memmove_u s d f (Suc n) = memmove_u (s(d := s f)) (Suc d) (Suc f) n"

section \<open>Formatted output\<close>

definition putc :: "'w sysops \<Rightarrow> int \<Rightarrow> u8 \<Rightarrow> 'w \<Rightarrow> 'w" where
  "putc ops fd c w = snd (u_write ops fd [c] w)"

fun puts :: "'w sysops \<Rightarrow> int \<Rightarrow> u8 list \<Rightarrow> 'w \<Rightarrow> 'w" where
  "puts ops fd [] w = w"
| "puts ops fd (c # s) w = puts ops fd s (putc ops fd c w)"

definition digit_u :: "u32 \<Rightarrow> u8" where
  "digit_u x = bytes ''0123456789ABCDEF'' ! unat x"

definition printint_u_buf :: "u32 \<Rightarrow> u32 \<Rightarrow> bool \<Rightarrow> u8 list" where
  "printint_u_buf xx base sg =
     (let neg = sg \<and> sint xx < 0;
          x = (if neg then - xx else xx)
      in digits_rev digit_u base x @ (if neg then bytes ''-'' else []))"

definition printint_u :: "'w sysops \<Rightarrow> int \<Rightarrow> u32 \<Rightarrow> u32 \<Rightarrow> bool \<Rightarrow> 'w \<Rightarrow> 'w" where
  "printint_u ops fd xx base sg w = puts ops fd (rev (printint_u_buf xx base sg)) w"

fun printf_loop :: "'w sysops \<Rightarrow> int \<Rightarrow> u8 list \<Rightarrow> carg list \<Rightarrow> 'w \<Rightarrow> (unit, 'w) uprog" where
  "printf_loop ops fd [] args w = uret () w"
| "printf_loop ops fd [c] args w = uret () (if c = 37 then w else putc ops fd c w)"
| "printf_loop ops fd (c # d # fmt) args w =
     (if c \<noteq> 37 then printf_loop ops fd (d # fmt) args (putc ops fd c w)
      else if d = of_char CHR ''d'' then
        (case args of
           AInt x # args \<Rightarrow> printf_loop ops fd fmt args (printint_u ops fd x 10 True w)
         | _ \<Rightarrow> Some Fault)
      else if d = of_char CHR ''x'' \<or> d = of_char CHR ''p'' then
        (case args of
           AInt x # args \<Rightarrow> printf_loop ops fd fmt args (printint_u ops fd x 16 False w)
         | _ \<Rightarrow> Some Fault)
      else if d = of_char CHR ''s'' then
        (case args of
           AStr t # args \<Rightarrow>
             printf_loop ops fd fmt args (puts ops fd (case t of None \<Rightarrow> bytes ''(null)'' | Some t \<Rightarrow> t) w)
         | _ \<Rightarrow> Some Fault)
      else if d = of_char CHR ''c'' then
        (case args of
           AInt x # args \<Rightarrow> printf_loop ops fd fmt args (putc ops fd (ucast x) w)
         | _ \<Rightarrow> Some Fault)
      else if d = 37 then printf_loop ops fd fmt args (putc ops fd d w)
      else printf_loop ops fd fmt args (putc ops fd d (putc ops fd 37 w)))"

definition printf :: "'w sysops \<Rightarrow> int \<Rightarrow> u8 list \<Rightarrow> carg list \<Rightarrow> 'w \<Rightarrow> (unit, 'w) uprog" where
  "printf ops fd fmt args w = printf_loop ops fd fmt args w"

text \<open>A string constant that ends with a newline.\<close>

definition ln :: "string \<Rightarrow> u8 list" where
  "ln s = bytes s @ [10]"

section \<open>A world with an input and an output\<close>

text \<open>The simplest world: the unread input in chunks, as a pipe or the console delivers them, and the
  output.  The calls that are not about these fail.\<close>

definition stream_ops :: "(u8 list list \<times> u8 list) sysops" where
  "stream_ops = \<lparr>u_fork = (\<lambda>w. (-1, w)), u_wait = (\<lambda>w. (-1, w)), u_pipe = (\<lambda>w. (None, w)),
     u_write = (\<lambda>fd bs (i, o1). (int (length bs), (i, o1 @ bs))),
     u_read = (\<lambda>fd n (i, o1). case dropWhile (\<lambda>c. c = []) i of
        [] \<Rightarrow> (Some [], (i, o1))
      | c # cs \<Rightarrow> (Some (take n c), (if length c \<le> n then cs else drop n c # cs, o1))),
     u_close = (\<lambda>fd w. (0, w)), u_kill = (\<lambda>pid w. (-1, w)), u_exec = (\<lambda>p a w. (Some (-1), w)),
     u_open = (\<lambda>p m w. (-1, w)), u_mknod = (\<lambda>p a b w. (-1, w)), u_unlink = (\<lambda>p w. (-1, w)),
     u_fstat = (\<lambda>fd w. (None, w)), u_link = (\<lambda>p q w. (-1, w)), u_mkdir = (\<lambda>p w. (-1, w)),
     u_chdir = (\<lambda>p w. (-1, w)), u_dup = (\<lambda>fd w. (-1, w)), u_sleep = (\<lambda>n w. (0, w))\<rparr>"

text \<open>A file is read in one piece: a read returns as many bytes as were asked for and are left.\<close>

definition file_ops :: "(u8 list \<times> u8 list) sysops" where
  "file_ops = \<lparr>u_fork = (\<lambda>w. (-1, w)), u_wait = (\<lambda>w. (-1, w)), u_pipe = (\<lambda>w. (None, w)),
     u_write = (\<lambda>fd bs (i, o1). (int (length bs), (i, o1 @ bs))),
     u_read = (\<lambda>fd n (i, o1). (Some (take n i), (drop n i, o1))),
     u_close = (\<lambda>fd w. (0, w)), u_kill = (\<lambda>pid w. (-1, w)), u_exec = (\<lambda>p a w. (Some (-1), w)),
     u_open = (\<lambda>p m w. (-1, w)), u_mknod = (\<lambda>p a b w. (-1, w)), u_unlink = (\<lambda>p w. (-1, w)),
     u_fstat = (\<lambda>fd w. (None, w)), u_link = (\<lambda>p q w. (-1, w)), u_mkdir = (\<lambda>p w. (-1, w)),
     u_chdir = (\<lambda>p w. (-1, w)), u_dup = (\<lambda>fd w. (-1, w)), u_sleep = (\<lambda>n w. (0, w))\<rparr>"

end
