(* ===== verification/Grep.thy ===== *)
theory Grep
  imports User
begin

text \<open>
  The pattern search program (\<open>grep.c\<close>): the matcher of Kernighan and Pike with its three mutually
  recursive routines, and the loop that reads the input into a buffer of 1024 bytes and matches it line by line.
\<close>

section \<open>The matcher\<close>

text \<open>In a pattern \<open>.\<close> is 46, \<open>*\<close> is 42, \<open>^\<close> is 94 and \<open>$\<close> is 36.\<close>

function matchhere :: "u8 list \<Rightarrow> u8 list \<Rightarrow> bool"
  and matchstar :: "u8 \<Rightarrow> u8 list \<Rightarrow> u8 list \<Rightarrow> bool" where
  "matchhere re text =
     (case re of
        [] \<Rightarrow> True
      | c # r \<Rightarrow>
          if r \<noteq> [] \<and> hd r = 42 then matchstar c (tl r) text
          else if c = 36 \<and> r = [] then text = []
          else (case text of [] \<Rightarrow> False | t # ts \<Rightarrow> if c = 46 \<or> c = t then matchhere r ts else False))"
| "matchstar c re text =
     (if matchhere re text then True
      else (case text of [] \<Rightarrow> False | t # ts \<Rightarrow> if t = c \<or> c = 46 then matchstar c re ts else False))"
  by pat_completeness auto
termination
  by (relation "measures [case_sum (\<lambda>(re, text). length re) (\<lambda>(c, re, text). length re),
        case_sum (\<lambda>(re, text). length text) (\<lambda>(c, re, text). length text),
        case_sum (\<lambda>_. 0) (\<lambda>_. 1)]") auto

declare matchhere.simps [simp del] matchstar.simps [simp del]

fun match_from :: "u8 list \<Rightarrow> u8 list \<Rightarrow> bool" where
  "match_from re text = (if matchhere re text then True else case text of [] \<Rightarrow> False | t # ts \<Rightarrow> match_from re ts)"

declare match_from.simps [simp del]

definition match :: "u8 list \<Rightarrow> u8 list \<Rightarrow> bool" where
  "match re text = (if re \<noteq> [] \<and> hd re = 94 then matchhere (tl re) text else match_from re text)"

section \<open>The program\<close>

definition u_store :: "block \<Rightarrow> nat \<Rightarrow> u8 list \<Rightarrow> block" where
  "u_store b i bs = (\<lambda>k. if i \<le> k \<and> k < i + length bs then bs ! (k - i) else b k)"

text \<open>The loop over the lines of the buffer returns the buffer and the index after the last newline.\<close>

partial_function (option) grep_lines ::
  "'w sysops \<Rightarrow> u8 list \<Rightarrow> block \<Rightarrow> nat \<Rightarrow> 'w \<Rightarrow> (block \<times> nat, 'w) uprog" where
  "grep_lines ops pattern buf p w =
     Option.bind (strchr_at buf p 10) (\<lambda>q.
       case q of
         None \<Rightarrow> uret (buf, p) w
       | Some q \<Rightarrow>
           Option.bind (str_at (buf(q := 0)) p) (\<lambda>line.
             if match pattern line
             then grep_lines ops pattern (buf(q := 10)) (Suc q)
                    (snd (u_write ops 1 (map (buf(q := 10)) [p..<Suc q]) w))
             else grep_lines ops pattern (buf(q := 0)) (Suc q) w))"

partial_function (option) grep_loop ::
  "'w sysops \<Rightarrow> u8 list \<Rightarrow> int \<Rightarrow> block \<Rightarrow> nat \<Rightarrow> 'w \<Rightarrow> (block, 'w) uprog" where
  "grep_loop ops pattern fd buf m w =
     (case u_read ops fd (1024 - m - 1) w of
        (None, w) \<Rightarrow> uret buf w
      | (Some bs, w) \<Rightarrow>
          (if bs = [] then uret buf w
           else
             ubind (grep_lines ops pattern ((u_store buf m bs)(m + length bs := 0)) 0 w) (\<lambda>bp w.
               if snd bp = 0 then grep_loop ops pattern fd (fst bp) 0 w
               else grep_loop ops pattern fd (memmove_u (fst bp) 0 (snd bp) (m + length bs - snd bp))
                      (m + length bs - snd bp) w)))"

definition grep :: "'w sysops \<Rightarrow> u8 list \<Rightarrow> int \<Rightarrow> block \<Rightarrow> 'w \<Rightarrow> (block, 'w) uprog" where
  "grep ops pattern fd buf w = grep_loop ops pattern fd buf 0 w"

fun grep_files :: "'w sysops \<Rightarrow> u8 list \<Rightarrow> u8 list list \<Rightarrow> block \<Rightarrow> 'w \<Rightarrow> (unit, 'w) uprog" where
  "grep_files ops pattern [] buf w = uexit w"
| "grep_files ops pattern (f # fs) buf w =
     (let (fd, w) = u_open ops f 0 w in
      if fd < 0 then ubind (printf ops 1 (ln ''grep: cannot open %s'') [AStr (Some f)] w) (\<lambda>_ w. uexit w)
      else ubind (grep ops pattern fd buf w) (\<lambda>buf w. grep_files ops pattern fs buf (snd (u_close ops fd w))))"

text \<open>The main routine; \<open>argv\<close> are the arguments with the name of the program first.\<close>

definition grep_main :: "'w sysops \<Rightarrow> u8 list list \<Rightarrow> 'w \<Rightarrow> (unit, 'w) uprog" where
  "grep_main ops argv w =
     (if length argv \<le> 1 then ubind (printf ops 2 (ln ''usage: grep pattern [file ...]'') [] w) (\<lambda>_ w. uexit w)
      else if length argv \<le> 2 then ubind (grep ops (argv ! 1) 0 (\<lambda>_. 0) w) (\<lambda>_ w. uexit w)
      else grep_files ops (argv ! 1) (drop 2 argv) (\<lambda>_. 0) w)"

end
