(* ===== verification/Utils.thy ===== *)
theory Utils
  imports Grep
begin

text \<open>
  The small user programs: \<open>cat.c\<close>, \<open>wc.c\<close>, \<open>echo.c\<close>, \<open>ls.c\<close>, \<open>ln.c\<close>, \<open>mkdir.c\<close>, \<open>rm.c\<close>, \<open>kill.c\<close>, \<open>zombie.c\<close>, \<open>init.c\<close>,
  \<open>forktest.c\<close> and \<open>stressfs.c\<close>.  The argument \<open>argv\<close> of a main routine starts with the name of the program.  A program that
  forks is seen from one process: the answer of \<open>fork\<close> says which of the two it is.
\<close>

section \<open>cat\<close>

partial_function (option) cat :: "'w sysops \<Rightarrow> int \<Rightarrow> 'w \<Rightarrow> (unit, 'w) uprog" where
  "cat ops fd w =
     (case u_read ops fd 512 w of
        (None, w) \<Rightarrow> ubind (printf ops 1 (ln ''cat: read error'') [] w) (\<lambda>_ w. uexit w)
      | (Some bs, w) \<Rightarrow>
          (if bs = [] then uret () w
           else case u_write ops 1 bs w of
             (n, w) \<Rightarrow>
               if n \<noteq> int (length bs)
               then ubind (printf ops 1 (ln ''cat: write error'') [] w) (\<lambda>_ w. uexit w)
               else cat ops fd w))"

fun cat_files :: "'w sysops \<Rightarrow> u8 list list \<Rightarrow> 'w \<Rightarrow> (unit, 'w) uprog" where
  "cat_files ops [] w = uexit w"
| "cat_files ops (f # fs) w =
     (let (fd, w) = u_open ops f 0 w in
      if fd < 0 then ubind (printf ops 1 (ln ''cat: cannot open %s'') [AStr (Some f)] w) (\<lambda>_ w. uexit w)
      else ubind (cat ops fd w) (\<lambda>_ w. cat_files ops fs (snd (u_close ops fd w))))"

definition cat_main :: "'w sysops \<Rightarrow> u8 list list \<Rightarrow> 'w \<Rightarrow> (unit, 'w) uprog" where
  "cat_main ops argv w =
     (if length argv \<le> 1 then ubind (cat ops 0 w) (\<lambda>_ w. uexit w) else cat_files ops (drop 1 argv) w)"

section \<open>wc\<close>

record wcount =
  wc_l :: u32
  wc_w :: u32
  wc_c :: u32
  inword :: bool

definition wc_char :: "u8 \<Rightarrow> wcount \<Rightarrow> wcount" where
  "wc_char ch k =
     (let k = k\<lparr>wc_c := wc_c k + 1\<rparr>;
          k = (if ch = 10 then k\<lparr>wc_l := wc_l k + 1\<rparr> else k)
      in if strchr [32, 13, 9, 10, 11] ch then k\<lparr>inword := False\<rparr>
         else if \<not> inword k then k\<lparr>wc_w := wc_w k + 1, inword := True\<rparr>
         else k)"

partial_function (option) wc_loop :: "'w sysops \<Rightarrow> int \<Rightarrow> wcount \<Rightarrow> 'w \<Rightarrow> (wcount, 'w) uprog" where
  "wc_loop ops fd k w =
     (case u_read ops fd 512 w of
        (None, w) \<Rightarrow> ubind (printf ops 1 (ln ''wc: read error'') [] w) (\<lambda>_ w. uexit w)
      | (Some bs, w) \<Rightarrow> if bs = [] then uret k w else wc_loop ops fd (fold wc_char bs k) w)"

definition wc :: "'w sysops \<Rightarrow> int \<Rightarrow> u8 list \<Rightarrow> 'w \<Rightarrow> (unit, 'w) uprog" where
  "wc ops fd name w =
     ubind (wc_loop ops fd \<lparr>wc_l = 0, wc_w = 0, wc_c = 0, inword = False\<rparr> w) (\<lambda>k w.
     printf ops 1 (ln ''%d %d %d %s'') [AInt (wc_l k), AInt (wc_w k), AInt (wc_c k), AStr (Some name)] w)"

fun wc_files :: "'w sysops \<Rightarrow> u8 list list \<Rightarrow> 'w \<Rightarrow> (unit, 'w) uprog" where
  "wc_files ops [] w = uexit w"
| "wc_files ops (f # fs) w =
     (let (fd, w) = u_open ops f 0 w in
      if fd < 0 then ubind (printf ops 1 (ln ''wc: cannot open %s'') [AStr (Some f)] w) (\<lambda>_ w. uexit w)
      else ubind (wc ops fd f w) (\<lambda>_ w. wc_files ops fs (snd (u_close ops fd w))))"

definition wc_main :: "'w sysops \<Rightarrow> u8 list list \<Rightarrow> 'w \<Rightarrow> (unit, 'w) uprog" where
  "wc_main ops argv w =
     (if length argv \<le> 1 then ubind (wc ops 0 [] w) (\<lambda>_ w. uexit w) else wc_files ops (drop 1 argv) w)"

section \<open>echo, ln, mkdir, rm, kill, zombie\<close>

fun echo_args :: "'w sysops \<Rightarrow> u8 list list \<Rightarrow> 'w \<Rightarrow> (unit, 'w) uprog" where
  "echo_args ops [] w = uexit w"
| "echo_args ops (a # as) w =
     ubind (printf ops 1 (bytes ''%s%s'') [AStr (Some a), AStr (Some (if as \<noteq> [] then bytes '' '' else [10]))] w)
       (\<lambda>_ w. echo_args ops as w)"

definition echo_main :: "'w sysops \<Rightarrow> u8 list list \<Rightarrow> 'w \<Rightarrow> (unit, 'w) uprog" where
  "echo_main ops argv w = echo_args ops (drop 1 argv) w"

definition ln_main :: "'w sysops \<Rightarrow> u8 list list \<Rightarrow> 'w \<Rightarrow> (unit, 'w) uprog" where
  "ln_main ops argv w =
     (if length argv \<noteq> 3 then ubind (printf ops 2 (ln ''Usage: ln old new'') [] w) (\<lambda>_ w. uexit w)
      else case u_link ops (argv ! 1) (argv ! 2) w of
        (r, w) \<Rightarrow>
          if r < 0
          then ubind (printf ops 2 (ln ''link %s %s: failed'') [AStr (Some (argv ! 1)), AStr (Some (argv ! 2))] w)
                 (\<lambda>_ w. uexit w)
          else uexit w)"

fun mkdir_args :: "'w sysops \<Rightarrow> u8 list list \<Rightarrow> 'w \<Rightarrow> (unit, 'w) uprog" where
  "mkdir_args ops [] w = uexit w"
| "mkdir_args ops (a # as) w =
     (case u_mkdir ops a w of
        (r, w) \<Rightarrow>
          if r < 0 then ubind (printf ops 2 (ln ''mkdir: %s failed to create'') [AStr (Some a)] w) (\<lambda>_ w. uexit w)
          else mkdir_args ops as w)"

definition mkdir_main :: "'w sysops \<Rightarrow> u8 list list \<Rightarrow> 'w \<Rightarrow> (unit, 'w) uprog" where
  "mkdir_main ops argv w =
     (if length argv < 2 then ubind (printf ops 2 (ln ''Usage: mkdir files...'') [] w) (\<lambda>_ w. uexit w)
      else mkdir_args ops (drop 1 argv) w)"

fun rm_args :: "'w sysops \<Rightarrow> u8 list list \<Rightarrow> 'w \<Rightarrow> (unit, 'w) uprog" where
  "rm_args ops [] w = uexit w"
| "rm_args ops (a # as) w =
     (case u_unlink ops a w of
        (r, w) \<Rightarrow>
          if r < 0 then ubind (printf ops 2 (ln ''rm: %s failed to delete'') [AStr (Some a)] w) (\<lambda>_ w. uexit w)
          else rm_args ops as w)"

definition rm_main :: "'w sysops \<Rightarrow> u8 list list \<Rightarrow> 'w \<Rightarrow> (unit, 'w) uprog" where
  "rm_main ops argv w =
     (if length argv < 2 then ubind (printf ops 2 (ln ''Usage: rm files...'') [] w) (\<lambda>_ w. uexit w)
      else rm_args ops (drop 1 argv) w)"

definition kill_main :: "'w sysops \<Rightarrow> u8 list list \<Rightarrow> 'w \<Rightarrow> (unit, 'w) uprog" where
  "kill_main ops argv w =
     (if length argv < 2 then ubind (printf ops 2 (ln ''usage: kill pid...'') [] w) (\<lambda>_ w. uexit w)
      else uexit (fold (\<lambda>a w. snd (u_kill ops (sint (atoi a)) w)) (drop 1 argv) w))"

definition zombie_main :: "'w sysops \<Rightarrow> 'w \<Rightarrow> (unit, 'w) uprog" where
  "zombie_main ops w =
     (case u_fork ops w of (pid, w) \<Rightarrow> uexit (if pid > 0 then snd (u_sleep ops 5 w) else w))"

section \<open>ls\<close>

definition DIRSIZ_u :: nat where "DIRSIZ_u = 14"

text \<open>\<open>fmtname\<close> returns the characters after the last slash, padded with blanks to 14.  The static buffer
  has no terminating zero but the one it starts with, after the 14 characters.\<close>

definition fmtname :: "u8 list \<Rightarrow> u8 list" where
  "fmtname path =
     (let p = rev (takeWhile (\<lambda>c. c \<noteq> 47) (rev path)) in
      if length p \<ge> DIRSIZ_u then p else p @ replicate (DIRSIZ_u - length p) 32)"

definition ls_line :: "'w sysops \<Rightarrow> u8 list \<Rightarrow> ustat \<Rightarrow> 'w \<Rightarrow> (unit, 'w) uprog" where
  "ls_line ops path st w =
     printf ops 1 (ln ''%s %d %d %d'')
       [AStr (Some (fmtname path)), AInt (scast (us_type st)), AInt (us_ino st), AInt (us_size st)] w"

partial_function (option) ls_dir :: "'w sysops \<Rightarrow> u8 list \<Rightarrow> int \<Rightarrow> 'w \<Rightarrow> (unit, 'w) uprog" where
  "ls_dir ops path fd w =
     (case u_read ops fd 16 w of
        (None, w) \<Rightarrow> uret () w
      | (Some de, w) \<Rightarrow>
          if length de \<noteq> 16 then uret () w
          else if le16 (de ! 0) (de ! 1) = 0 then ls_dir ops path fd w
          else
            (let buf = path @ [47] @ takeWhile (\<lambda>c. c \<noteq> 0) (drop 2 de) in
             case stat_u ops buf w of
               (None, w) \<Rightarrow>
                 ubind (printf ops 1 (ln ''ls: cannot stat %s'') [AStr (Some buf)] w) (\<lambda>_ w. ls_dir ops path fd w)
             | (Some st, w) \<Rightarrow> ubind (ls_line ops buf st w) (\<lambda>_ w. ls_dir ops path fd w)))"

definition ls :: "'w sysops \<Rightarrow> u8 list \<Rightarrow> 'w \<Rightarrow> (unit, 'w) uprog" where
  "ls ops path w =
     (case u_open ops path 0 w of
        (fd, w) \<Rightarrow>
          if fd < 0 then printf ops 2 (ln ''ls: cannot open %s'') [AStr (Some path)] w
          else case u_fstat ops fd w of
            (None, w) \<Rightarrow>
              ubind (printf ops 2 (ln ''ls: cannot stat %s'') [AStr (Some path)] w) (\<lambda>_ w. uret () (snd (u_close ops fd w)))
          | (Some st, w) \<Rightarrow>
              ubind (if us_type st = 2 then ls_line ops path st w
                     else if us_type st = 1 then
                       (if length path + 1 + DIRSIZ_u + 1 > 512
                        then printf ops 1 (ln ''ls: path too long'') [] w
                        else ls_dir ops path fd w)
                     else uret () w)
                (\<lambda>_ w. uret () (snd (u_close ops fd w))))"

fun ls_args :: "'w sysops \<Rightarrow> u8 list list \<Rightarrow> 'w \<Rightarrow> (unit, 'w) uprog" where
  "ls_args ops [] w = uexit w"
| "ls_args ops (a # as) w = ubind (ls ops a w) (\<lambda>_ w. ls_args ops as w)"

definition ls_main :: "'w sysops \<Rightarrow> u8 list list \<Rightarrow> 'w \<Rightarrow> (unit, 'w) uprog" where
  "ls_main ops argv w =
     (if length argv < 2 then ubind (ls ops (bytes ''.'') w) (\<lambda>_ w. uexit w) else ls_args ops (drop 1 argv) w)"

section \<open>init\<close>

partial_function (option) init_wait :: "'w sysops \<Rightarrow> int \<Rightarrow> 'w \<Rightarrow> (unit, 'w) uprog" where
  "init_wait ops pid w =
     (case u_wait ops w of
        (wpid, w) \<Rightarrow>
          if wpid \<ge> 0 \<and> wpid \<noteq> pid
          then ubind (printf ops 1 (ln ''zombie!'') [] w) (\<lambda>_ w. init_wait ops pid w)
          else uret () w)"

partial_function (option) init_loop :: "'w sysops \<Rightarrow> 'w \<Rightarrow> (unit, 'w) uprog" where
  "init_loop ops w =
     ubind (printf ops 1 (ln ''init: starting sh'') [] w) (\<lambda>_ w.
       case u_fork ops w of
         (pid, w) \<Rightarrow>
           if pid < 0 then ubind (printf ops 1 (ln ''init: fork failed'') [] w) (\<lambda>_ w. uexit w)
           else if pid = 0 then
             (case u_exec ops (bytes ''sh'') [bytes ''sh''] w of
                (None, w) \<Rightarrow> uexit w
              | (Some _, w) \<Rightarrow> ubind (printf ops 1 (ln ''init: exec sh failed'') [] w) (\<lambda>_ w. uexit w))
           else ubind (init_wait ops pid w) (\<lambda>_ w. init_loop ops w))"

definition init_main :: "'w sysops \<Rightarrow> 'w \<Rightarrow> (unit, 'w) uprog" where
  "init_main ops w =
     (let (fd, w) = u_open ops (bytes ''console'') 2 w;
          w = (if fd < 0
               then snd (u_open ops (bytes ''console'') 2 (snd (u_mknod ops (bytes ''console'') 1 1 w)))
               else w);
          w = snd (u_dup ops 0 w);
          w = snd (u_dup ops 0 w)
      in init_loop ops w)"

section \<open>forktest and stressfs\<close>

text \<open>\<open>forktest\<close> has its own \<open>printf\<close>, which writes the format.  The loops return the number of children.\<close>

definition forktest_printf :: "'w sysops \<Rightarrow> int \<Rightarrow> u8 list \<Rightarrow> 'w \<Rightarrow> 'w" where
  "forktest_printf ops fd s w = snd (u_write ops fd s w)"

fun forktest_fork :: "'w sysops \<Rightarrow> nat \<Rightarrow> nat \<Rightarrow> 'w \<Rightarrow> (nat, 'w) uprog" where
  "forktest_fork ops n 0 w = uret n w"
| "forktest_fork ops n (Suc k) w =
     (case u_fork ops w of
        (pid, w) \<Rightarrow>
          if pid < 0 then uret n w else if pid = 0 then uexit w else forktest_fork ops (Suc n) k w)"

fun forktest_wait :: "'w sysops \<Rightarrow> nat \<Rightarrow> 'w \<Rightarrow> (unit, 'w) uprog" where
  "forktest_wait ops 0 w = uret () w"
| "forktest_wait ops (Suc n) w =
     (case u_wait ops w of
        (r, w) \<Rightarrow>
          if r < 0 then uexit (forktest_printf ops 1 (ln ''wait stopped early'') w) else forktest_wait ops n w)"

definition forktest :: "'w sysops \<Rightarrow> 'w \<Rightarrow> (unit, 'w) uprog" where
  "forktest ops w =
     ubind (forktest_fork ops 0 1000 (forktest_printf ops 1 (ln ''fork test'') w)) (\<lambda>n w.
       if n = 1000 then uexit (forktest_printf ops 1 (ln ''fork claimed to work N times!'') w)
       else
         ubind (forktest_wait ops n w) (\<lambda>_ w.
           case u_wait ops w of
             (r, w) \<Rightarrow>
               if r \<noteq> -1 then uexit (forktest_printf ops 1 (ln ''wait got too many'') w)
               else uret () (forktest_printf ops 1 (ln ''fork test OK'') w)))"

definition forktest_main :: "'w sysops \<Rightarrow> 'w \<Rightarrow> (unit, 'w) uprog" where
  "forktest_main ops w = ubind (forktest ops w) (\<lambda>_ w. uexit w)"

fun stressfs_fork :: "'w sysops \<Rightarrow> nat \<Rightarrow> nat \<Rightarrow> 'w \<Rightarrow> nat \<times> 'w" where
  "stressfs_fork ops i 0 w = (i, w)"
| "stressfs_fork ops i (Suc k) w =
     (case u_fork ops w of (pid, w) \<Rightarrow> if pid > 0 then (i, w) else stressfs_fork ops (Suc i) k w)"

definition stressfs_main :: "'w sysops \<Rightarrow> 'w \<Rightarrow> (unit, 'w) uprog" where
  "stressfs_main ops w =
     ubind (printf ops 1 (ln ''stressfs starting'') [] w) (\<lambda>_ w.
     (let (i, w) = stressfs_fork ops 0 4 w; path = bytes ''stressfs'' @ [48 + of_nat i] in
      ubind (printf ops 1 (ln ''write %d'') [AInt (of_nat i)] w) (\<lambda>_ w.
      (let (fd, w) = u_open ops path 0x202 w;
           w = fold (\<lambda>_ w. snd (u_write ops fd (replicate 512 97) w)) [0..<20] w;
           w = snd (u_close ops fd w)
       in ubind (printf ops 1 (ln ''read'') [] w) (\<lambda>_ w.
          (let (fd, w) = u_open ops path 0 w;
               w = fold (\<lambda>_ w. snd (u_read ops fd 512 w)) [0..<20] w;
               w = snd (u_close ops fd w)
           in uexit (snd (u_wait ops w))))))))"

end
