(* ===== verification/Utils_Props.thy ===== *)
theory Utils_Props
  imports Utils Console_Props
begin

text \<open>
  What the small user programs do: \<open>cat\<close> copies, \<open>wc\<close> counts, however the input is cut into pieces, and
  \<open>atoi\<close> reads back what \<open>printf\<close> prints.
\<close>

section \<open>Input in pieces\<close>

text \<open>The world of a program that reads an input which arrives in pieces and writes to standard output:
  \<open>inp\<close> is what has not been read, \<open>out\<close> what has been written.\<close>

definition reads_stream :: "'w sysops \<Rightarrow> int \<Rightarrow> ('w \<Rightarrow> u8 list) \<Rightarrow> ('w \<Rightarrow> u8 list) \<Rightarrow> bool" where
  "reads_stream ops fd inp out \<longleftrightarrow>
     (\<forall>n w. 0 < n \<longrightarrow> (\<exists>bs. fst (u_read ops fd n w) = Some bs \<and> inp w = bs @ inp (snd (u_read ops fd n w)) \<and>
        (bs = [] \<longrightarrow> inp w = []) \<and> out (snd (u_read ops fd n w)) = out w)) \<and>
     (\<forall>bs w. fst (u_write ops 1 bs w) = int (length bs) \<and> out (snd (u_write ops 1 bs w)) = out w @ bs \<and>
        inp (snd (u_write ops 1 bs w)) = inp w)"

lemma reads_streamE:
  assumes "reads_stream ops fd inp out" and "0 < n"
  obtains bs w' where "u_read ops fd n w = (Some bs, w')" "inp w = bs @ inp w'" "bs = [] \<Longrightarrow> inp w = []"
    "out w' = out w"
  using assms unfolding reads_stream_def by (metis prod.collapse)


section \<open>cat\<close>

lemma cat_copies:
  assumes "reads_stream ops fd inp out"
  shows "\<exists>w'. cat ops fd w = uret () w' \<and> out w' = out w @ inp w \<and> inp w' = []"
proof (induction "length (inp w)" arbitrary: w rule: less_induct)
  case less
  obtain bs w1 where r: "u_read ops fd 512 w = (Some bs, w1)" "inp w = bs @ inp w1" "bs = [] \<Longrightarrow> inp w = []"
    "out w1 = out w" using reads_streamE [OF assms, of 512 w] by auto
  show ?case
  proof (cases "bs = []")
    case True
    with r show ?thesis by (simp add: cat.simps [of ops fd w])
  next
    case False
    obtain w2 where w: "u_write ops 1 bs w1 = (int (length bs), w2)" "out w2 = out w @ bs" "inp w2 = inp w1"
      using assms r(4) unfolding reads_stream_def by (metis prod.collapse)
    have "length (inp w2) < length (inp w)" using False r(2) w(3) by simp
    from less [OF this] w r False show ?thesis by (simp add: cat.simps [of ops fd w])
  qed
qed

section \<open>wc\<close>

definition blank :: "u8 \<Rightarrow> bool" where
  "blank c \<longleftrightarrow> c \<in> {32, 13, 9, 10, 11}"

text \<open>A word starts where a character that is not blank follows a blank or starts the text.\<close>

definition word_starts :: "u8 list \<Rightarrow> nat set" where
  "word_starts cs = {i. i < length cs \<and> \<not> blank (cs ! i) \<and> (i = 0 \<or> blank (cs ! (i - 1)))}"

lemma word_starts_snoc:
  "word_starts (cs @ [c]) =
     (if \<not> blank c \<and> (cs = [] \<or> blank (last cs)) then insert (length cs) (word_starts cs) else word_starts cs)"
  by (cases "cs = []") (auto simp: word_starts_def nth_append last_conv_nth less_Suc_eq)

lemma finite_word_starts: "finite (word_starts cs)"
  by (rule finite_subset [of _ "{..<length cs}"]) (auto simp: word_starts_def)

definition counts :: "u8 list \<Rightarrow> wcount" where
  "counts cs = \<lparr>wc_l = of_nat (length (filter (\<lambda>c. c = 10) cs)), wc_w = of_nat (card (word_starts cs)),
     wc_c = of_nat (length cs), inword = (cs \<noteq> [] \<and> \<not> blank (last cs))\<rparr>"

lemma counts_snoc: "wc_char c (counts cs) = counts (cs @ [c])"
proof -
  have "length cs \<notin> word_starts cs" by (simp add: word_starts_def)
  then show ?thesis
    by (auto simp: wc_char_def counts_def word_starts_snoc finite_word_starts blank_def Let_def)
qed

lemma counts_fold: "fold wc_char bs (counts cs) = counts (cs @ bs)"
  by (induction bs arbitrary: cs) (simp_all add: counts_snoc)

lemma wc_loop_counts:
  assumes "reads_stream ops fd inp out"
  shows "\<exists>w'. wc_loop ops fd (counts cs) w = uret (counts (cs @ inp w)) w' \<and> out w' = out w \<and> inp w' = []"
proof (induction "length (inp w)" arbitrary: cs w rule: less_induct)
  case less
  obtain bs w1 where r: "u_read ops fd 512 w = (Some bs, w1)" "inp w = bs @ inp w1" "bs = [] \<Longrightarrow> inp w = []"
    "out w1 = out w" using reads_streamE [OF assms, of 512 w] by auto
  show ?case
  proof (cases "bs = []")
    case True
    with r show ?thesis by (simp add: wc_loop.simps [of ops fd])
  next
    case False
    then have "length (inp w1) < length (inp w)" using r(2) by simp
    from less [OF this, of "cs @ bs"] r False show ?thesis by (simp add: wc_loop.simps [of ops fd _ w] counts_fold)
  qed
qed

lemma stream_ops_reads: "reads_stream stream_ops fd (\<lambda>w. concat (fst w)) snd"
proof -
  have "\<exists>bs. fst (u_read stream_ops fd n w) = Some bs \<and>
      concat (fst w) = bs @ concat (fst (snd (u_read stream_ops fd n w))) \<and>
      (bs = [] \<longrightarrow> concat (fst w) = []) \<and> snd (snd (u_read stream_ops fd n w)) = snd w"
    if n: "0 < n" for n and w :: "u8 list list \<times> u8 list"
  proof -
    obtain cs o1 where w: "w = (cs, o1)" by fastforce
    define ds where ds: "ds = dropWhile (\<lambda>c. c = []) cs"
    have c: "concat cs = concat ds" unfolding ds by (induction cs) auto
    have ne: "ds = d # ds' \<Longrightarrow> d \<noteq> []" for d ds'
      using hd_dropWhile [of "\<lambda>c. c = []" cs] unfolding ds by auto
    have "u_read stream_ops fd n w = (case ds of [] \<Rightarrow> (Some [], (cs, o1))
        | c # cs \<Rightarrow> (Some (take n c), (if length c \<le> n then cs else drop n c # cs, o1)))"
      by (simp add: stream_ops_def w ds)
    then show ?thesis using w c n ne by (cases ds) auto
  qed
  then show ?thesis by (auto simp: reads_stream_def stream_ops_def split_beta)
qed

text \<open>C25. However its input is cut into pieces, \<open>wc\<close> ends and has counted the newlines, the words (the places
  where a character that is not blank starts the text or follows a blank) and the bytes of
  the whole input, modulo the size of its counters, and prints these three numbers and the name.\<close>

theorem wc_counts_input:
  assumes "reads_stream ops fd inp out"
  shows "\<exists>w'. inp w' = [] \<and> out w' = out w \<and>
    wc ops fd name w = printf ops 1 (ln ''%d %d %d %s'')
      [AInt (of_nat (length (filter (\<lambda>c. c = 10) (inp w)))),
       AInt (of_nat (card {i. i < length (inp w) \<and> \<not> blank (inp w ! i) \<and> (i = 0 \<or> blank (inp w ! (i - 1)))})),
       AInt (of_nat (length (inp w))), AStr (Some name)] w'"
proof -
  have "counts [] = \<lparr>wc_l = 0, wc_w = 0, wc_c = 0, inword = False\<rparr>" by (simp add: counts_def word_starts_def)
  with wc_loop_counts [OF assms, of "[]" w] show ?thesis
    by (auto simp: wc_def counts_def word_starts_def)
qed

theorem wc_counts_input_witness:
  "\<exists>w'. wc stream_ops 0 (bytes ''f'') ([bytes ''on'', ln ''e two''], []) = printf stream_ops 1 (ln ''%d %d %d %s'')
     [AInt 1, AInt 2, AInt 8, AStr (Some (bytes ''f''))] w'"
proof -
  let ?cs = "bytes ''on'' @ ln ''e two''"
  have "counts ?cs = fold wc_char ?cs \<lparr>wc_l = 0, wc_w = 0, wc_c = 0, inword = False\<rparr>"
    using counts_fold [of ?cs "[]"] by (simp add: counts_def word_starts_def)
  also have "\<dots> = \<lparr>wc_l = 1, wc_w = 2, wc_c = 8, inword = False\<rparr>"
    by (simp add: bytes_def ln_def wc_char_def Let_def)
  finally have "of_nat (card {i. i < length ?cs \<and> \<not> blank (?cs ! i) \<and> (i = 0 \<or> blank (?cs ! (i - 1)))}) = (2 :: u32)"
    "length (filter (\<lambda>c. c = 10) ?cs) = 1" "length ?cs = 8"
    by (simp_all add: counts_def word_starts_def) (simp_all add: bytes_def ln_def)
  then show ?thesis
    using wc_counts_input [OF stream_ops_reads, of "([bytes ''on'', ln ''e two''], [])" 0 "bytes ''f''"] by auto
qed

section \<open>Numbers\<close>

lemma digit_u_10: "d < 10 \<Longrightarrow> digit_u (of_nat d) = 48 + of_nat d"
proof -
  assume "d < 10"
  then have "d \<in> {0,1,2,3,4,5,6,7,8,9}" by auto
  then show ?thesis by (auto simp: digit_u_def bytes_def)
qed

lemma sint_digit: "d < 10 \<Longrightarrow> sint (48 + of_nat d :: u8) = 48 + int d"
proof -
  assume "d < 10"
  then have "d \<in> {0,1,2,3,4,5,6,7,8,9}" by auto
  then show ?thesis by auto
qed

lemma scast_digit: "d < 10 \<Longrightarrow> scast (48 + of_nat d :: u8) = (48 + of_nat d :: u32)"
proof -
  assume "d < 10"
  then have "d \<in> {0,1,2,3,4,5,6,7,8,9}" by auto
  then show ?thesis by auto
qed

lemma atoi_loop_digits:
  "\<forall>d \<in> set ds. d < 10 \<Longrightarrow>
   atoi_loop (of_nat n) (map (\<lambda>d. 48 + of_nat d) ds) = of_nat (foldl (\<lambda>a d. a * 10 + d) n ds)"
proof (induction ds arbitrary: n)
  case (Cons d ds)
  then have d: "d < 10" by simp
  have e: "of_nat n * 10 + scast (48 + of_nat d :: u8) - 48 = (of_nat (n * 10 + d) :: u32)"
    using d by (simp add: scast_digit)
  have "atoi_loop (of_nat n) (map (\<lambda>d. 48 + of_nat d) (d # ds)) =
      atoi_loop (of_nat n * 10 + scast (48 + of_nat d :: u8) - 48) (map (\<lambda>d. 48 + of_nat d) ds)"
    using d by (simp add: sint_digit)
  also have "\<dots> = of_nat (foldl (\<lambda>a d. a * 10 + d) n (d # ds))"
    unfolding e using Cons by (simp del: of_nat_add of_nat_mult)
  finally show ?case .
qed simp

text \<open>C26. \<open>atoi\<close> reads back every number that is not negative from the decimal digits that \<open>printf\<close> prints for
  it; of a negative number it sees no digit and returns 0.\<close>

theorem atoi_printint:
  "atoi (rev (printint_u_buf x 10 True)) = (if sint x < 0 then 0 else x)"
proof (cases "sint x < 0")
  case True
  then show ?thesis by (simp add: printint_u_buf_def atoi_def bytes_def)
next
  case False
  have "rev (printint_u_buf x 10 True) = map (\<lambda>d. digit_u (of_nat d)) (positional 10 (unat x))"
    using False digits_rev_positional [of 10 digit_u x] by (simp add: printint_u_buf_def)
  also have "\<dots> = map (\<lambda>d. 48 + of_nat d) (positional 10 (unat x))"
    using positional_less [of 10 "unat x"] by (intro map_cong) (auto simp: digit_u_10)
  finally show ?thesis
    using False positional_less [of 10 "unat x"] atoi_loop_digits [of "positional 10 (unat x)" 0]
      foldl_positional [of 10 "unat x"] by (simp add: atoi_def)
qed

end
