(* ===== verification/Sh.thy ===== *)
theory Sh
  imports Grep
begin

text \<open>
  The shell (\<open>sh.c\<close>).  The parser works on the line buffer \<open>b\<close>, whose string ends at index \<open>es\<close>, and moves an index
  \<open>s\<close> through it; words of the command tree are pairs of indices until \<open>nulterminate\<close> cuts
  them off in the buffer.  A parser routine returns its value and the new index, or it stops with the message
  it passes to \<open>panic\<close>.  The recursion of the parser takes fuel; \<open>parsecmd\<close> gives it more than any line needs.
\<close>

section \<open>Commands\<close>

datatype cmd =
    ExecCmd "nat list" "nat list"
  | RedirCmd cmd nat nat u32 int
  | PipeCmd cmd cmd
  | ListCmd cmd cmd
  | BackCmd cmd

definition MAXARGS :: nat where "MAXARGS = 10"

text \<open>The constructors of the code; the memory that they allocate is the new node.\<close>

abbreviation execcmd :: cmd where "execcmd \<equiv> ExecCmd [] []"

abbreviation redircmd :: "cmd \<Rightarrow> nat \<Rightarrow> nat \<Rightarrow> u32 \<Rightarrow> int \<Rightarrow> cmd" where
  "redircmd subcmd fil efile mode fd \<equiv> RedirCmd subcmd fil efile mode fd"

abbreviation pipecmd :: "cmd \<Rightarrow> cmd \<Rightarrow> cmd" where "pipecmd l r \<equiv> PipeCmd l r"

abbreviation listcmd :: "cmd \<Rightarrow> cmd \<Rightarrow> cmd" where "listcmd l r \<equiv> ListCmd l r"

abbreviation backcmd :: "cmd \<Rightarrow> cmd" where "backcmd subcmd \<equiv> BackCmd subcmd"

datatype perror = PPanic string | PFuel

type_synonym 'a parsed = "perror + 'a \<times> nat"

definition pbind :: "'a parsed \<Rightarrow> ('a \<Rightarrow> nat \<Rightarrow> 'b parsed) \<Rightarrow> 'b parsed" where
  "pbind r f = (case r of Inl e \<Rightarrow> Inl e | Inr (a, s) \<Rightarrow> f a s)"

lemma pbind_simps [simp]: "pbind (Inl e) f = Inl e" "pbind (Inr (a, s)) f = f a s"
  by (simp_all add: pbind_def)

lemma pbind_cong [fundef_cong]:
  assumes "r = r'" and "\<And>a s. r' = Inr (a, s) \<Longrightarrow> f a s = f' a s"
  shows "pbind r f = pbind r' f'"
  using assms by (auto simp: pbind_def split: sum.splits prod.splits)

section \<open>Tokens\<close>

definition whitespace :: "u8 list" where "whitespace = [32, 9, 13, 10, 11]"

definition symbols :: "u8 list" where "symbols = bytes ''<|>&;()''"

function skip_space :: "block \<Rightarrow> nat \<Rightarrow> nat \<Rightarrow> nat" where
  "skip_space b es s = (if s < es \<and> strchr whitespace (b s) then skip_space b es (Suc s) else s)"
  by pat_completeness auto
termination
  by (relation "measure (\<lambda>(b, es, s). es - s)") auto

function skip_word :: "block \<Rightarrow> nat \<Rightarrow> nat \<Rightarrow> nat" where
  "skip_word b es s =
     (if s < es \<and> \<not> strchr whitespace (b s) \<and> \<not> strchr symbols (b s) then skip_word b es (Suc s) else s)"
  by pat_completeness auto
termination
  by (relation "measure (\<lambda>(b, es, s). es - s)") auto

declare skip_space.simps [simp del] skip_word.simps [simp del]

text \<open>The token's code (\<open>a\<close> for a word, \<open>+\<close> for \<open>>>\<close>, 0 at the end), its first index, the index after it, and
  the index of the next token.\<close>

definition gettoken :: "block \<Rightarrow> nat \<Rightarrow> nat \<Rightarrow> u8 \<times> nat \<times> nat \<times> nat" where
  "gettoken b es s =
     (let q = skip_space b es s;
          (ret, s) =
            (if b q = 0 then (0, q)
             else if b q \<in> set (bytes ''|();&<'') then (b q, Suc q)
             else if b q = of_char CHR ''>'' then
               (if b (Suc q) = of_char CHR ''>'' then (of_char CHR ''+'', Suc (Suc q)) else (b q, Suc q))
             else (of_char CHR ''a'', skip_word b es q))
      in (ret, q, s, skip_space b es s))"

definition peek :: "block \<Rightarrow> nat \<Rightarrow> nat \<Rightarrow> string \<Rightarrow> bool \<times> nat" where
  "peek b es s toks =
     (let s = skip_space b es s in (b s \<noteq> 0 \<and> strchr (bytes toks) (b s), s))"

section \<open>Parser\<close>

definition O_RDONLY_u :: u32 where "O_RDONLY_u = 0"
definition O_WRONLY_CREATE :: u32 where "O_WRONLY_CREATE = 0x001 OR 0x200"

fun parseredirs :: "nat \<Rightarrow> block \<Rightarrow> nat \<Rightarrow> cmd \<Rightarrow> nat \<Rightarrow> cmd parsed" where
  "parseredirs 0 b es cmd s = Inl PFuel"
| "parseredirs (Suc n) b es cmd s =
     (let (p, s) = peek b es s ''<>'' in
      if \<not> p then Inr (cmd, s)
      else
        (let (tok, _, _, s) = gettoken b es s;
             (tok2, q, eq, s) = gettoken b es s in
         if tok2 \<noteq> of_char CHR ''a'' then Inl (PPanic ''missing file for redirection'')
         else parseredirs n b es
           (if tok = of_char CHR ''<'' then redircmd cmd q eq O_RDONLY_u 0
            else redircmd cmd q eq O_WRONLY_CREATE 1) s))"

text \<open>Storing an argument in the \<open>execcmd\<close> that \<open>parseexec\<close> made, under the redirections around it.\<close>

fun add_arg :: "cmd \<Rightarrow> nat \<Rightarrow> nat \<Rightarrow> cmd" where
  "add_arg (ExecCmd argv eargv) q eq = ExecCmd (argv @ [q]) (eargv @ [eq])"
| "add_arg (RedirCmd c f ef mode fd) q eq = RedirCmd (add_arg c q eq) f ef mode fd"
| "add_arg c q eq = c"

fun parseargs :: "nat \<Rightarrow> block \<Rightarrow> nat \<Rightarrow> nat \<Rightarrow> cmd \<Rightarrow> nat \<Rightarrow> cmd parsed" where
  "parseargs 0 b es argc ret s = Inl PFuel"
| "parseargs (Suc n) b es argc ret s =
     (let (p, s) = peek b es s ''|)&;'' in
      if p then Inr (ret, s)
      else
        (let (tok, q, eq, s) = gettoken b es s in
         if tok = 0 then Inr (ret, s)
         else if tok \<noteq> of_char CHR ''a'' then Inl (PPanic ''syntax'')
         else if Suc argc \<ge> MAXARGS then Inl (PPanic ''too many args'')
         else pbind (parseredirs n b es (add_arg ret q eq) s) (\<lambda>ret s. parseargs n b es (Suc argc) ret s)))"

fun parseback :: "nat \<Rightarrow> block \<Rightarrow> nat \<Rightarrow> cmd \<Rightarrow> nat \<Rightarrow> cmd parsed" where
  "parseback 0 b es cmd s = Inl PFuel"
| "parseback (Suc n) b es cmd s =
     (let (p, s) = peek b es s ''&'' in
      if \<not> p then Inr (cmd, s)
      else let (_, _, _, s) = gettoken b es s in parseback n b es (backcmd cmd) s)"

fun parseline :: "nat \<Rightarrow> block \<Rightarrow> nat \<Rightarrow> nat \<Rightarrow> cmd parsed"
  and parsepipe :: "nat \<Rightarrow> block \<Rightarrow> nat \<Rightarrow> nat \<Rightarrow> cmd parsed"
  and parseblock :: "nat \<Rightarrow> block \<Rightarrow> nat \<Rightarrow> nat \<Rightarrow> cmd parsed"
  and parseexec :: "nat \<Rightarrow> block \<Rightarrow> nat \<Rightarrow> nat \<Rightarrow> cmd parsed" where
  "parseline 0 b es s = Inl PFuel"
| "parseline (Suc n) b es s =
     pbind (parsepipe n b es s) (\<lambda>cmd s.
     pbind (parseback n b es cmd s) (\<lambda>cmd s.
       let (p, s) = peek b es s '';'' in
       if p then
         (let (_, _, _, s) = gettoken b es s in
          pbind (parseline n b es s) (\<lambda>right s. Inr (listcmd cmd right, s)))
       else Inr (cmd, s)))"
| "parsepipe 0 b es s = Inl PFuel"
| "parsepipe (Suc n) b es s =
     pbind (parseexec n b es s) (\<lambda>cmd s.
       let (p, s) = peek b es s ''|'' in
       if p then
         (let (_, _, _, s) = gettoken b es s in
          pbind (parsepipe n b es s) (\<lambda>right s. Inr (pipecmd cmd right, s)))
       else Inr (cmd, s))"
| "parseblock 0 b es s = Inl PFuel"
| "parseblock (Suc n) b es s =
     (let (p, s) = peek b es s ''('' in
      if \<not> p then Inl (PPanic ''parseblock'')
      else
        (let (_, _, _, s) = gettoken b es s in
         pbind (parseline n b es s) (\<lambda>cmd s.
           let (p, s) = peek b es s '')'' in
           if \<not> p then Inl (PPanic ''syntax - missing )'')
           else let (_, _, _, s) = gettoken b es s in parseredirs n b es cmd s)))"
| "parseexec 0 b es s = Inl PFuel"
| "parseexec (Suc n) b es s =
     (let (p, s) = peek b es s ''('' in
      if p then parseblock n b es s
      else pbind (parseredirs n b es execcmd s) (\<lambda>ret s. parseargs n b es 0 ret s))"

fun nulterminate :: "cmd \<Rightarrow> block \<Rightarrow> block" where
  "nulterminate (ExecCmd argv eargv) b = fold (\<lambda>e b. b(e := 0)) eargv b"
| "nulterminate (RedirCmd c f ef mode fd) b = (nulterminate c b)(ef := 0)"
| "nulterminate (PipeCmd l r) b = nulterminate r (nulterminate l b)"
| "nulterminate (ListCmd l r) b = nulterminate r (nulterminate l b)"
| "nulterminate (BackCmd c) b = nulterminate c b"

definition sh_panic :: "'w sysops \<Rightarrow> u8 list \<Rightarrow> 'w \<Rightarrow> ('a, 'w) uprog" where
  "sh_panic ops m w = ubind (printf ops 2 (ln ''%s'') [AStr (Some m)] w) (\<lambda>_ w. uexit w)"

text \<open>The fuel for a line that ends at index \<open>es\<close>.\<close>

definition parse_fuel :: "nat \<Rightarrow> nat" where
  "parse_fuel es = 4 * es + 5"

definition parsecmd :: "'w sysops \<Rightarrow> block \<Rightarrow> 'w \<Rightarrow> (cmd \<times> block, 'w) uprog" where
  "parsecmd ops b w =
     Option.bind (strlen_u b 0) (\<lambda>es.
       case parseline (parse_fuel es) b es 0 of
         Inl PFuel \<Rightarrow> None
       | Inl (PPanic m) \<Rightarrow> sh_panic ops (bytes m) w
       | Inr (cmd, s) \<Rightarrow>
           (let (_, s) = peek b es s [] in
            if s \<noteq> es
            then Option.bind (str_at b s) (\<lambda>rest.
                 ubind (printf ops 2 (ln ''leftovers: %s'') [AStr (Some rest)] w) (\<lambda>_ w.
                 sh_panic ops (bytes ''syntax'') w))
            else uret (cmd, nulterminate cmd b) w))"

section \<open>Running a command\<close>

definition fork1 :: "'w sysops \<Rightarrow> 'w \<Rightarrow> (int, 'w) uprog" where
  "fork1 ops w = (case u_fork ops w of (pid, w) \<Rightarrow> if pid = -1 then sh_panic ops (bytes ''fork'') w else uret pid w)"

fun runcmd :: "'w sysops \<Rightarrow> block \<Rightarrow> cmd \<Rightarrow> 'w \<Rightarrow> (unit, 'w) uprog" where
  "runcmd ops b (ExecCmd argv eargv) w =
     (if argv = [] then uexit w
      else
        Option.bind (those (map (str_at b) argv)) (\<lambda>args.
          case u_exec ops (args ! 0) args w of
            (None, w) \<Rightarrow> uexit w
          | (Some _, w) \<Rightarrow>
              ubind (printf ops 2 (ln ''exec %s failed'') [AStr (Some (args ! 0))] w) (\<lambda>_ w. uexit w)))"
| "runcmd ops b (RedirCmd c f ef mode fd) w =
     Option.bind (str_at b f) (\<lambda>file.
       case u_open ops file mode (snd (u_close ops fd w)) of
         (r, w) \<Rightarrow>
           if r < 0 then ubind (printf ops 2 (ln ''open %s failed'') [AStr (Some file)] w) (\<lambda>_ w. uexit w)
           else ubind (runcmd ops b c w) (\<lambda>_ w. uexit w))"
| "runcmd ops b (ListCmd l r) w =
     ubind (fork1 ops w) (\<lambda>pid w.
     ubind (if pid = 0 then runcmd ops b l w else uret () w) (\<lambda>_ w.
     ubind (runcmd ops b r (snd (u_wait ops w))) (\<lambda>_ w. uexit w)))"
| "runcmd ops b (PipeCmd l r) w =
     (case u_pipe ops w of
        (None, w) \<Rightarrow> sh_panic ops (bytes ''pipe'') w
      | (Some (p0, p1), w) \<Rightarrow>
          ubind (fork1 ops w) (\<lambda>pid w.
          ubind (if pid = 0
                 then (let w = snd (u_close ops 1 w);
                           w = snd (u_dup ops p1 w);
                           w = snd (u_close ops p0 w);
                           w = snd (u_close ops p1 w)
                       in runcmd ops b l w)
                 else uret () w) (\<lambda>_ w.
          ubind (fork1 ops w) (\<lambda>pid w.
          ubind (if pid = 0
                 then (let w = snd (u_close ops 0 w);
                           w = snd (u_dup ops p0 w);
                           w = snd (u_close ops p0 w);
                           w = snd (u_close ops p1 w)
                       in runcmd ops b r w)
                 else uret () w) (\<lambda>_ w.
          (let w = snd (u_close ops p0 w);
               w = snd (u_close ops p1 w);
               w = snd (u_wait ops w);
               w = snd (u_wait ops w)
           in uexit w))))))"
| "runcmd ops b (BackCmd c) w =
     ubind (fork1 ops w) (\<lambda>pid w.
     ubind (if pid = 0 then runcmd ops b c w else uret () w) (\<lambda>_ w. uexit w))"

section \<open>Main loop\<close>

definition getcmd :: "'w sysops \<Rightarrow> block \<Rightarrow> nat \<Rightarrow> 'w \<Rightarrow> (bool \<times> block, 'w) uprog" where
  "getcmd ops buf nbuf w =
     ubind (printf ops 2 (bytes ''$ '') [] w) (\<lambda>_ w.
     (let (buf, w) = gets ops (memset_u buf 0 0 nbuf) nbuf w in uret (buf 0 \<noteq> 0, buf) w))"

partial_function (option) sh_open :: "'w sysops \<Rightarrow> 'w \<Rightarrow> (unit, 'w) uprog" where
  "sh_open ops w =
     (case u_open ops (bytes ''console'') 2 w of
        (fd, w) \<Rightarrow>
          if fd \<ge> 0 then (if fd \<ge> 3 then uret () (snd (u_close ops fd w)) else sh_open ops w) else uret () w)"

partial_function (option) sh_loop :: "'w sysops \<Rightarrow> block \<Rightarrow> 'w \<Rightarrow> (unit, 'w) uprog" where
  "sh_loop ops buf w =
     ubind (getcmd ops buf 100 w) (\<lambda>r w.
       let buf = snd r in
       if \<not> fst r then uexit w
       else if buf 0 = of_char CHR ''c'' \<and> buf 1 = of_char CHR ''d'' \<and> buf 2 = 32 then
         Option.bind (strlen_u buf 0) (\<lambda>n.
         let buf = buf(n - 1 := 0) in
         Option.bind (str_at buf 3) (\<lambda>dir.
           case u_chdir ops dir w of
             (r, w) \<Rightarrow>
               if r < 0 then ubind (printf ops 2 (ln ''cannot cd %s'') [AStr (Some dir)] w) (\<lambda>_ w. sh_loop ops buf w)
               else sh_loop ops buf w))
       else
         ubind (fork1 ops w) (\<lambda>pid w.
         ubind (if pid = 0
                then ubind (parsecmd ops buf w) (\<lambda>r w. runcmd ops (snd r) (fst r) w)
                else uret () w) (\<lambda>_ w.
         sh_loop ops buf (snd (u_wait ops w)))))"

definition sh_main :: "'w sysops \<Rightarrow> 'w \<Rightarrow> (unit, 'w) uprog" where
  "sh_main ops w = ubind (sh_open ops w) (\<lambda>_ w. sh_loop ops (\<lambda>_. 0) w)"

end
