(* ===== verification/Grep_Props.thy ===== *)
theory Grep_Props
  imports Grep
begin

text \<open>
  What \<open>grep\<close> does: the recursive matcher decides the language that a pattern denotes, and the program
  prints the complete lines of a file that match.
\<close>

section \<open>The language of a pattern\<close>

text \<open>A pattern is a sequence of single and starred characters, anchored at the end or not.\<close>

datatype elem = One u8 | Many u8

fun parse_re :: "u8 list \<Rightarrow> elem list \<times> bool" where
  "parse_re [] = ([], False)"
| "parse_re [c] = (if c = 36 then ([], True) else ([One c], False))"
| "parse_re (c # d # r) =
     (if d = 42 then apfst ((#) (Many c)) (parse_re r) else apfst ((#) (One c)) (parse_re (d # r)))"

definition fits :: "u8 \<Rightarrow> u8 \<Rightarrow> bool" where
  "fits c t \<longleftrightarrow> c = 46 \<or> c = t"

fun lang :: "elem list \<Rightarrow> u8 list set" where
  "lang [] = {[]}"
| "lang (One c # es) = {t # ts | t ts. fits c t \<and> ts \<in> lang es}"
| "lang (Many c # es) = {as @ ts | as ts. list_all (fits c) as \<and> ts \<in> lang es}"

definition matches :: "elem list \<times> bool \<Rightarrow> u8 list \<Rightarrow> bool" where
  "matches p tx \<longleftrightarrow> (\<exists>b c. tx = b @ c \<and> b \<in> lang (fst p) \<and> (snd p \<longrightarrow> c = []))"

lemma matches_Nil: "matches ([], e) tx \<longleftrightarrow> e \<longrightarrow> tx = []"
  by (auto simp: matches_def)

lemma matches_One:
  "matches (apfst ((#) (One c)) p) tx \<longleftrightarrow> (case tx of [] \<Rightarrow> False | t # ts \<Rightarrow> fits c t \<and> matches p ts)"
proof (cases tx)
  case (Cons t ts)
  have "matches (apfst ((#) (One c)) p) (t # ts) \<longleftrightarrow> fits c t \<and> matches p ts"
  proof
    assume "matches (apfst ((#) (One c)) p) (t # ts)"
    then obtain b d where b: "t # ts = b @ d" "b \<in> lang (One c # fst p)" "snd p \<longrightarrow> d = []"
      unfolding matches_def by auto
    then obtain u where u: "b = t # u" "fits c t" "u \<in> lang (fst p)" by auto
    with b(1) have "ts = u @ d" by simp
    with u b(3) show "fits c t \<and> matches p ts" unfolding matches_def by blast
  next
    assume "fits c t \<and> matches p ts"
    then obtain b d where "ts = b @ d" "fits c t" "b \<in> lang (fst p)" "snd p \<longrightarrow> d = []"
      unfolding matches_def by blast
    then show "matches (apfst ((#) (One c)) p) (t # ts)"
      unfolding matches_def by (intro exI [of _ "t # b"] exI [of _ d]) simp
  qed
  with Cons show ?thesis by simp
qed (simp add: matches_def)

lemma matches_Many_iff:
  "matches (apfst ((#) (Many c)) p) tx \<longleftrightarrow> (\<exists>as r. tx = as @ r \<and> list_all (fits c) as \<and> matches p r)"
proof
  assume "matches (apfst ((#) (Many c)) p) tx"
  then obtain b d where b: "tx = b @ d" "b \<in> lang (Many c # fst p)" "snd p \<longrightarrow> d = []"
    unfolding matches_def by auto
  then obtain as u where u: "b = as @ u" "list_all (fits c) as" "u \<in> lang (fst p)" by auto
  then have "matches p (u @ d)" using b(3) unfolding matches_def by blast
  with b(1) u show "\<exists>as r. tx = as @ r \<and> list_all (fits c) as \<and> matches p r" by auto
next
  assume "\<exists>as r. tx = as @ r \<and> list_all (fits c) as \<and> matches p r"
  then obtain as u d where "tx = as @ u @ d" "list_all (fits c) as" "u \<in> lang (fst p)" "snd p \<longrightarrow> d = []"
    unfolding matches_def by blast
  then show "matches (apfst ((#) (Many c)) p) tx"
    unfolding matches_def by (intro exI [of _ "as @ u"] exI [of _ d]) auto
qed

lemma matches_Many:
  "matches (apfst ((#) (Many c)) p) tx \<longleftrightarrow>
     matches p tx \<or> (case tx of [] \<Rightarrow> False | t # ts \<Rightarrow> fits c t \<and> matches (apfst ((#) (Many c)) p) ts)"
proof -
  note eq = matches_Many_iff [of c p]
  show ?thesis
  proof
    assume "matches (apfst ((#) (Many c)) p) tx"
    then obtain as r where "tx = as @ r" "list_all (fits c) as" "matches p r" by (auto simp: eq)
    then show "matches p tx \<or> (case tx of [] \<Rightarrow> False | t # ts \<Rightarrow> fits c t \<and> matches (apfst ((#) (Many c)) p) ts)"
      by (cases as) (auto simp: eq)
  next
    assume "matches p tx \<or> (case tx of [] \<Rightarrow> False | t # ts \<Rightarrow> fits c t \<and> matches (apfst ((#) (Many c)) p) ts)"
    then show "matches (apfst ((#) (Many c)) p) tx"
    proof
      assume "matches p tx"
      then show ?thesis unfolding eq by (intro exI [of _ "[]"] exI [of _ tx]) simp
    next
      assume "case tx of [] \<Rightarrow> False | t # ts \<Rightarrow> fits c t \<and> matches (apfst ((#) (Many c)) p) ts"
      then obtain t as r where "tx = t # as @ r" "fits c t" "list_all (fits c) as" "matches p r"
        by (auto simp: eq split: list.splits)
      then show ?thesis unfolding eq by (intro exI [of _ "t # as"] exI [of _ r]) simp
    qed
  qed
qed

lemma matchhere_Nil: "matchhere [] tx"
  by (subst matchhere.simps) simp

lemma matchhere_single:
  "matchhere [c] tx \<longleftrightarrow> (if c = 36 then tx = [] else case tx of [] \<Rightarrow> False | t # ts \<Rightarrow> fits c t)"
  by (subst matchhere.simps) (auto simp: fits_def matchhere_Nil split: list.splits)

lemma matchhere_Cons:
  "matchhere (c # d # r) tx \<longleftrightarrow>
     (if d = 42 then matchstar c r tx else case tx of [] \<Rightarrow> False | t # ts \<Rightarrow> fits c t \<and> matchhere (d # r) ts)"
  by (subst matchhere.simps) (auto simp: fits_def split: list.splits)

lemma matcher_correct:
  shows "matchhere re tx \<longleftrightarrow> matches (parse_re re) tx"
    and "matchstar c re tx \<longleftrightarrow> matches (apfst ((#) (Many c)) (parse_re re)) tx"
proof (induction re tx and c re tx rule: matchhere_matchstar.induct)
  case (1 re tx)
  show ?case
  proof (cases re rule: parse_re.cases)
    case 1
    then show ?thesis by (simp add: matchhere_Nil matches_Nil)
  next
    case (2 c)
    then show ?thesis
      by (auto simp: matchhere_single matches_Nil matches_One [of c "([], False)", simplified] split: list.splits)
  next
    case (3 c d r)
    with "1.IH" show ?thesis
      by (auto simp: matchhere_Cons matches_One fits_def split: list.splits)
  qed
next
  case (2 c re tx)
  then show ?case
    by (subst matchstar.simps, subst matches_Many) (auto simp: fits_def split: list.splits)
qed

lemma match_from_iff: "match_from re tx \<longleftrightarrow> (\<exists>a b. tx = a @ b \<and> matches (parse_re re) b)"
proof (induction tx)
  case Nil
  then show ?case by (simp add: match_from.simps matcher_correct)
next
  case (Cons t ts)
  have "(\<exists>a b. t # ts = a @ b \<and> matches (parse_re re) b) \<longleftrightarrow>
      matches (parse_re re) (t # ts) \<or> (\<exists>a b. ts = a @ b \<and> matches (parse_re re) b)"
    by (metis append_Cons append_Nil append_eq_Cons_conv)
  then show ?case using Cons by (simp add: match_from.simps [of re "t # ts"] matcher_correct)
qed

text \<open>C22. The matcher of \<open>grep\<close> decides the language of its pattern: \<open>match re text\<close> holds exactly if some
  part of the text is a word of the language that the pattern denotes, where the part starts at the
  beginning of the text if the pattern starts with \<open>^\<close> and ends at its end if the pattern ends
  with a \<open>$\<close> that is not starred.  The recursion over stars ends for every pattern and text.\<close>

theorem grep_match_denotes:
  "match re tx \<longleftrightarrow>
     (let (start, es) = (if re \<noteq> [] \<and> hd re = 94 then (True, tl re) else (False, re)) in
      \<exists>a b c. tx = a @ b @ c \<and> b \<in> lang (fst (parse_re es)) \<and>
        (start \<longrightarrow> a = []) \<and> (snd (parse_re es) \<longrightarrow> c = []))"
  by (auto simp: match_def matcher_correct match_from_iff matches_def)

theorem grep_match_denotes_witness:
  "match (bytes ''^ab*c$'') (bytes ''abbbc'') \<and> \<not> match (bytes ''^ab*c$'') (bytes ''abbbcd'') \<and>
   (\<exists>a b c. bytes ''xxacz'' = a @ b @ c \<and> b \<in> lang (fst (parse_re (bytes ''ab*c''))))"
proof -
  have "match (bytes ''ab*c'') (bytes ''xxacz'')"
    by (simp add: match_def bytes_def match_from.simps matchhere.simps matchstar.simps)
  from this [unfolded grep_match_denotes] show ?thesis
    by (auto simp: match_def bytes_def matchhere.simps matchstar.simps)
qed

section \<open>Arrays and strings\<close>

lemma strlen_loop_eq:
  "i \<le> n \<Longrightarrow> \<forall>k. i \<le> k \<and> k < n \<longrightarrow> s k \<noteq> 0 \<Longrightarrow> s n = 0 \<Longrightarrow> strlen_loop s i = Some n"
proof (induction "n - i" arbitrary: i)
  case 0
  then show ?case by (simp add: strlen_loop.simps [of s i])
next
  case (Suc d)
  then have "s i \<noteq> 0" "strlen_loop s (Suc i) = Some n" by simp_all
  then show ?case by (simp add: strlen_loop.simps [of s i])
qed

lemma strchr_at_found:
  "i \<le> n \<Longrightarrow> \<forall>k. i \<le> k \<and> k < n \<longrightarrow> s k \<noteq> 0 \<and> s k \<noteq> c \<Longrightarrow> s n = c \<Longrightarrow> c \<noteq> 0 \<Longrightarrow>
   strchr_at s i c = Some (Some n)"
proof (induction "n - i" arbitrary: i)
  case 0
  then show ?case by (simp add: strchr_at.simps [of s i])
next
  case (Suc d)
  then have "s i \<noteq> 0" "s i \<noteq> c" "strchr_at s (Suc i) c = Some (Some n)" by simp_all
  then show ?case by (simp add: strchr_at.simps [of s i])
qed

lemma strchr_at_none:
  "i \<le> n \<Longrightarrow> \<forall>k. i \<le> k \<and> k < n \<longrightarrow> s k \<noteq> 0 \<and> s k \<noteq> c \<Longrightarrow> s n = 0 \<Longrightarrow> strchr_at s i c = Some None"
proof (induction "n - i" arbitrary: i)
  case 0
  then show ?case by (simp add: strchr_at.simps [of s i])
next
  case (Suc d)
  then have "s i \<noteq> 0" "s i \<noteq> c" "strchr_at s (Suc i) c = Some None" by simp_all
  then show ?case by (simp add: strchr_at.simps [of s i])
qed

lemma memmove_u_eq:
  "d \<le> f \<Longrightarrow> memmove_u s d f n = (\<lambda>k. if d \<le> k \<and> k < d + n then s (k - d + f) else s k)"
proof (induction n arbitrary: s d f)
  case (Suc n)
  let ?t = "s(d := s f)"
  have "memmove_u s d f (Suc n) =
      (\<lambda>k. if Suc d \<le> k \<and> k < Suc d + n then ?t (k - Suc d + Suc f) else ?t k)"
    unfolding memmove_u.simps using Suc.prems by (subst Suc.IH) simp_all
  also have "\<dots> = (\<lambda>k. if d \<le> k \<and> k < d + Suc n then s (k - d + f) else s k)"
  proof
    fix k
    consider "k < d" | "k = d" | "Suc d \<le> k" by linarith
    then show "(if Suc d \<le> k \<and> k < Suc d + n then ?t (k - Suc d + Suc f) else ?t k) =
        (if d \<le> k \<and> k < d + Suc n then s (k - d + f) else s k)"
    proof cases
      case 3
      with Suc.prems have "k - Suc d + Suc f = k - d + f" "k - d + f \<noteq> d" "k \<noteq> d" by linarith+
      then show ?thesis using 3 by (simp del: add_Suc_right)
    qed simp_all
  qed
  finally show ?case .
qed (auto simp: fun_eq_iff)

section \<open>The program\<close>

text \<open>The complete lines of a text, without their newlines, and what follows the last newline.\<close>

fun lines_of :: "u8 list \<Rightarrow> u8 list list \<times> u8 list" where
  "lines_of [] = ([], [])"
| "lines_of (c # cs) =
     (let (ls, r) = lines_of cs in
      if c = 10 then ([] # ls, r) else case ls of [] \<Rightarrow> ([], c # r) | l # ls \<Rightarrow> ((c # l) # ls, r))"

definition selected :: "u8 list \<Rightarrow> u8 list list \<Rightarrow> u8 list" where
  "selected re ls = concat (map (\<lambda>l. l @ [10]) (filter (match re) ls))"

definition short_lines :: "u8 list \<Rightarrow> bool" where
  "short_lines cs \<longleftrightarrow> list_all (\<lambda>l. length l \<le> 1022) (snd (lines_of cs) # fst (lines_of cs))"

text \<open>The world of a program that reads a file and writes to standard output: \<open>inp\<close> is the part of the
  file that has not been read, \<open>out\<close> what has been written.\<close>

definition reads_file :: "'w sysops \<Rightarrow> int \<Rightarrow> ('w \<Rightarrow> u8 list) \<Rightarrow> ('w \<Rightarrow> u8 list) \<Rightarrow> bool" where
  "reads_file ops fd inp out \<longleftrightarrow>
     (\<forall>n w. fst (u_read ops fd n w) = Some (take n (inp w)) \<and> inp (snd (u_read ops fd n w)) = drop n (inp w) \<and>
        out (snd (u_read ops fd n w)) = out w) \<and>
     (\<forall>bs w. out (snd (u_write ops 1 bs w)) = out w @ bs \<and> inp (snd (u_write ops 1 bs w)) = inp w)"

lemma lines_of_line: "10 \<notin> set l \<Longrightarrow> lines_of (l @ 10 # r) = (l # fst (lines_of r), snd (lines_of r))"
  by (induction l) (auto split: prod.splits)

lemma lines_of_none: "10 \<notin> set l \<Longrightarrow> lines_of l = ([], l)"
  by (induction l) auto

lemma lines_of_append:
  "lines_of (a @ b) =
     (let (ls, t) = lines_of a; (ls', t') = lines_of (t @ b) in (ls @ ls', t'))"
proof (induction a)
  case (Cons c cs)
  then show ?case by (auto split: prod.splits list.splits)
qed simp

lemma lines_of_tail:
  "10 \<notin> set (snd (lines_of cs)) \<and> length (snd (lines_of cs)) \<le> length cs \<and>
   set (snd (lines_of cs)) \<subseteq> set cs \<and> (10 \<in> set cs \<longrightarrow> length (snd (lines_of cs)) < length cs)"
  by (induction cs) (auto split: prod.splits list.splits)

lemma selected_append: "selected re (a @ b) = selected re a @ selected re b"
  by (simp add: selected_def)

lemma short_lines_prefix: "10 \<notin> set a \<Longrightarrow> short_lines (a @ b) \<Longrightarrow> length a \<le> 1022"
proof (cases "10 \<in> set b")
  case True
  assume a: "10 \<notin> set a" and s: "short_lines (a @ b)"
  from True obtain l r where b: "b = l @ 10 # r" "10 \<notin> set l" by (meson split_list_first)
  with a have "lines_of (a @ b) = ((a @ l) # fst (lines_of r), snd (lines_of r))"
    using lines_of_line [of "a @ l" r] by simp
  with s show ?thesis by (simp add: short_lines_def)
next
  case False
  assume "10 \<notin> set a" and s: "short_lines (a @ b)"
  with False lines_of_none [of "a @ b"] show ?thesis by (simp add: short_lines_def)
qed

lemma short_lines_tail: "short_lines (a @ b) \<Longrightarrow> short_lines (snd (lines_of a) @ b)"
  by (auto simp: short_lines_def lines_of_append [of a b] split: prod.splits)

lemma nth_upt_map: "map b [p..<n] = ds \<Longrightarrow> p \<le> k \<Longrightarrow> k < n \<Longrightarrow> b k = ds ! (k - p)"
  by auto

lemma grep_lines_prints:
  assumes "reads_file ops fd inp out"
  shows "map buf [p..<n] = ds \<Longrightarrow> p \<le> n \<Longrightarrow> 0 \<notin> set ds \<Longrightarrow> buf n = 0 \<Longrightarrow>
    \<exists>buf' w'. grep_lines ops re buf p w = uret (buf', n - length (snd (lines_of ds))) w' \<and>
      map buf' [n - length (snd (lines_of ds))..<n] = snd (lines_of ds) \<and>
      out w' = out w @ selected re (fst (lines_of ds)) \<and> inp w' = inp w"
proof (induction ds arbitrary: buf p w rule: length_induct)
  case (1 ds)
  have n: "n = p + length ds" using 1(2,3) by auto
  note at = nth_upt_map [OF 1(2)]
  show ?case
  proof (cases "10 \<in> set ds")
    case False
    have "\<forall>k. p \<le> k \<and> k < n \<longrightarrow> buf k \<noteq> 0 \<and> buf k \<noteq> 10"
    proof (intro allI impI)
      fix k assume "p \<le> k \<and> k < n"
      then have "buf k = ds ! (k - p)" "k - p < length ds" using at n by auto
      then have "buf k \<in> set ds" by simp
      with False 1(4) show "buf k \<noteq> 0 \<and> buf k \<noteq> 10" by metis
    qed
    from strchr_at_none [OF 1(3) this 1(5)] show ?thesis
      using 1(2) n by (simp add: grep_lines.simps [of ops re buf] lines_of_none [OF False] selected_def)
  next
    case True
    then obtain l r where ds: "ds = l @ 10 # r" "10 \<notin> set l" by (meson split_list_first)
    let ?q = "p + length l"
    have q: "?q < n" "buf ?q = 10" using at [of ?q] ds n by simp_all
    have l: "\<forall>k. p \<le> k \<and> k < ?q \<longrightarrow> buf k \<noteq> 0 \<and> buf k \<noteq> 10"
    proof (intro allI impI)
      fix k assume "p \<le> k \<and> k < ?q"
      then have "buf k = l ! (k - p)" "k - p < length l" using at [of k] ds q by (auto simp: nth_append)
      then have "buf k \<in> set l" by simp
      with ds 1(4) show "buf k \<noteq> 0 \<and> buf k \<noteq> 10" by (metis Un_iff set_append)
    qed
    have chr: "strchr_at buf p 10 = Some (Some ?q)" using strchr_at_found [of p ?q buf 10] l q by simp
    have "strlen_loop (buf(?q := 0)) p = Some ?q" using strlen_loop_eq [of p ?q "buf(?q := 0)"] l by simp
    moreover have "map (buf(?q := 0)) [p..<?q] = l"
      by (rule nth_equalityI) (use at q ds in \<open>auto simp: nth_append\<close>)
    ultimately have str: "str_at (buf(?q := 0)) p = Some l" by (simp add: str_at_def)
    have id: "buf(?q := 10) = buf" using q by auto
    have out: "map buf [p..<Suc ?q] = l @ [10]"
      by (rule nth_equalityI) (use at q ds in \<open>auto simp: nth_append less_Suc_eq\<close>)
    have r: "map (buf(?q := c)) [Suc ?q..<n] = r" for c
    proof (rule nth_equalityI)
      show "length (map (buf(?q := c)) [Suc ?q..<n]) = length r" using n ds by (simp del: upt_Suc)
      fix i assume "i < length (map (buf(?q := c)) [Suc ?q..<n])"
      then have "i < length r" using n ds by (simp del: upt_Suc)
      then show "map (buf(?q := c)) [Suc ?q..<n] ! i = r ! i"
        using at [of "Suc ?q + i"] n ds by (simp add: nth_append del: upt_Suc)
    qed
    have len: "length r < length ds" "Suc ?q \<le> n" "0 \<notin> set r" "(buf(?q := c)) n = 0" for c
      using ds n 1(4,5) q by auto
    note IH = 1(1) [rule_format, OF len(1) r len(2,3,4)]
    show ?thesis
    proof (cases "match re l")
      case True
      obtain buf' w' where
        "grep_lines ops re buf (Suc ?q) (snd (u_write ops 1 (l @ [10]) w)) = uret (buf', n - length (snd (lines_of r))) w'"
        "map buf' [n - length (snd (lines_of r))..<n] = snd (lines_of r)"
        "out w' = out (snd (u_write ops 1 (l @ [10]) w)) @ selected re (fst (lines_of r))"
        "inp w' = inp (snd (u_write ops 1 (l @ [10]) w))"
        using IH [of 10 "snd (u_write ops 1 (l @ [10]) w)"] unfolding id by blast
      then show ?thesis using assms True chr str out
        by (simp add: grep_lines.simps [of ops re buf p] id ds lines_of_line selected_def reads_file_def)
    next
      case False
      then show ?thesis using IH [of 0 w] chr str
        by (simp add: grep_lines.simps [of ops re buf p] ds lines_of_line selected_def fun_upd_def)
    qed
  qed
qed

lemma grep_loop_prints:
  assumes rf: "reads_file ops fd inp out"
  shows "map buf [0..<m] = carry \<Longrightarrow> 10 \<notin> set carry \<Longrightarrow> 0 \<notin> set (carry @ inp w) \<Longrightarrow>
    short_lines (carry @ inp w) \<Longrightarrow>
    \<exists>buf' w'. grep_loop ops re fd buf m w = uret buf' w' \<and>
      out w' = out w @ selected re (fst (lines_of (carry @ inp w)))"
proof (induction "length (inp w)" arbitrary: buf m carry w rule: less_induct)
  case less
  have m: "m = length carry" using less(2) by auto
  have m1: "m \<le> 1022" using short_lines_prefix [OF less(3,5)] m by simp
  obtain bs w1 where rd: "u_read ops fd (1024 - m - 1) w = (Some bs, w1)" "bs = take (1024 - m - 1) (inp w)"
      "inp w1 = drop (1024 - m - 1) (inp w)" "out w1 = out w"
    using rf unfolding reads_file_def by (metis prod.collapse)
  show ?case
  proof (cases "bs = []")
    case True
    with rd m1 have "inp w = []" by auto
    then show ?thesis using True rd by (simp add: grep_loop.simps [of ops re fd buf] lines_of_none less(3) selected_def)
  next
    case False
    let ?ds = "carry @ bs" and ?n = "m + length bs" and ?b = "(u_store buf m bs)(m + length bs := 0)"
    let ?t = "snd (lines_of ?ds)"
    have split: "carry @ inp w = ?ds @ inp w1" using rd by simp
    have nz: "0 \<notin> set ?ds" using less(4) rd(2) set_take_subset [of _ "inp w"] by auto
    have "map ?b [0..<?n] = ?ds"
      by (rule nth_equalityI) (use nth_upt_map [OF less(2)] m in \<open>auto simp: u_store_def nth_append\<close>)
    from grep_lines_prints [OF rf this _ nz, of re w1] obtain b2 w2 where
      g: "grep_lines ops re ?b 0 w1 = uret (b2, ?n - length ?t) w2" "map b2 [?n - length ?t..<?n] = ?t"
        "out w2 = out w1 @ selected re (fst (lines_of ?ds))" "inp w2 = inp w1" by auto
    have "0 < length (inp w)" using False rd(2) by auto
    then have shorter: "length (inp w2) < length (inp w)" using rd(3) g(4) m1 by (simp, linarith)
    show ?thesis
    proof (cases "?n - length ?t = 0")
      case True
      then have "length ?t = length ?ds" using lines_of_tail [of ?ds] m by simp
      then have no: "10 \<notin> set ?ds" using lines_of_tail [of ?ds] by auto
      have "length ?ds \<le> 1022" using short_lines_prefix [OF no, of "inp w1"] less(5) split by simp
      then have "length bs < 1023 - m" using m False by (cases bs) auto
      then have "length (inp w) \<le> 1023 - m" using rd(2) by simp
      then have e: "inp w1 = []" using rd(3) by simp
      then obtain b3 w3 where "grep_loop ops re fd b2 0 w2 = uret b3 w3" "out w3 = out w2"
        using less(1) [OF shorter, of b2 0 "[]"] g(4) by (auto simp: short_lines_def selected_def)
      then show ?thesis using True g(1,3) rd(1,4) False no e
        by (simp add: grep_loop.simps [of ops re fd buf] split lines_of_none selected_def)
    next
      case nonz: False
      let ?p = "?n - length ?t"
      have len: "length ?t \<le> ?n" using lines_of_tail [of ?ds] m by simp
      have "map (memmove_u b2 0 ?p (length ?t)) [0..<length ?t] = ?t"
      proof (rule nth_equalityI)
        fix i assume "i < length (map (memmove_u b2 0 ?p (length ?t)) [0..<length ?t])"
        then have i: "i < length ?t" by simp
        then have "b2 (i + ?p) = ?t ! i" using nth_upt_map [OF g(2), of "i + ?p"] len by simp
        with i show "map (memmove_u b2 0 ?p (length ?t)) [0..<length ?t] ! i = ?t ! i"
          by (simp add: memmove_u_eq)
      qed simp
      moreover have "?n - ?p = length ?t" using len by simp
      moreover have "0 \<notin> set (?t @ inp w2)" using lines_of_tail [of ?ds] nz less(4) split g(4) by auto
      moreover have "short_lines (?t @ inp w2)" using short_lines_tail [of ?ds "inp w1"] less(5) split g(4) by simp
      moreover have "10 \<notin> set ?t" using lines_of_tail [of ?ds] by simp
      ultimately obtain b3 w3 where
        "grep_loop ops re fd (memmove_u b2 0 ?p (?n - ?p)) (?n - ?p) w2 = uret b3 w3"
        "out w3 = out w2 @ selected re (fst (lines_of (?t @ inp w2)))"
        using less(1) [OF shorter, of "memmove_u b2 0 ?p (length ?t)" "length ?t" ?t] by auto
      moreover have "fst (lines_of (carry @ inp w)) = fst (lines_of ?ds) @ fst (lines_of (?t @ inp w2))"
        unfolding split lines_of_append [of ?ds] g(4) by (simp add: case_prod_beta)
      ultimately show ?thesis using nonz g(1,3) rd(1,4) False
        by (simp add: grep_loop.simps [of ops re fd buf] selected_append)
    qed
  qed
qed

text \<open>C23. Run on a file without zero bytes whose lines have at most 1022 characters, \<open>grep\<close> ends and prints
  exactly the complete lines that match the pattern, in order, whatever the buffer held before.  What
  follows the last newline of the file is never printed, even if it matches.\<close>

theorem grep_prints_matching_lines:
  assumes "reads_file ops fd inp out" and "0 \<notin> set (inp w)" and "short_lines (inp w)"
  shows "\<exists>buf' w'. grep ops re fd buf w = uret buf' w' \<and>
    out w' = out w @ concat (map (\<lambda>l. l @ [10]) (filter (match re) (fst (lines_of (inp w)))))"
  using grep_loop_prints [OF assms(1), of buf 0 "[]" w re] assms(2,3)
  by (simp add: grep_def selected_def)

theorem grep_prints_matching_lines_witness:
  "\<exists>buf' w'. grep file_ops (bytes ''a.c'') 0 (\<lambda>_. 7) (ln ''abc'' @ ln ''abd'' @ bytes ''aac'', []) = uret buf' w' \<and>
     snd w' = ln ''abc''"
proof -
  let ?w = "(ln ''abc'' @ ln ''abd'' @ bytes ''aac'', [] :: u8 list)"
  have "reads_file file_ops 0 fst snd" by (auto simp: reads_file_def file_ops_def)
  moreover have "0 \<notin> set (fst ?w)" "short_lines (fst ?w)" by (simp_all add: ln_def bytes_def short_lines_def)
  moreover have "concat (map (\<lambda>l. l @ [10]) (filter (match (bytes ''a.c'')) (fst (lines_of (fst ?w))))) = ln ''abc''"
    by (simp add: ln_def bytes_def match_def match_from.simps matchhere.simps)
  ultimately show ?thesis
    using grep_prints_matching_lines [of file_ops 0 fst snd ?w "bytes ''a.c''" "\<lambda>_. 7"] by simp
qed

text \<open>C24. When the input comes in pieces, as from a pipe or from the console, \<open>grep\<close> forgets an incomplete line as
  soon as a piece adds to it without ending it: with the \<open>m\<close> bytes of an incomplete line kept at the front of the buffer
  (none at the start), a piece without a newline makes \<open>grep\<close> go on as if it started at the next piece.  Both the
  piece and the bytes kept before it are lost, so that the line is matched and printed without them.\<close>

theorem grep_forgets_partial_line:
  assumes "\<forall>k < m. buf k \<noteq> 0 \<and> buf k \<noteq> 10"
    and "u_read ops fd (1024 - m - 1) w = (Some bs, w1)" and "bs \<noteq> []" and "0 \<notin> set bs" and "10 \<notin> set bs"
  shows "\<exists>buf'. grep_loop ops re fd buf m w = grep ops re fd buf' w1"
proof -
  let ?b = "(u_store buf m bs)(m + length bs := 0)"
  have "?b k \<noteq> 0 \<and> ?b k \<noteq> 10" if "k < m + length bs" for k
  proof (cases "k < m")
    case True
    with assms(1) that show ?thesis by (simp add: u_store_def)
  next
    case False
    with that have "?b k \<in> set bs" by (simp add: u_store_def)
    with assms(4,5) show ?thesis by metis
  qed
  then have "strchr_at ?b 0 10 = Some None" using strchr_at_none [of 0 "m + length bs" ?b 10] by simp
  then have "grep_lines ops re ?b 0 w1 = uret (?b, 0) w1"
    by (simp add: grep_lines.simps [of ops re ?b])
  with assms(2,3) show ?thesis
    by (intro exI [of _ ?b]) (simp add: grep_def grep_loop.simps [of ops re fd buf])
qed

text \<open>The line \<open>abcd\<close> comes in the pieces \<open>ab\<close>, which is in the buffer, \<open>c\<close> and \<open>d\<close>: only \<open>d\<close> is left of it.\<close>

theorem grep_forgets_partial_line_witness:
  "\<exists>buf'. grep_loop stream_ops (bytes ''^d'') 0 ((\<lambda>_. 0)(0 := 97, 1 := 98)) 2 ([bytes ''c'', ln ''d''], []) =
     grep stream_ops (bytes ''^d'') 0 buf' ([ln ''d''], [])"
  by (rule grep_forgets_partial_line [of 2 _ stream_ops 0 _ "bytes ''c''"])
     (auto simp: stream_ops_def bytes_def less_2_cases_iff)

end
