(* ===== verification/Sh_Props.thy ===== *)
theory Sh_Props
  imports Sh Grep_Props
begin

text \<open>
  The parser of the shell ends on every line, and on the text of a command it builds the tree of that command.
\<close>

section \<open>Tokens\<close>

lemma strchr_iff: "strchr cs c \<longleftrightarrow> c \<in> set cs"
  by (induction cs) auto

lemma skip_space_step:
  "s < es \<Longrightarrow> b s \<in> set whitespace \<Longrightarrow> skip_space b es s = skip_space b es (Suc s)"
  "\<not> s < es \<or> b s \<notin> set whitespace \<Longrightarrow> skip_space b es s = s"
  by (subst skip_space.simps, simp add: strchr_iff)+

lemma skip_word_step:
  "s < es \<Longrightarrow> b s \<notin> set whitespace \<Longrightarrow> b s \<notin> set symbols \<Longrightarrow> skip_word b es s = skip_word b es (Suc s)"
  "\<not> s < es \<or> b s \<in> set whitespace \<or> b s \<in> set symbols \<Longrightarrow> skip_word b es s = s"
  by (subst skip_word.simps, force simp: strchr_iff)+

lemma skip_space_bounds:
  "s \<le> es \<Longrightarrow> s \<le> skip_space b es s \<and> skip_space b es s \<le> es \<and>
    (skip_space b es s = es \<or> b (skip_space b es s) \<notin> set whitespace)"
proof (induction "es - s" arbitrary: s)
  case (Suc d)
  then have IH: "Suc s \<le> skip_space b es (Suc s) \<and> skip_space b es (Suc s) \<le> es \<and>
    (skip_space b es (Suc s) = es \<or> b (skip_space b es (Suc s)) \<notin> set whitespace)" by simp
  moreover have "s < es" using Suc.hyps(2) by simp
  ultimately show ?case by (cases "b s \<in> set whitespace") (auto simp: skip_space_step)
qed (simp add: skip_space_step)

lemma skip_space_stop:
  "s \<le> es \<Longrightarrow> skip_space b es s = es \<or> b (skip_space b es s) \<notin> set whitespace"
  by (simp add: skip_space_bounds)

lemma skip_space_idem: "s \<le> es \<Longrightarrow> skip_space b es (skip_space b es s) = skip_space b es s"
  using skip_space_stop [of s es b] by (intro skip_space_step) auto

lemma skip_word_bounds: "s \<le> es \<Longrightarrow> s \<le> skip_word b es s \<and> skip_word b es s \<le> es"
proof (induction "es - s" arbitrary: s)
  case (Suc d)
  then have "Suc s \<le> skip_word b es (Suc s) \<and> skip_word b es (Suc s) \<le> es" by simp
  moreover have "s < es" using Suc.hyps(2) by simp
  ultimately show ?case
    by (cases "b s \<in> set whitespace \<or> b s \<in> set symbols") (auto simp: skip_word_step)
qed (simp add: skip_word_step)

lemma skip_word_moves:
  "s < es \<Longrightarrow> b s \<notin> set whitespace \<Longrightarrow> b s \<notin> set symbols \<Longrightarrow> s < skip_word b es s"
  using skip_word_bounds [of "Suc s" es b] by (simp add: skip_word_step)

lemma symbols_set: "set symbols = insert (of_char CHR ''>'') (set (bytes ''|();&<''))"
  by (auto simp: symbols_def bytes_def)

lemma gettoken_bounds:
  assumes "gettoken b es s = (t, q, e, s')" and "s \<le> es" and "b es = 0"
  shows "s \<le> q \<and> q \<le> e \<and> e \<le> s' \<and> s' \<le> es \<and> (t \<noteq> 0 \<longrightarrow> q < e)"
proof -
  let ?q = "skip_space b es s"
  have q: "q = ?q" "s' = skip_space b es e" using assms(1) by (auto simp: gettoken_def Let_def split: if_splits)
  have qb: "s \<le> q" "q \<le> es" using skip_space_bounds [OF assms(2), of b] q by simp_all
  have less: "b q \<noteq> 0 \<Longrightarrow> q < es" using qb(2) assms(3) by (cases "q = es") simp_all
  have "q \<le> e \<and> e \<le> es \<and> (t \<noteq> 0 \<longrightarrow> q < e)"
  proof (cases "b q = 0 \<or> b q \<in> set symbols")
    case True
    have gt: "b q = of_char CHR ''>'' \<Longrightarrow> b (Suc q) = of_char CHR ''>'' \<Longrightarrow> Suc q < es"
      using less assms(3) by (cases "Suc q = es") (auto simp: Suc_lessI)
    show ?thesis using True assms(1) qb less gt
      by (auto simp: gettoken_def Let_def q symbols_set split: if_splits)
  next
    case False
    then have "e = skip_word b es q" using assms(1) q(1)
      by (auto simp: gettoken_def Let_def symbols_set split: if_splits)
    moreover have "q < skip_word b es q"
      using False less skip_space_stop [OF assms(2), of b] q by (intro skip_word_moves) auto
    ultimately show ?thesis using skip_word_bounds [of q es b] qb by simp
  qed
  then show ?thesis using qb q skip_space_bounds [of e es b] by auto
qed

lemma peek_bounds:
  assumes "peek b es s toks = (p, s')" and "s \<le> es"
  shows "s \<le> s' \<and> s' \<le> es \<and> (p \<longrightarrow> b s' \<noteq> 0) \<and> skip_space b es s' = s'"
  using assms skip_space_bounds [OF assms(2), of b] skip_space_idem [OF assms(2), of b]
  by (auto simp: peek_def Let_def)

lemma gettoken_after_peek:
  assumes "gettoken b es s = (t, q, e, s')" and "s \<le> es" and "b es = 0" and "b s \<noteq> 0" and "skip_space b es s = s"
  shows "s < s' \<and> s' \<le> es"
proof -
  have "t \<noteq> 0"
    using assms(1,4,5) by (auto simp: gettoken_def Let_def bytes_def split: if_splits)
  with gettoken_bounds [OF assms(1,2,3)] show ?thesis by auto
qed

section \<open>Termination\<close>

definition ends_in :: "nat \<Rightarrow> nat \<Rightarrow> 'a parsed \<Rightarrow> bool" where
  "ends_in es s r \<longleftrightarrow> (case r of Inl e \<Rightarrow> e \<noteq> PFuel | Inr (c, s') \<Rightarrow> s \<le> s' \<and> s' \<le> es)"

lemma ends_in_simps [simp]:
  "ends_in es s (Inl (PPanic m))" "ends_in es s (Inr (c, s')) \<longleftrightarrow> s \<le> s' \<and> s' \<le> es"
  by (simp_all add: ends_in_def)

lemma ends_in_mono: "ends_in es s r \<Longrightarrow> s0 \<le> s \<Longrightarrow> ends_in es s0 r"
  by (auto simp: ends_in_def split: sum.splits)

lemma ends_in_bind:
  assumes "ends_in es s r" and "\<And>c s'. r = Inr (c, s') \<Longrightarrow> s \<le> s' \<Longrightarrow> s' \<le> es \<Longrightarrow> ends_in es s' (f c s')"
  shows "ends_in es s (pbind r f)"
  using assms by (cases r) (auto simp: ends_in_def split: sum.splits)

lemma parseredirs_ends:
  "b es = 0 \<Longrightarrow> s \<le> es \<Longrightarrow> es - s < n \<Longrightarrow> ends_in es s (parseredirs n b es cmd s)"
proof (induction n arbitrary: cmd s)
  case (Suc n)
  obtain p s1 where p: "peek b es s ''<>'' = (p, s1)" by fastforce
  note pb = peek_bounds [OF p Suc.prems(2)]
  obtain t1 q1 e1 s2 where t1: "gettoken b es s1 = (t1, q1, e1, s2)" by (metis prod_cases4)
  obtain t2 q2 e2 s3 where t2: "gettoken b es s2 = (t2, q2, e2, s3)" by (metis prod_cases4)
  show ?case
  proof (cases p)
    case True
    have 1: "s1 < s2" "s2 \<le> es" using gettoken_after_peek [OF t1 _ Suc.prems(1)] pb True by simp_all
    have 2: "s2 \<le> s3" "s3 \<le> es" using gettoken_bounds [OF t2 1(2) Suc.prems(1)] by auto
    have "ends_in es s (parseredirs n b es c s3)" for c
      using Suc.IH [of s3 c] Suc.prems 1 2 pb by (auto intro: ends_in_mono [of es s3])
    then show ?thesis using p t1 t2 True by simp
  qed (use p pb in simp)
qed simp

lemma parseargs_ends:
  "b es = 0 \<Longrightarrow> s \<le> es \<Longrightarrow> es - s < n \<Longrightarrow> ends_in es s (parseargs n b es argc ret s)"
proof (induction n arbitrary: argc ret s)
  case (Suc n)
  obtain p s1 where p: "peek b es s ''|)&;'' = (p, s1)" by fastforce
  note pb = peek_bounds [OF p Suc.prems(2)]
  obtain t q e s2 where t: "gettoken b es s1 = (t, q, e, s2)" by (metis prod_cases4)
  have tb: "s1 \<le> s2" "s2 \<le> es" "t \<noteq> 0 \<Longrightarrow> s1 < s2" using gettoken_bounds [OF t _ Suc.prems(1)] pb by auto
  have "ends_in es s2 (pbind (parseredirs n b es c s2) (\<lambda>ret s. parseargs n b es (Suc argc) ret s))" if "t \<noteq> 0" for c
    using Suc.prems Suc.IH tb that pb by (intro ends_in_bind parseredirs_ends) auto
  then have "ends_in es s (pbind (parseredirs n b es c s2) (\<lambda>ret s. parseargs n b es (Suc argc) ret s))" if "t \<noteq> 0" for c
    using that tb pb by (auto intro: ends_in_mono [of es s2])
  then show ?case using p t pb tb by auto
qed simp

lemma parseback_ends:
  "b es = 0 \<Longrightarrow> s \<le> es \<Longrightarrow> es - s < n \<Longrightarrow> ends_in es s (parseback n b es cmd s)"
proof (induction n arbitrary: cmd s)
  case (Suc n)
  obtain p s1 where p: "peek b es s ''&'' = (p, s1)" by fastforce
  note pb = peek_bounds [OF p Suc.prems(2)]
  obtain t q e s2 where t: "gettoken b es s1 = (t, q, e, s2)" by (metis prod_cases4)
  show ?case
  proof (cases p)
    case True
    have "s1 < s2" "s2 \<le> es" using gettoken_after_peek [OF t _ Suc.prems(1)] pb True by simp_all
    then have "ends_in es s (parseback n b es c s2)" for c
      using Suc.IH [of s2 c] Suc.prems pb by (auto intro: ends_in_mono [of es s2])
    then show ?thesis using p t True by simp
  qed (use p pb in simp)
qed simp

lemma peek_then_token:
  assumes "peek b es s0 toks = (p, s1)" and "s0 \<le> es" and p and "b es = 0"
  obtains t q e s2 where "gettoken b es s1 = (t, q, e, s2)" "s1 < s2" "s2 \<le> es"
proof -
  obtain t q e s2 where t: "gettoken b es s1 = (t, q, e, s2)" by (metis prod_cases4)
  then show ?thesis using gettoken_after_peek [OF t] peek_bounds [OF assms(1,2)] assms(3,4) that by auto
qed

text \<open>The four mutually recursive routines end with fuel \<open>n\<close>, if that is enough for the rest of the line.\<close>

definition parser_ends :: "block \<Rightarrow> nat \<Rightarrow> nat \<Rightarrow> bool" where
  "parser_ends b es n \<longleftrightarrow> (\<forall>s \<le> es.
     (4 * (es - s) + 4 \<le> n \<longrightarrow> ends_in es s (parseline n b es s)) \<and>
     (4 * (es - s) + 3 \<le> n \<longrightarrow> ends_in es s (parsepipe n b es s)) \<and>
     (4 * (es - s) + 1 \<le> n \<longrightarrow> ends_in es s (parseblock n b es s)) \<and>
     (4 * (es - s) + 2 \<le> n \<longrightarrow> ends_in es s (parseexec n b es s)))"

lemma parseline_ends:
  assumes "b es = 0" and IH: "parser_ends b es n" and s: "s \<le> es" "4 * (es - s) + 4 \<le> Suc n"
  shows "ends_in es s (parseline (Suc n) b es s)"
  unfolding parseline.simps
proof (intro ends_in_bind)
  show "ends_in es s (parsepipe n b es s)" using IH s by (simp add: parser_ends_def)
  fix cmd s1 assume s1: "s \<le> s1" "s1 \<le> es"
  show "ends_in es s1 (parseback n b es cmd s1)" using s s1 assms(1) by (intro parseback_ends) auto
  fix cmd s2 assume s2: "s1 \<le> s2" "s2 \<le> es"
  obtain p s3 where p: "peek b es s2 '';'' = (p, s3)" by fastforce
  note pb = peek_bounds [OF p s2(2)]
  show "ends_in es s2 (let (p, s) = peek b es s2 '';'' in
     if p then (let (_, _, _, s) = gettoken b es s in
        pbind (parseline n b es s) (\<lambda>right s. Inr (ListCmd cmd right, s))) else Inr (cmd, s))"
  proof (cases p)
    case True
    from peek_then_token [OF p s2(2) True assms(1)] obtain t q e s4 where
      t: "gettoken b es s3 = (t, q, e, s4)" "s3 < s4" "s4 \<le> es" .
    have "ends_in es s4 (parseline n b es s4)" using IH t s s1 s2 pb by (auto simp: parser_ends_def)
    then have "ends_in es s4 (pbind (parseline n b es s4) (\<lambda>right s. Inr (ListCmd cmd right, s)))"
      by (rule ends_in_bind) simp
    then show ?thesis using p True t pb by (auto intro: ends_in_mono [of es s4])
  qed (use p pb in simp)
qed

lemma parsepipe_ends:
  assumes "b es = 0" and IH: "parser_ends b es n" and s: "s \<le> es" "4 * (es - s) + 3 \<le> Suc n"
  shows "ends_in es s (parsepipe (Suc n) b es s)"
  unfolding parsepipe.simps
proof (intro ends_in_bind)
  show "ends_in es s (parseexec n b es s)" using IH s by (simp add: parser_ends_def)
  fix cmd s2 assume s2: "s \<le> s2" "s2 \<le> es"
  obtain p s3 where p: "peek b es s2 ''|'' = (p, s3)" by fastforce
  note pb = peek_bounds [OF p s2(2)]
  show "ends_in es s2 (let (p, s) = peek b es s2 ''|'' in
     if p then (let (_, _, _, s) = gettoken b es s in
        pbind (parsepipe n b es s) (\<lambda>right s. Inr (PipeCmd cmd right, s))) else Inr (cmd, s))"
  proof (cases p)
    case True
    from peek_then_token [OF p s2(2) True assms(1)] obtain t q e s4 where
      t: "gettoken b es s3 = (t, q, e, s4)" "s3 < s4" "s4 \<le> es" .
    have "ends_in es s4 (parsepipe n b es s4)" using IH t s s2 pb by (auto simp: parser_ends_def)
    then have "ends_in es s4 (pbind (parsepipe n b es s4) (\<lambda>right s. Inr (PipeCmd cmd right, s)))"
      by (rule ends_in_bind) simp
    then show ?thesis using p True t pb by (auto intro: ends_in_mono [of es s4])
  qed (use p pb in simp)
qed

lemma parseblock_ends:
  assumes "b es = 0" and IH: "parser_ends b es n" and s: "s \<le> es" "4 * (es - s) + 1 \<le> Suc n"
  shows "ends_in es s (parseblock (Suc n) b es s)"
proof -
  obtain p s1 where p: "peek b es s ''('' = (p, s1)" by fastforce
  note pb = peek_bounds [OF p s(1)]
  show ?thesis
  proof (cases p)
    case True
    from peek_then_token [OF p s(1) True assms(1)] obtain t q e s2 where
      t: "gettoken b es s1 = (t, q, e, s2)" "s1 < s2" "s2 \<le> es" .
    have "ends_in es s2 (pbind (parseline n b es s2) (\<lambda>cmd s. let (p, s) = peek b es s '')'' in
         if \<not> p then Inl (PPanic ''syntax - missing )'')
         else let (_, _, _, s) = gettoken b es s in parseredirs n b es cmd s))"
    proof (rule ends_in_bind)
      show "ends_in es s2 (parseline n b es s2)" using IH t s pb by (auto simp: parser_ends_def)
      fix cmd s3 assume s3: "s2 \<le> s3" "s3 \<le> es"
      obtain p s4 where p4: "peek b es s3 '')'' = (p, s4)" by fastforce
      show "ends_in es s3 (let (p, s) = peek b es s3 '')'' in
         if \<not> p then Inl (PPanic ''syntax - missing )'')
         else let (_, _, _, s) = gettoken b es s in parseredirs n b es cmd s)"
      proof (cases p)
        case True
        from peek_then_token [OF p4 s3(2) True assms(1)] obtain t q e s5 where
          t5: "gettoken b es s4 = (t, q, e, s5)" "s4 < s5" "s5 \<le> es" .
        have "ends_in es s5 (parseredirs n b es cmd s5)"
          using t5 s s3 t pb peek_bounds [OF p4 s3(2)] assms(1) by (intro parseredirs_ends) auto
        then show ?thesis using p4 True t5 peek_bounds [OF p4 s3(2)] by (auto intro: ends_in_mono [of es s5])
      qed (use p4 in simp)
    qed
    then show ?thesis using p True t pb by (auto intro: ends_in_mono [of es s2])
  qed (use p in simp)
qed

lemma parseexec_ends:
  assumes "b es = 0" and IH: "parser_ends b es n" and s: "s \<le> es" "4 * (es - s) + 2 \<le> Suc n"
  shows "ends_in es s (parseexec (Suc n) b es s)"
proof -
  obtain p s1 where p: "peek b es s ''('' = (p, s1)" by fastforce
  note pb = peek_bounds [OF p s(1)]
  have "ends_in es s1 (parseblock n b es s1)" using IH pb s by (auto simp: parser_ends_def)
  moreover have "ends_in es s1 (pbind (parseredirs n b es (ExecCmd [] []) s1) (\<lambda>ret s. parseargs n b es 0 ret s))"
    using pb s assms(1) by (intro ends_in_bind parseredirs_ends parseargs_ends) auto
  ultimately show ?thesis using p pb by (auto intro: ends_in_mono [of es s1])
qed

lemma parser_ends_all: "b es = 0 \<Longrightarrow> parser_ends b es n"
proof (induction n)
  case (Suc n)
  from parseline_ends [OF Suc.prems Suc.IH [OF Suc.prems]] parsepipe_ends [OF Suc.prems Suc.IH [OF Suc.prems]]
    parseblock_ends [OF Suc.prems Suc.IH [OF Suc.prems]] parseexec_ends [OF Suc.prems Suc.IH [OF Suc.prems]]
  show ?case unfolding parser_ends_def by blast
qed (simp add: parser_ends_def)

lemma printf_string: "\<exists>v. printf ops fd (ln ''%s'') [AStr (Some m)] w = uret () v"
  by (simp add: printf_def ln_def bytes_def)

lemma printf_leftovers: "\<exists>v. printf ops fd (ln ''leftovers: %s'') [AStr (Some m)] w = uret () v"
  by (simp add: printf_def ln_def bytes_def)

lemma sh_panic_exits: "\<exists>v. sh_panic ops m w = uexit v"
  unfolding sh_panic_def using printf_string [of ops 2 m w] by auto

lemma strlen_loop_least:
  assumes "s n = (0 :: u8)"
  shows "strlen_loop s 0 = Some (LEAST k. s k = 0)"
proof -
  define m where "m = (LEAST k. s k = 0)"
  have "s m = 0" unfolding m_def using assms by (rule LeastI)
  moreover have "\<forall>k. 0 \<le> k \<and> k < m \<longrightarrow> s k \<noteq> 0" unfolding m_def by (blast dest: not_less_Least)
  ultimately show ?thesis using strlen_loop_eq [of 0 m s] by (simp flip: m_def)
qed

text \<open>C19. The parser of the shell ends on every line: whatever bytes the buffer holds before its first zero
  byte, \<open>parsecmd\<close> either returns a command or prints a message and exits.\<close>

theorem parsecmd_ends:
  assumes "b n = 0"
  shows "(\<exists>cmd b'. parsecmd ops b w = uret (cmd, b') w) \<or> (\<exists>v. parsecmd ops b w = uexit v)"
proof -
  define es where "es = (LEAST k. b k = 0)"
  have es: "b es = 0" unfolding es_def using assms by (rule LeastI)
  have len: "strlen_u b 0 = Some es" using strlen_loop_least [of b n, OF assms] by (simp add: strlen_u_def es_def)
  have p: "ends_in es 0 (parseline (parse_fuel es) b es 0)"
    using parser_ends_all [of b es "parse_fuel es", OF es] by (simp add: parser_ends_def parse_fuel_def)
  have str: "\<exists>t. str_at b s = Some t" if "s \<le> es" for s
  proof -
    have "b k \<noteq> 0" if "k < es" for k using that unfolding es_def by (rule not_less_Least)
    then show ?thesis using strlen_loop_eq [of s es b] es that by (simp add: str_at_def)
  qed
  show ?thesis
  proof (cases "parseline (parse_fuel es) b es 0")
    case (Inl e)
    with p obtain m where "e = PPanic m" by (cases e) (auto simp: ends_in_def)
    with Inl len show ?thesis by (simp add: parsecmd_def sh_panic_exits)
  next
    case (Inr x)
    then obtain cmd s where x: "x = (cmd, s)" by fastforce
    with Inr p have s: "s \<le> es" by simp
    obtain q s1 where pk: "peek b es s [] = (q, s1)" by fastforce
    from str peek_bounds [OF pk s] obtain t where "str_at b s1 = Some t" by auto
    moreover obtain v where "printf ops 2 (ln ''leftovers: %s'') [AStr (Some t)] w = uret () v"
      using printf_leftovers [of ops 2 t w] by auto
    ultimately show ?thesis using len Inr x pk by (auto simp: parsecmd_def sh_panic_exits)
  qed
qed

theorem parsecmd_ends_witness:
  "(\<exists>cmd b'. parsecmd file_ops (\<lambda>k. if k < 3 then 40 else 0) ([], []) = uret (cmd, b') ([], [])) \<or>
   (\<exists>v. parsecmd file_ops (\<lambda>k. if k < 3 then 40 else 0) ([], []) = uexit v)"
  by (rule parsecmd_ends [of _ 3]) simp

section \<open>Commands as text\<close>

text \<open>A command with its words, and its text: a word is followed by a blank, and a command is
  in parentheses where the grammar needs them.  The level is 0 for a line, 1 for the operand of \<open>&\<close>
  and the left side of \<open>;\<close>, 2 for the right side of a pipe, 3 for its left side and for what is redirected.\<close>

datatype scmd =
    SExec "u8 list list"
  | SRedir scmd bool "u8 list"
  | SPipe scmd scmd
  | SList scmd scmd
  | SBack scmd

definition paren :: "bool \<Rightarrow> u8 list \<Rightarrow> u8 list" where
  "paren p t = (if p then bytes ''('' @ t @ bytes '')'' else t)"

definition redir_text :: "bool \<times> u8 list \<Rightarrow> u8 list" where
  "redir_text r = bytes (if fst r then ''<'' else ''>'') @ snd r @ [32]"

fun cmd_text :: "nat \<Rightarrow> scmd \<Rightarrow> u8 list" where
  "cmd_text l (SExec ws) = concat (map (\<lambda>w. w @ [32]) ws)"
| "cmd_text l (SRedir c i f) = cmd_text 3 c @ redir_text (i, f)"
| "cmd_text l (SPipe a b) = paren (2 < l) (cmd_text 3 a @ bytes ''|'' @ cmd_text 2 b)"
| "cmd_text l (SBack a) = paren (1 < l) (cmd_text 1 a @ bytes ''&'')"
| "cmd_text l (SList a b) = paren (0 < l) (cmd_text 1 a @ bytes '';'' @ cmd_text 0 b)"

definition wordchar :: "u8 \<Rightarrow> bool" where
  "wordchar c \<longleftrightarrow> c \<noteq> 0 \<and> c \<notin> set whitespace \<and> c \<notin> set symbols"

definition is_word :: "u8 list \<Rightarrow> bool" where
  "is_word w \<longleftrightarrow> w \<noteq> [] \<and> list_all wordchar w"

fun scmd_ok :: "scmd \<Rightarrow> bool" where
  "scmd_ok (SExec ws) \<longleftrightarrow> list_all is_word ws \<and> length ws < MAXARGS"
| "scmd_ok (SRedir c i f) \<longleftrightarrow> scmd_ok c \<and> is_word f"
| "scmd_ok (SPipe a b) \<longleftrightarrow> scmd_ok a \<and> scmd_ok b"
| "scmd_ok (SList a b) \<longleftrightarrow> scmd_ok a \<and> scmd_ok b"
| "scmd_ok (SBack a) \<longleftrightarrow> scmd_ok a"

text \<open>Between the indices \<open>q\<close> and \<open>e\<close> the line has the word \<open>w\<close>, and it ends there; a tree of indices
  describes a command with its words.\<close>

definition word_at :: "u8 list \<Rightarrow> nat \<Rightarrow> nat \<Rightarrow> u8 list \<Rightarrow> bool" where
  "word_at T q e w \<longleftrightarrow> is_word w \<and> e = q + length w \<and> e < length T \<and> take (length w) (drop q T) = w \<and>
     \<not> wordchar (T ! e)"

fun sees :: "u8 list \<Rightarrow> cmd \<Rightarrow> scmd \<Rightarrow> bool" where
  "sees T (ExecCmd argv eargv) (SExec ws) \<longleftrightarrow>
     length argv = length ws \<and> length eargv = length ws \<and> (\<forall>i < length ws. word_at T (argv ! i) (eargv ! i) (ws ! i))"
| "sees T (RedirCmd c q e mode fd) (SRedir d i f) \<longleftrightarrow>
     sees T c d \<and> word_at T q e f \<and> mode = (if i then O_RDONLY_u else O_WRONLY_CREATE) \<and> fd = (if i then 0 else 1)"
| "sees T (PipeCmd a b) (SPipe c d) \<longleftrightarrow> sees T a c \<and> sees T b d"
| "sees T (ListCmd a b) (SList c d) \<longleftrightarrow> sees T a c \<and> sees T b d"
| "sees T (BackCmd a) (SBack c) \<longleftrightarrow> sees T a c"
| "sees T _ _ \<longleftrightarrow> False"

section \<open>The tokens of a line\<close>

definition line_buf :: "block \<Rightarrow> u8 list \<Rightarrow> bool" where
  "line_buf b T \<longleftrightarrow> (\<forall>i < length T. b i = T ! i) \<and> b (length T) = 0 \<and> 0 \<notin> set T"

definition nows :: "u8 list \<Rightarrow> bool" where
  "nows r \<longleftrightarrow> r = [] \<or> hd r \<notin> set whitespace"

lemma line_at:
  assumes "line_buf b T" and "drop s T = c # r"
  shows "s < length T" "b s = c" "drop (Suc s) T = r" "c \<noteq> 0"
proof -
  show s: "s < length T" using assms(2) by (metis drop_all linorder_not_le list.distinct(1))
  then have "T ! s = c" "drop (Suc s) T = r" using assms(2) by (metis Cons_nth_drop_Suc list.inject)+
  moreover from s have "T ! s \<in> set T" by simp
  ultimately show "b s = c" "drop (Suc s) T = r" "c \<noteq> 0" using s assms(1) by (auto simp: line_buf_def)
qed

lemma line_end:
  assumes "line_buf b T" and "drop s T = []" and "s \<le> length T"
  shows "s = length T" "b s = 0"
  using assms by (auto simp: line_buf_def)

lemma line_skip:
  assumes "line_buf b T" and "nows (drop s T)" and "s \<le> length T"
  shows "skip_space b (length T) s = s"
  using assms line_at(2) [OF assms(1), of s] by (cases "drop s T") (auto simp: nows_def skip_space_step)

lemma line_skip1:
  assumes "line_buf b T" and "drop s T = 32 # r" and "nows r"
  shows "skip_space b (length T) s = Suc s"
  using line_at [OF assms(1,2)] line_skip [OF assms(1), of "Suc s"] assms(3)
  by (subst skip_space_step) (simp_all add: whitespace_def)

lemma line_peek:
  assumes "line_buf b T" and "nows (drop s T)" and "s \<le> length T"
  shows "peek b (length T) s toks = (case drop s T of [] \<Rightarrow> False | c # r \<Rightarrow> c \<in> set (bytes toks), s)"
  using line_skip [OF assms] line_at [OF assms(1), of s] line_end [OF assms(1), of s] assms(3)
  by (cases "drop s T") (auto simp: peek_def strchr_iff)

lemma line_symbol:
  assumes "line_buf b T" and "drop s T = c # r" and "c \<in> set (bytes ''|();&<'')" and "nows r"
  shows "gettoken b (length T) s = (c, s, Suc s, Suc s)"
proof -
  note at = line_at [OF assms(1,2)]
  have "nows (drop s T)" using assms(2,3) by (auto simp: nows_def bytes_def whitespace_def)
  from line_skip [OF assms(1) this] line_skip [OF assms(1), of "Suc s"] at assms(3,4)
  show ?thesis by (simp add: gettoken_def)
qed

lemma line_gt:
  assumes "line_buf b T" and "drop s T = 62 # r" and "nows r" and "r \<noteq> []" and "hd r \<noteq> 62"
  shows "gettoken b (length T) s = (62, s, Suc s, Suc s)"
proof -
  note at = line_at [OF assms(1,2)]
  have "nows (drop s T)" using assms(2) by (simp add: nows_def whitespace_def)
  moreover have "b (Suc s) \<noteq> 62" using assms(4,5) at(3) line_at(2) [OF assms(1), of "Suc s"] by (cases r) auto
  ultimately show ?thesis using line_skip [OF assms(1), of s] line_skip [OF assms(1), of "Suc s"] at assms(3)
    by (simp add: gettoken_def bytes_def)
qed

lemma line_word_skip:
  assumes "line_buf b T"
  shows "drop s T = w @ 32 # r \<Longrightarrow> list_all wordchar w \<Longrightarrow> skip_word b (length T) s = s + length w"
proof (induction w arbitrary: s)
  case Nil
  then show ?case using line_at [OF assms, of s] by (subst skip_word_step) (auto simp: whitespace_def)
next
  case (Cons c w)
  then have "drop s T = c # w @ 32 # r" by simp
  note at = line_at [OF assms this]
  from Cons.IH [OF at(3)] Cons.prems(2) at show ?case by (subst skip_word_step) (auto simp: wordchar_def)
qed

lemma line_word:
  assumes "line_buf b T" and "drop s T = w @ 32 # r" and "is_word w" and "nows r"
  shows "gettoken b (length T) s = (97, s, s + length w, Suc (s + length w))"
    and "word_at T s (s + length w) w" and "drop (Suc (s + length w)) T = r"
proof -
  obtain c v where w: "w = c # v" "wordchar c" using assms(3) by (cases w) (auto simp: is_word_def)
  then have "drop s T = c # v @ 32 # r" using assms(2) by simp
  note at = line_at [OF assms(1) this]
  have "nows (drop s T)" using assms(2) w by (simp add: nows_def wordchar_def)
  note sk = line_skip [OF assms(1) this]
  have d: "drop (s + length w) T = 32 # r" using assms(2) by (metis append_eq_conv_conj drop_drop add.commute)
  show "gettoken b (length T) s = (97, s, s + length w, Suc (s + length w))"
    using sk at w line_word_skip [OF assms(1,2)] assms(3) line_skip1 [OF assms(1) d assms(4)]
    by (auto simp: gettoken_def is_word_def wordchar_def symbols_set)
  show "drop (Suc (s + length w)) T = r" using line_at(3) [OF assms(1) d] .
  have "s + length w < length T" "T ! (s + length w) = 32"
    using line_at [OF assms(1) d] assms(1) by (auto simp: line_buf_def)
  then show "word_at T s (s + length w) w"
    using assms(2,3) by (simp add: word_at_def wordchar_def whitespace_def)
qed

lemma line_stop:
  assumes "line_buf b T" and "drop s T = []" and "s \<le> length T"
  shows "gettoken b (length T) s = (0, s, s, s)"
  using line_skip [OF assms(1) _ assms(3)] line_end [OF assms] assms(2) by (simp add: gettoken_def nows_def Let_def)

section \<open>Parsing the text of a command\<close>

definition redirs_text :: "(bool \<times> u8 list) list \<Rightarrow> u8 list" where
  "redirs_text rs = concat (map redir_text rs)"

definition add_redirs :: "(bool \<times> u8 list) list \<Rightarrow> scmd \<Rightarrow> scmd" where
  "add_redirs rs c = fold (\<lambda>(i, f) c. SRedir c i f) rs c"

definition redirs_ok :: "(bool \<times> u8 list) list \<Rightarrow> bool" where
  "redirs_ok rs \<longleftrightarrow> list_all (\<lambda>r. is_word (snd r)) rs"

definition follow :: "string \<Rightarrow> u8 list \<Rightarrow> bool" where
  "follow F r \<longleftrightarrow> r = [] \<or> hd r \<in> set (bytes F)"

text \<open>A routine has read up to the rest \<open>r\<close> of the line and returned a tree for \<open>c\<close>.\<close>

definition reads_to :: "u8 list \<Rightarrow> cmd parsed \<Rightarrow> u8 list \<Rightarrow> scmd \<Rightarrow> bool" where
  "reads_to T x r c \<longleftrightarrow> (\<exists>cmd s. x = Inr (cmd, s) \<and> s \<le> length T \<and> drop s T = r \<and> sees T cmd c)"

lemma is_word_first:
  assumes "is_word w"
  shows "w \<noteq> []" "hd (w @ r) \<notin> set whitespace" "hd (w @ r) \<notin> set symbols" "nows (w @ r)"
  using assms by (cases w; auto simp: is_word_def wordchar_def nows_def)+

lemma follow_nows: "follow F r \<Longrightarrow> set (bytes F) \<subseteq> set (bytes ''|)&;'') \<Longrightarrow> nows r"
  by (cases r) (auto simp: follow_def nows_def bytes_def whitespace_def)

lemma follow_mono: "follow F r \<Longrightarrow> set (bytes F) \<subseteq> set (bytes G) \<Longrightarrow> follow G r"
  by (auto simp: follow_def)

lemma redirs_text_first:
  "redirs_text rs @ r = [] \<or> hd (redirs_text rs @ r) \<in> {60, 62} \<or> redirs_text rs = []"
  by (cases rs) (auto simp: redirs_text_def redir_text_def bytes_def)

lemma line_redirs:
  assumes L: "line_buf b T"
  shows "drop s T = redirs_text rs @ r \<Longrightarrow> s \<le> length T \<Longrightarrow> nows r \<Longrightarrow> r = [] \<or> hd r \<notin> {60, 62} \<Longrightarrow>
    redirs_ok rs \<Longrightarrow> length (drop s T) < n \<Longrightarrow> sees T cmd c \<Longrightarrow>
    reads_to T (parseredirs n b (length T) cmd s) r (add_redirs rs c)"
proof (induction rs arbitrary: s cmd c n)
  case Nil
  obtain m where n: "n = Suc m" using Nil.prems(6) by (cases n) auto
  have "peek b (length T) s ''<>'' = (False, s)"
    using line_peek [OF L _ Nil.prems(2), of "''<>''"] Nil.prems by (cases r) (auto simp: redirs_text_def bytes_def)
  then show ?case using Nil.prems n by (simp add: reads_to_def redirs_text_def add_redirs_def)
next
  case (Cons x rs)
  obtain m where n: "n = Suc m" using Cons.prems(6) by (cases n) auto
  obtain i f where x: "x = (i, f)" by fastforce
  have f: "is_word f" and rs: "redirs_ok rs" using Cons.prems(5) x by (auto simp: redirs_ok_def)
  let ?r = "redirs_text rs @ r"
  have nws: "nows ?r"
    using redirs_text_first [of rs r] Cons.prems(3) by (cases "redirs_text rs = []") (auto simp: nows_def whitespace_def)
  let ?c = "if i then 60 else 62 :: u8"
  have d: "drop s T = ?c # f @ 32 # ?r"
    using Cons.prems(1) x by (simp add: redirs_text_def redir_text_def bytes_def)
  have "nows (drop s T)" using d by (simp add: nows_def whitespace_def)
  from line_peek [OF L this Cons.prems(2), of "''<>''"] d
  have pk: "peek b (length T) s ''<>'' = (True, s)" by (simp add: bytes_def)
  have hf: "hd (f @ 32 # ?r) \<noteq> 62" using is_word_first(3) [OF f, of "32 # ?r"] by (auto simp: symbols_def bytes_def)
  have tk: "gettoken b (length T) s = (?c, s, Suc s, Suc s)"
  proof (cases i)
    case True
    then show ?thesis using line_symbol [OF L, of s 60] d is_word_first(4) [OF f] by (simp add: bytes_def)
  next
    case False
    then show ?thesis using line_gt [OF L, of s] d is_word_first [OF f] hf by simp
  qed
  have d1: "drop (Suc s) T = f @ 32 # ?r" using line_at(3) [OF L d] .
  note w = line_word [OF L d1 f nws]
  let ?s = "Suc (Suc s + length f)"
  have d2: "drop ?s T = ?r" by (rule w(3))
  have sl: "?s \<le> length T" using w(2) by (simp add: word_at_def)
  let ?cmd = "if i then RedirCmd cmd (Suc s) (Suc s + length f) O_RDONLY_u 0
    else RedirCmd cmd (Suc s) (Suc s + length f) O_WRONLY_CREATE 1"
  have "sees T ?cmd (SRedir c i f)" using Cons.prems(7) w(2) by simp
  moreover have "length (drop ?s T) < m" using Cons.prems(6) n d d2 by simp
  ultimately have "reads_to T (parseredirs m b (length T) ?cmd ?s) r (add_redirs rs (SRedir c i f))"
    using Cons.IH [OF d2 sl Cons.prems(3,4) rs] by blast
  then show ?case using n pk tk w(1) x by (simp add: add_redirs_def split: if_splits)
qed

lemma args_stop:
  assumes L: "line_buf b T" and "drop s T = r" and "s \<le> length T" and "follow ''|)&;'' r" and "0 < n"
  shows "parseargs n b (length T) argc ret s = Inr (ret, s)"
proof -
  obtain m where n: "n = Suc m" using assms(5) by (cases n) auto
  have nws: "nows (drop s T)" using follow_nows [OF assms(4)] assms(2) by simp
  show ?thesis
  proof (cases r)
    case Nil
    then show ?thesis using n line_peek [OF L nws assms(3)] line_stop [OF L _ assms(3)] assms(2) by simp
  next
    case (Cons c r')
    then show ?thesis using n line_peek [OF L nws assms(3), of "''|)&;''"] assms(2,4) by (simp add: follow_def)
  qed
qed

lemma line_args:
  assumes L: "line_buf b T"
  shows "drop s T = concat (map (\<lambda>w. w @ [32]) ws) @ redirs_text rs @ r \<Longrightarrow> s \<le> length T \<Longrightarrow> ws \<noteq> [] \<Longrightarrow>
    follow ''|)&;'' r \<Longrightarrow> redirs_ok rs \<Longrightarrow> list_all is_word ws \<Longrightarrow> length (acc @ ws) < MAXARGS \<Longrightarrow>
    length (drop s T) < n \<Longrightarrow> sees T ret (SExec acc) \<Longrightarrow>
    reads_to T (parseargs n b (length T) (length acc) ret s) r (add_redirs rs (SExec (acc @ ws)))"
proof (induction ws arbitrary: s ret acc n)
  case (Cons w ws)
  obtain m where n: "n = Suc m" using Cons.prems(8) by (cases n) auto
  have w: "is_word w" using Cons.prems(6) by simp
  define rest where "rest = concat (map (\<lambda>w. w @ [32]) ws) @ redirs_text rs @ r"
  have d: "drop s T = w @ 32 # rest" using Cons.prems(1) by (simp add: rest_def)
  have nr: "nows r" "r = [] \<or> hd r \<notin> {60, 62}"
    using follow_nows [OF Cons.prems(4)] Cons.prems(4) by (auto simp: follow_def bytes_def)
  have nws: "nows rest"
  proof (cases ws)
    case Nil
    then show ?thesis using redirs_text_first [of rs r] nr(1)
      by (cases "redirs_text rs = []") (auto simp: rest_def nows_def whitespace_def)
  next
    case (Cons v vs)
    then show ?thesis using Cons.prems(6) is_word_first(4) [of v] by (simp add: rest_def)
  qed
  note tk = line_word [OF L d w nws]
  have pk: "peek b (length T) s ''|)&;'' = (False, s)"
    using line_peek [OF L _ Cons.prems(2), of "''|)&;''"] d is_word_first(3,4) [OF w, of "32 # rest"]
    by (cases "w @ 32 # rest") (auto simp: symbols_def bytes_def)
  let ?s = "Suc (s + length w)"
  have sl: "?s \<le> length T" using tk(2) by (simp add: word_at_def)
  from Cons.prems(9) obtain a e where ret: "ret = ExecCmd a e" by (cases ret) auto
  have add: "sees T (add_arg ret s (s + length w)) (SExec (acc @ [w]))"
    using Cons.prems(9) tk(2) ret by (auto simp: nth_append less_Suc_eq)
  have step: "parseargs n b (length T) (length acc) ret s =
      pbind (parseredirs m b (length T) (add_arg ret s (s + length w)) ?s)
        (\<lambda>ret s. parseargs m b (length T) (length (acc @ [w])) ret s)"
    using n pk tk(1) Cons.prems(7) by simp
  have len: "length (drop ?s T) < m" using Cons.prems(8) n d tk(3) by simp
  show ?case
  proof (cases ws)
    case Nil
    then have "drop ?s T = redirs_text rs @ r" using tk(3) by (simp add: rest_def)
    from line_redirs [OF L this sl nr Cons.prems(5) len add] obtain c1 s1 where
      r1: "parseredirs m b (length T) (add_arg ret s (s + length w)) ?s = Inr (c1, s1)" "s1 \<le> length T"
        "drop s1 T = r" "sees T c1 (add_redirs rs (SExec (acc @ [w])))" by (auto simp: reads_to_def)
    have "parseargs m b (length T) (length (acc @ [w])) c1 s1 = Inr (c1, s1)"
      using args_stop [OF L r1(3,2) Cons.prems(4)] len by simp
    with r1 Nil step show ?thesis by (simp add: reads_to_def)
  next
    case (Cons v vs)
    have hd: "hd rest \<notin> {60, 62}"
      using is_word_first(3) [of v] Cons.prems(6) Cons by (auto simp: rest_def symbols_def bytes_def)
    have d1: "drop ?s T = redirs_text [] @ rest" using tk(3) by (simp add: redirs_text_def)
    from line_redirs [OF L d1 sl nws _ _ len add] hd obtain c1 s1 where
      r1: "parseredirs m b (length T) (add_arg ret s (s + length w)) ?s = Inr (c1, s1)" "s1 \<le> length T"
        "drop s1 T = rest" "sees T c1 (SExec (acc @ [w]))"
      by (auto simp: reads_to_def redirs_ok_def add_redirs_def)
    have "length (drop s1 T) < m" using len r1(3) tk(3) by simp
    with Cons.IH [OF r1(3) [unfolded rest_def] r1(2) _ Cons.prems(4,5) _ _ _ r1(4)] Cons.prems(6,7) Cons
    show ?thesis unfolding step r1(1) by simp
  qed
qed simp

text \<open>What the routines do on the text of a command, followed by redirections or \<open>&\<close> signs and a rest.\<close>

definition parses_exec :: "block \<Rightarrow> u8 list \<Rightarrow> scmd \<Rightarrow> bool" where
  "parses_exec b T c \<longleftrightarrow> (\<forall>s rs r n. s \<le> length T \<longrightarrow> drop s T = cmd_text 3 c @ redirs_text rs @ r \<longrightarrow>
     follow ''|)&;'' r \<longrightarrow> redirs_ok rs \<longrightarrow> 4 * length (drop s T) + 2 \<le> n \<longrightarrow>
     reads_to T (parseexec n b (length T) s) r (add_redirs rs c))"

definition parses_pipe :: "block \<Rightarrow> u8 list \<Rightarrow> scmd \<Rightarrow> bool" where
  "parses_pipe b T c \<longleftrightarrow> (\<forall>s r n. s \<le> length T \<longrightarrow> drop s T = cmd_text 2 c @ r \<longrightarrow>
     follow '')&;'' r \<longrightarrow> 4 * length (drop s T) + 3 \<le> n \<longrightarrow> reads_to T (parsepipe n b (length T) s) r c)"

definition parses_back :: "block \<Rightarrow> u8 list \<Rightarrow> scmd \<Rightarrow> bool" where
  "parses_back b T c \<longleftrightarrow> (\<forall>s k r n. s \<le> length T \<longrightarrow> drop s T = cmd_text 1 c @ replicate k 38 @ r \<longrightarrow>
     follow '');'' r \<longrightarrow> 4 * length (drop s T) + 3 \<le> n \<longrightarrow>
     reads_to T (pbind (parsepipe n b (length T) s) (\<lambda>cmd s. parseback n b (length T) cmd s)) r ((SBack ^^ k) c))"

definition parses_line :: "block \<Rightarrow> u8 list \<Rightarrow> scmd \<Rightarrow> bool" where
  "parses_line b T c \<longleftrightarrow> (\<forall>s r n. s \<le> length T \<longrightarrow> drop s T = cmd_text 0 c @ r \<longrightarrow>
     follow '')'' r \<longrightarrow> 4 * length (drop s T) + 4 \<le> n \<longrightarrow> reads_to T (parseline n b (length T) s) r c)"

lemma parses_execD:
  "parses_exec b T c \<Longrightarrow> s \<le> length T \<Longrightarrow> drop s T = cmd_text 3 c @ redirs_text rs @ r \<Longrightarrow> follow ''|)&;'' r \<Longrightarrow>
   redirs_ok rs \<Longrightarrow> 4 * length (drop s T) + 2 \<le> n \<Longrightarrow> reads_to T (parseexec n b (length T) s) r (add_redirs rs c)"
  by (auto simp: parses_exec_def)

lemma parses_pipeD:
  "parses_pipe b T c \<Longrightarrow> s \<le> length T \<Longrightarrow> drop s T = cmd_text 2 c @ r \<Longrightarrow> follow '')&;'' r \<Longrightarrow>
   4 * length (drop s T) + 3 \<le> n \<Longrightarrow> reads_to T (parsepipe n b (length T) s) r c"
  by (auto simp: parses_pipe_def)

lemma parses_backD:
  "parses_back b T c \<Longrightarrow> s \<le> length T \<Longrightarrow> drop s T = cmd_text 1 c @ replicate k 38 @ r \<Longrightarrow> follow '');'' r \<Longrightarrow>
   4 * length (drop s T) + 3 \<le> n \<Longrightarrow>
   reads_to T (pbind (parsepipe n b (length T) s) (\<lambda>cmd s. parseback n b (length T) cmd s)) r ((SBack ^^ k) c)"
  by (auto simp: parses_back_def)

lemma parses_lineD:
  "parses_line b T c \<Longrightarrow> s \<le> length T \<Longrightarrow> drop s T = cmd_text 0 c @ r \<Longrightarrow> follow '')'' r \<Longrightarrow>
   4 * length (drop s T) + 4 \<le> n \<Longrightarrow> reads_to T (parseline n b (length T) s) r c"
  by (auto simp: parses_line_def)

lemma nows_append: "nows a \<Longrightarrow> nows r \<Longrightarrow> nows (a @ r)"
  by (cases a) (auto simp: nows_def)

lemma nows_text: "scmd_ok c \<Longrightarrow> nows (cmd_text l c)"
proof (induction c arbitrary: l)
  case (SExec ws)
  then show ?case by (cases ws) (simp add: nows_def, simp add: is_word_first(4))
qed (auto simp: paren_def redir_text_def bytes_def whitespace_def intro!: nows_append, auto simp: nows_def whitespace_def)

lemma reads_toE:
  assumes "reads_to T x r c"
  obtains cmd s where "x = Inr (cmd, s)" "s \<le> length T" "drop s T = r" "sees T cmd c"
  using assms by (auto simp: reads_to_def)

lemma parse_exec_words:
  assumes L: "line_buf b T" and "scmd_ok (SExec ws)"
  shows "parses_exec b T (SExec ws)"
  unfolding parses_exec_def
proof (intro allI impI)
  fix s rs r n
  assume s: "s \<le> length T" and d: "drop s T = cmd_text 3 (SExec ws) @ redirs_text rs @ r" and f: "follow ''|)&;'' r"
    and rs: "redirs_ok rs" and len: "4 * length (drop s T) + 2 \<le> n"
  obtain m where n: "n = Suc m" using len by (cases n) auto
  have nr: "nows r" "r = [] \<or> hd r \<notin> {60, 62, 40}"
    using follow_nows [OF f] f by (auto simp: follow_def bytes_def)
  have rf: "redirs_text rs @ r = [] \<or> hd (redirs_text rs @ r) \<notin> set whitespace \<and> hd (redirs_text rs @ r) \<noteq> 40"
    using redirs_text_first [of rs r] nr by (cases "redirs_text rs = []") (auto simp: nows_def whitespace_def)
  have w: "list_all is_word ws" "length ws < MAXARGS" using assms(2) by simp_all
  have first: "nows (drop s T) \<and> (drop s T = [] \<or> hd (drop s T) \<noteq> 40)"
  proof (cases ws)
    case Nil
    with d rf show ?thesis by (auto simp: nows_def)
  next
    case (Cons v vs)
    then show ?thesis using w(1) d is_word_first [of v] by (auto simp: symbols_def bytes_def)
  qed
  have pk: "peek b (length T) s ''('' = (False, s)"
    using line_peek [OF L _ s, of "''(''"] first by (cases "drop s T") (auto simp: bytes_def)
  have step: "parseexec n b (length T) s = pbind (parseredirs m b (length T) (ExecCmd [] []) s)
      (\<lambda>ret s. parseargs m b (length T) (length ([] :: u8 list list)) ret s)" using n pk by simp
  have lm: "length (drop s T) < m" using len n by simp
  show "reads_to T (parseexec n b (length T) s) r (add_redirs rs (SExec ws))"
  proof (cases "ws = []")
    case True
    then have "drop s T = redirs_text rs @ r" using d by simp
    from line_redirs [OF L this s nr(1) _ rs lm, of "ExecCmd [] []" "SExec []"] nr(2) obtain c1 s1 where
      r1: "parseredirs m b (length T) (ExecCmd [] []) s = Inr (c1, s1)" "s1 \<le> length T"
        "drop s1 T = r" "sees T c1 (add_redirs rs (SExec []))" by (auto elim: reads_toE)
    then show ?thesis using True step args_stop [OF L r1(3,2) f] lm by (simp add: reads_to_def)
  next
    case False
    then obtain v vs where ws: "ws = v # vs" by (cases ws) auto
    have "hd (drop s T) \<notin> {60, 62}"
      using is_word_first(3) [of v] w(1) d ws by (auto simp: symbols_def bytes_def)
    with line_redirs [OF L, of s "[]" "drop s T" m "ExecCmd [] []" "SExec []"] s first lm obtain c1 s1 where
      r1: "parseredirs m b (length T) (ExecCmd [] []) s = Inr (c1, s1)" "s1 \<le> length T"
        "drop s1 T = drop s T" "sees T c1 (SExec [])"
      by (auto simp: redirs_text_def redirs_ok_def add_redirs_def elim: reads_toE)
    with line_args [OF L, of s1 ws rs r "[]" m c1] d f rs w False lm show ?thesis unfolding step by simp
  qed
qed

lemma parse_exec_redir:
  assumes "parses_exec b T c" and "is_word f"
  shows "parses_exec b T (SRedir c i f)"
  unfolding parses_exec_def
proof (intro allI impI)
  fix s rs r n
  assume p: "s \<le> length T" "drop s T = cmd_text 3 (SRedir c i f) @ redirs_text rs @ r" "follow ''|)&;'' r"
    "redirs_ok rs" "4 * length (drop s T) + 2 \<le> n"
  have "drop s T = cmd_text 3 c @ redirs_text ((i, f) # rs) @ r" using p(2) by (simp add: redirs_text_def)
  moreover have "redirs_ok ((i, f) # rs)" using assms(2) p(4) by (simp add: redirs_ok_def)
  ultimately have "reads_to T (parseexec n b (length T) s) r (add_redirs ((i, f) # rs) c)"
    using parses_execD [OF assms(1) p(1)] p(3,5) by blast
  then show "reads_to T (parseexec n b (length T) s) r (add_redirs rs (SRedir c i f))" by (simp add: add_redirs_def)
qed

lemma parse_exec_block:
  assumes L: "line_buf b T" and "parses_line b T c" and "cmd_text 3 c = bytes ''('' @ cmd_text 0 c @ bytes '')''"
    and "scmd_ok c"
  shows "parses_exec b T c"
  unfolding parses_exec_def
proof (intro allI impI)
  fix s rs r n
  assume s: "s \<le> length T" and d: "drop s T = cmd_text 3 c @ redirs_text rs @ r" and f: "follow ''|)&;'' r"
    and rs: "redirs_ok rs" and len: "4 * length (drop s T) + 2 \<le> n"
  obtain m where n: "n = Suc (Suc m)" using len by (cases n; cases "n - 1") auto
  have nr: "nows r" "r = [] \<or> hd r \<notin> {60, 62}" using follow_nows [OF f] f by (auto simp: follow_def bytes_def)
  let ?r2 = "redirs_text rs @ r" and ?r1 = "41 # redirs_text rs @ r"
  have n2: "nows ?r2"
    using redirs_text_first [of rs r] nr(1) by (cases "redirs_text rs = []") (auto simp: nows_def whitespace_def)
  have d0: "drop s T = 40 # cmd_text 0 c @ ?r1" using d assms(3) by (simp add: bytes_def)
  have nws: "nows (drop s T)" using d0 by (simp add: nows_def whitespace_def)
  have pk: "peek b (length T) s ''('' = (True, s)" using line_peek [OF L nws s, of "''(''"] d0 by (simp add: bytes_def)
  have n1: "nows (cmd_text 0 c @ ?r1)"
    using nows_text [OF assms(4)] by (rule nows_append) (simp add: nows_def whitespace_def)
  have t0: "gettoken b (length T) s = (40, s, Suc s, Suc s)" using line_symbol [OF L d0 _ n1] by (simp add: bytes_def)
  note a = line_at [OF L d0]
  have "4 * length (drop (Suc s) T) + 4 \<le> m" using len n d0 a(3) by simp
  from parses_lineD [OF assms(2) _ a(3) _ this] a(1) obtain c1 s1 where
    r1: "parseline m b (length T) (Suc s) = Inr (c1, s1)" "s1 \<le> length T" "drop s1 T = ?r1" "sees T c1 c"
    by (auto simp: follow_def bytes_def elim: reads_toE)
  have pk1: "peek b (length T) s1 '')'' = (True, s1)"
    using line_peek [OF L _ r1(2), of "'')''"] r1(3) by (simp add: bytes_def nows_def whitespace_def)
  have t1: "gettoken b (length T) s1 = (41, s1, Suc s1, Suc s1)" using line_symbol [OF L r1(3) _ n2] by (simp add: bytes_def)
  note a1 = line_at [OF L r1(3)]
  have "length (drop (Suc s1) T) < m" using len n d0 a1(3) by simp
  from line_redirs [OF L a1(3) _ nr rs this r1(4)] a1(1)
  show "reads_to T (parseexec n b (length T) s) r (add_redirs rs c)" using n pk t0 r1(1) pk1 t1 by simp
qed

lemma redirs_none: "redirs_text [] = []" "redirs_ok []" "add_redirs [] c = c"
  by (simp_all add: redirs_text_def redirs_ok_def add_redirs_def)

lemma parse_pipe_single:
  assumes L: "line_buf b T" and "parses_exec b T c" and "cmd_text 2 c = cmd_text 3 c"
  shows "parses_pipe b T c"
  unfolding parses_pipe_def
proof (intro allI impI)
  fix s r n
  assume s: "s \<le> length T" and d: "drop s T = cmd_text 2 c @ r" and f: "follow '')&;'' r"
    and len: "4 * length (drop s T) + 3 \<le> n"
  obtain m where n: "n = Suc m" using len by (cases n) auto
  have f': "follow ''|)&;'' r" using f by (rule follow_mono) (auto simp: bytes_def)
  have "4 * length (drop s T) + 2 \<le> m" using len n by simp
  from parses_execD [OF assms(2) s, of "[]", OF _ f' _ this] d assms(3) obtain c1 s1 where
    r1: "parseexec m b (length T) s = Inr (c1, s1)" "s1 \<le> length T" "drop s1 T = r" "sees T c1 c"
    by (auto simp: redirs_none elim: reads_toE)
  have "peek b (length T) s1 ''|'' = (False, s1)"
    using line_peek [OF L _ r1(2), of "''|''"] r1(3) follow_nows [OF f'] f
    by (cases r) (auto simp: follow_def bytes_def)
  then show "reads_to T (parsepipe n b (length T) s) r c" using n r1 by (simp add: reads_to_def)
qed

lemma parse_pipe_pipe:
  assumes L: "line_buf b T" and "parses_exec b T a" and "parses_pipe b T c" and "scmd_ok c"
  shows "parses_pipe b T (SPipe a c)"
  unfolding parses_pipe_def
proof (intro allI impI)
  fix s r n
  assume s: "s \<le> length T" and d: "drop s T = cmd_text 2 (SPipe a c) @ r" and f: "follow '')&;'' r"
    and len: "4 * length (drop s T) + 3 \<le> n"
  obtain m where n: "n = Suc m" using len by (cases n) auto
  let ?r = "124 # cmd_text 2 c @ r"
  have d0: "drop s T = cmd_text 3 a @ redirs_text [] @ ?r" using d by (simp add: paren_def bytes_def redirs_none)
  have "4 * length (drop s T) + 2 \<le> m" using len n by simp
  from parses_execD [OF assms(2) s d0 _ _ this] obtain c1 s1 where
    r1: "parseexec m b (length T) s = Inr (c1, s1)" "s1 \<le> length T" "drop s1 T = ?r" "sees T c1 a"
    by (auto simp: redirs_none follow_def bytes_def elim: reads_toE)
  have pk: "peek b (length T) s1 ''|'' = (True, s1)"
    using line_peek [OF L _ r1(2), of "''|''"] r1(3) by (simp add: nows_def whitespace_def bytes_def)
  have "nows r" using f by (rule follow_nows) (auto simp: bytes_def)
  with nows_text [OF assms(4)] have "nows (cmd_text 2 c @ r)" by (rule nows_append)
  then have tk: "gettoken b (length T) s1 = (124, s1, Suc s1, Suc s1)"
    using line_symbol [OF L r1(3)] by (simp add: bytes_def)
  note a1 = line_at [OF L r1(3)]
  have "4 * length (drop (Suc s1) T) + 3 \<le> m" using len n d0 a1(3) by simp
  from parses_pipeD [OF assms(3) _ a1(3) f this] a1(1) obtain c2 s2 where
    "parsepipe m b (length T) (Suc s1) = Inr (c2, s2)" "s2 \<le> length T" "drop s2 T = r" "sees T c2 c"
    by (auto elim: reads_toE)
  then show "reads_to T (parsepipe n b (length T) s) r (SPipe a c)" using n r1 pk tk by (simp add: reads_to_def)
qed

lemma line_backs:
  assumes L: "line_buf b T"
  shows "drop s T = replicate k 38 @ r \<Longrightarrow> s \<le> length T \<Longrightarrow> follow '');'' r \<Longrightarrow> length (drop s T) < n \<Longrightarrow>
    sees T cmd c \<Longrightarrow> reads_to T (parseback n b (length T) cmd s) r ((SBack ^^ k) c)"
proof (induction k arbitrary: s n cmd c)
  case 0
  obtain m where n: "n = Suc m" using 0(4) by (cases n) auto
  have "nows r" using 0(3) by (rule follow_nows) (auto simp: bytes_def)
  then have "peek b (length T) s ''&'' = (False, s)"
    using line_peek [OF L _ 0(2), of "''&''"] 0(1,3) by (cases r) (auto simp: follow_def bytes_def)
  then show ?case using n 0 by (simp add: reads_to_def)
next
  case (Suc k)
  obtain m where n: "n = Suc m" using Suc.prems(4) by (cases n) auto
  have d: "drop s T = 38 # replicate k 38 @ r" using Suc.prems(1) by simp
  have nr: "nows r" using Suc.prems(3) by (rule follow_nows) (auto simp: bytes_def)
  have nk: "nows (replicate k 38 @ r)" using nr by (cases k) (auto simp: nows_def whitespace_def)
  have pk: "peek b (length T) s ''&'' = (True, s)"
    using line_peek [OF L _ Suc.prems(2), of "''&''"] d by (simp add: nows_def whitespace_def bytes_def)
  have tk: "gettoken b (length T) s = (38, s, Suc s, Suc s)" using line_symbol [OF L d _ nk] by (simp add: bytes_def)
  note a = line_at [OF L d]
  have "reads_to T (parseback m b (length T) (BackCmd cmd) (Suc s)) r ((SBack ^^ k) (SBack c))"
    using Suc.prems(3,4,5) n d a by (intro Suc.IH) auto
  then show ?case using n pk tk by (simp add: funpow_swap1)
qed

lemma parse_back_pipe:
  assumes L: "line_buf b T" and "parses_pipe b T c" and "cmd_text 1 c = cmd_text 2 c"
  shows "parses_back b T c"
  unfolding parses_back_def
proof (intro allI impI)
  fix s k r n
  assume s: "s \<le> length T" and d: "drop s T = cmd_text 1 c @ replicate k 38 @ r" and f: "follow '');'' r"
    and len: "4 * length (drop s T) + 3 \<le> n"
  have "follow '')&;'' (replicate k 38 @ r)" using f by (cases k) (auto simp: follow_def bytes_def)
  from parses_pipeD [OF assms(2) s _ this len] d assms(3) obtain c1 s1 where
    r1: "parsepipe n b (length T) s = Inr (c1, s1)" "s1 \<le> length T" "drop s1 T = replicate k 38 @ r" "sees T c1 c"
    by (auto elim: reads_toE)
  have "length (drop s1 T) < n" using len d r1(3) by simp
  from line_backs [OF L r1(3,2) f this r1(4)] r1(1)
  show "reads_to T (pbind (parsepipe n b (length T) s) (\<lambda>cmd s. parseback n b (length T) cmd s)) r ((SBack ^^ k) c)"
    by simp
qed

lemma parse_back_back:
  assumes "parses_back b T c"
  shows "parses_back b T (SBack c)"
  unfolding parses_back_def
proof (intro allI impI)
  fix s k r n
  assume s: "s \<le> length T" and d: "drop s T = cmd_text 1 (SBack c) @ replicate k 38 @ r" and f: "follow '');'' r"
    and len: "4 * length (drop s T) + 3 \<le> n"
  have "drop s T = cmd_text 1 c @ replicate (Suc k) 38 @ r" using d by (simp add: paren_def bytes_def)
  from parses_backD [OF assms s this f len]
  show "reads_to T (pbind (parsepipe n b (length T) s) (\<lambda>cmd s. parseback n b (length T) cmd s)) r ((SBack ^^ k) (SBack c))"
    by (simp add: funpow_swap1)
qed

lemma parse_line_back:
  assumes L: "line_buf b T" and "parses_back b T c" and "cmd_text 0 c = cmd_text 1 c"
  shows "parses_line b T c"
  unfolding parses_line_def
proof (intro allI impI)
  fix s r n
  assume s: "s \<le> length T" and d: "drop s T = cmd_text 0 c @ r" and f: "follow '')'' r"
    and len: "4 * length (drop s T) + 4 \<le> n"
  obtain m where n: "n = Suc m" using len by (cases n) auto
  have f': "follow '');'' r" using f by (rule follow_mono) (auto simp: bytes_def)
  have "4 * length (drop s T) + 3 \<le> m" using len n by simp
  from parses_backD [OF assms(2) s, of 0, OF _ f' this] d assms(3) obtain c1 s1 where
    r1: "pbind (parsepipe m b (length T) s) (\<lambda>cmd s. parseback m b (length T) cmd s) = Inr (c1, s1)"
      "s1 \<le> length T" "drop s1 T = r" "sees T c1 c" by (auto elim: reads_toE)
  have "nows r" using f by (rule follow_nows) (auto simp: bytes_def)
  then have pk: "peek b (length T) s1 '';'' = (False, s1)"
    using line_peek [OF L _ r1(2), of "'';''"] r1(3) f by (cases r) (auto simp: follow_def bytes_def)
  from r1(1) show "reads_to T (parseline n b (length T) s) r c"
    unfolding n using r1 pk by (auto simp: reads_to_def pbind_def split: sum.splits)
qed

lemma parse_line_list:
  assumes L: "line_buf b T" and "parses_back b T a" and "parses_line b T c" and "scmd_ok c"
  shows "parses_line b T (SList a c)"
  unfolding parses_line_def
proof (intro allI impI)
  fix s r n
  assume s: "s \<le> length T" and d: "drop s T = cmd_text 0 (SList a c) @ r" and f: "follow '')'' r"
    and len: "4 * length (drop s T) + 4 \<le> n"
  obtain m where n: "n = Suc m" using len by (cases n) auto
  let ?r = "59 # cmd_text 0 c @ r"
  have d0: "drop s T = cmd_text 1 a @ replicate 0 38 @ ?r" using d by (simp add: paren_def bytes_def)
  have "4 * length (drop s T) + 3 \<le> m" using len n by simp
  from parses_backD [OF assms(2) s d0 _ this] obtain c1 s1 where
    r1: "pbind (parsepipe m b (length T) s) (\<lambda>cmd s. parseback m b (length T) cmd s) = Inr (c1, s1)"
      "s1 \<le> length T" "drop s1 T = ?r" "sees T c1 a" by (auto simp: follow_def bytes_def elim: reads_toE)
  have pk: "peek b (length T) s1 '';'' = (True, s1)"
    using line_peek [OF L _ r1(2), of "'';''"] r1(3) by (simp add: nows_def whitespace_def bytes_def)
  have "nows r" using f by (rule follow_nows) (auto simp: bytes_def)
  with nows_text [OF assms(4)] have "nows (cmd_text 0 c @ r)" by (rule nows_append)
  then have tk: "gettoken b (length T) s1 = (59, s1, Suc s1, Suc s1)"
    using line_symbol [OF L r1(3)] by (simp add: bytes_def)
  note a1 = line_at [OF L r1(3)]
  have "4 * length (drop (Suc s1) T) + 4 \<le> m" using len n d0 a1(3) by simp
  from parses_lineD [OF assms(3) _ a1(3) f this] a1(1) obtain c2 s2 where
    r2: "parseline m b (length T) (Suc s1) = Inr (c2, s2)" "s2 \<le> length T" "drop s2 T = r" "sees T c2 c"
    by (auto elim: reads_toE)
  from r1(1) show "reads_to T (parseline n b (length T) s) r (SList a c)"
    unfolding n using r1 r2 pk tk by (auto simp: reads_to_def pbind_def split: sum.splits)
qed

lemma parses_text:
  assumes L: "line_buf b T"
  shows "scmd_ok c \<Longrightarrow> parses_exec b T c \<and> parses_pipe b T c \<and> parses_back b T c \<and> parses_line b T c"
proof (induction c)
  case (SExec ws)
  then have e: "parses_exec b T (SExec ws)" using parse_exec_words [OF L] by blast
  then have p: "parses_pipe b T (SExec ws)" by (rule parse_pipe_single [OF L]) simp
  then have k: "parses_back b T (SExec ws)" by (rule parse_back_pipe [OF L]) simp
  then have "parses_line b T (SExec ws)" by (rule parse_line_back [OF L]) simp
  with e p k show ?case by simp
next
  case (SRedir c i f)
  then have e: "parses_exec b T (SRedir c i f)" by (auto intro: parse_exec_redir)
  then have p: "parses_pipe b T (SRedir c i f)" by (rule parse_pipe_single [OF L]) simp
  then have k: "parses_back b T (SRedir c i f)" by (rule parse_back_pipe [OF L]) simp
  then have "parses_line b T (SRedir c i f)" by (rule parse_line_back [OF L]) simp
  with e p k show ?case by simp
next
  case (SPipe a c)
  then have p: "parses_pipe b T (SPipe a c)" by (intro parse_pipe_pipe [OF L]) auto
  then have k: "parses_back b T (SPipe a c)" by (rule parse_back_pipe [OF L]) (simp add: paren_def)
  then have l: "parses_line b T (SPipe a c)" by (rule parse_line_back [OF L]) (simp add: paren_def)
  then have "parses_exec b T (SPipe a c)" by (rule parse_exec_block [OF L]) (use SPipe in \<open>simp_all add: paren_def\<close>)
  with p k l show ?case by simp
next
  case (SList a c)
  then have l: "parses_line b T (SList a c)" by (intro parse_line_list [OF L]) auto
  then have e: "parses_exec b T (SList a c)" by (rule parse_exec_block [OF L]) (use SList in \<open>simp_all add: paren_def\<close>)
  then have p: "parses_pipe b T (SList a c)" by (rule parse_pipe_single [OF L]) (simp add: paren_def)
  then have "parses_back b T (SList a c)" by (rule parse_back_pipe [OF L]) (simp add: paren_def)
  with p e l show ?case by simp
next
  case (SBack c)
  then have k: "parses_back b T (SBack c)" by (intro parse_back_back) auto
  then have l: "parses_line b T (SBack c)" by (rule parse_line_back [OF L]) (simp add: paren_def)
  then have e: "parses_exec b T (SBack c)" by (rule parse_exec_block [OF L]) (use SBack in \<open>simp_all add: paren_def\<close>)
  then have "parses_pipe b T (SBack c)" by (rule parse_pipe_single [OF L]) (simp add: paren_def)
  with k l e show ?case by simp
qed

section \<open>From the text to the words\<close>

text \<open>The tree and the strings that \<open>runcmd\<close> finds in the buffer are those of a command.\<close>

fun denotes :: "block \<Rightarrow> cmd \<Rightarrow> scmd \<Rightarrow> bool" where
  "denotes b (ExecCmd argv eargv) (SExec ws) \<longleftrightarrow> map (str_at b) argv = map Some ws"
| "denotes b (RedirCmd c q e mode fd) (SRedir d i f) \<longleftrightarrow>
     denotes b c d \<and> str_at b q = Some f \<and> mode = (if i then O_RDONLY_u else O_WRONLY_CREATE) \<and> fd = (if i then 0 else 1)"
| "denotes b (PipeCmd x y) (SPipe c d) \<longleftrightarrow> denotes b x c \<and> denotes b y d"
| "denotes b (ListCmd x y) (SList c d) \<longleftrightarrow> denotes b x c \<and> denotes b y d"
| "denotes b (BackCmd x) (SBack c) \<longleftrightarrow> denotes b x c"
| "denotes b _ _ \<longleftrightarrow> False"

fun word_ends :: "cmd \<Rightarrow> nat set" where
  "word_ends (ExecCmd argv eargv) = set eargv"
| "word_ends (RedirCmd c q e mode fd) = insert e (word_ends c)"
| "word_ends (PipeCmd x y) = word_ends x \<union> word_ends y"
| "word_ends (ListCmd x y) = word_ends x \<union> word_ends y"
| "word_ends (BackCmd x) = word_ends x"

definition cut :: "nat set \<Rightarrow> block \<Rightarrow> block" where
  "cut E b = (\<lambda>k. if k \<in> E then 0 else b k)"

lemma cut_cut: "cut E (cut F b) = cut (E \<union> F) b"
  by (auto simp: cut_def)

lemma fold_cut: "fold (\<lambda>e b. b(e := 0)) es b = cut (set es) b"
  by (induction es arbitrary: b) (auto simp: cut_def fun_eq_iff)

lemma nulterminate_cut: "nulterminate c b = cut (word_ends c) b"
  by (induction c arbitrary: b) (auto simp: fold_cut cut_cut Un_commute, auto simp: cut_def fun_eq_iff)

lemma sees_ends: "sees T cmd c \<Longrightarrow> e \<in> word_ends cmd \<Longrightarrow> e < length T \<and> \<not> wordchar (T ! e)"
  by (induction T cmd c rule: sees.induct) (auto simp: word_at_def in_set_conv_nth)

lemma word_at_str:
  assumes L: "line_buf b T" and w: "word_at T q e w" and "e \<in> E" and E: "\<forall>x \<in> E. \<not> wordchar (T ! x)"
  shows "str_at (cut E b) q = Some w"
proof -
  have e: "e = q + length w" "e < length T" "take (length w) (drop q T) = w" using w by (auto simp: word_at_def)
  have k: "cut E b (q + i) = w ! i \<and> wordchar (w ! i)" if i: "i < length w" for i
  proof -
    have "w ! i = T ! (q + i)" using i e by (metis add_lessD1 le_less_trans less_or_eq_imp_le nth_drop nth_take)
    moreover have "wordchar (w ! i)" using w i by (auto simp: word_at_def is_word_def list_all_length)
    ultimately show ?thesis using E L i e by (auto simp: cut_def line_buf_def)
  qed
  have "cut E b j \<noteq> 0" if "q \<le> j" "j < e" for j
    using k [of "j - q"] that e(1) by (auto simp: wordchar_def)
  moreover have "cut E b e = 0" using assms(3) by (simp add: cut_def)
  ultimately have "strlen_loop (cut E b) q = Some e" using e(1) by (intro strlen_loop_eq) auto
  moreover have "map (cut E b) [q..<e] = w" by (rule nth_equalityI) (use k e(1) in auto)
  ultimately show ?thesis by (simp add: str_at_def)
qed

lemma sees_denotes:
  assumes L: "line_buf b T" and E: "\<forall>x \<in> E. \<not> wordchar (T ! x)"
  shows "sees T cmd c \<Longrightarrow> word_ends cmd \<subseteq> E \<Longrightarrow> denotes (cut E b) cmd c"
proof (induction cmd arbitrary: c)
  case (ExecCmd argv eargv)
  then obtain ws where c: "c = SExec ws" by (cases c) auto
  have "str_at (cut E b) (argv ! i) = Some (ws ! i)" if i: "i < length ws" for i
  proof (rule word_at_str [OF L _ _ E])
    show "word_at T (argv ! i) (eargv ! i) (ws ! i)" using ExecCmd.prems(1) c i by simp
    show "eargv ! i \<in> E" using ExecCmd.prems c i by auto
  qed
  then show ?case using ExecCmd.prems(1) c by (auto intro!: nth_equalityI)
next
  case (RedirCmd x q e mode fd)
  then show ?case by (cases c) (auto intro: word_at_str [OF L _ _ E])
next
  case (PipeCmd x y)
  then show ?case by (cases c) auto
next
  case (ListCmd x y)
  then show ?case by (cases c) auto
next
  case (BackCmd x)
  then show ?case by (cases c) auto
qed

lemma text_no_nul: "scmd_ok c \<Longrightarrow> 0 \<notin> set (cmd_text l c)"
  by (induction c arbitrary: l)
    (auto simp: is_word_def wordchar_def list_all_iff paren_def redir_text_def bytes_def)

text \<open>C18. The shell understands the text of a command: for every command built from words, redirections,
  pipes, lists and background jobs, with fewer than 10 arguments each, parsing its text returns a tree of the same
  shape, and cutting the line at the ends of the words leaves exactly the words of the
  command as the strings that the tree points to, with the file modes and descriptors of the redirections.\<close>

theorem parsecmd_text:
  assumes "scmd_ok c" and "\<And>i. i < length (cmd_text 0 c) \<Longrightarrow> b i = cmd_text 0 c ! i"
    and "b (length (cmd_text 0 c)) = 0"
  shows "\<exists>cmd b'. parsecmd ops b w = uret (cmd, b') w \<and> denotes b' cmd c"
proof -
  define T where "T = cmd_text 0 c"
  have L: "line_buf b T" using assms(2,3) text_no_nul [OF assms(1)] by (simp add: line_buf_def T_def)
  have "strlen_loop b 0 = Some (length T)"
    using L by (intro strlen_loop_eq) (auto simp: line_buf_def, metis nth_mem)
  then have len: "strlen_u b 0 = Some (length T)" by (simp add: strlen_u_def)
  have "4 * length (drop 0 T) + 4 \<le> parse_fuel (length T)" by (simp add: parse_fuel_def)
  from parses_lineD [OF conjunct2 [OF conjunct2 [OF conjunct2 [OF parses_text [OF L assms(1)]]]], of 0 "[]", OF _ _ _ this]
  obtain cmd s where p: "parseline (parse_fuel (length T)) b (length T) 0 = Inr (cmd, s)" "s \<le> length T"
      "drop s T = []" "sees T cmd c"
    by (auto simp: T_def follow_def elim: reads_toE)
  have s: "s = length T" using p(2,3) by simp
  have "snd (peek b (length T) s []) = s"
    using line_peek [OF L, of s] p(2,3) by (simp add: nows_def)
  then have "parsecmd ops b w = uret (cmd, nulterminate cmd b) w"
    using len p(1) s by (simp add: parsecmd_def split_beta)
  moreover have "denotes (nulterminate cmd b) cmd c"
    unfolding nulterminate_cut using sees_ends [OF p(4)] by (intro sees_denotes [OF L _ p(4)]) auto
  ultimately show ?thesis by blast
qed

theorem parsecmd_text_witness:
  "\<exists>cmd b'. parsecmd file_ops (\<lambda>k. if k < 21 then bytes ''(a b <c |d )>e ;f g &'' ! k else 0) ([], []) =
       uret (cmd, b') ([], []) \<and>
     denotes b' cmd (SList (SRedir (SPipe (SRedir (SExec [bytes ''a'', bytes ''b'']) True (bytes ''c''))
       (SExec [bytes ''d''])) False (bytes ''e'')) (SBack (SExec [bytes ''f'', bytes ''g''])))"
proof (rule parsecmd_text)
  let ?c = "SList (SRedir (SPipe (SRedir (SExec [bytes ''a'', bytes ''b'']) True (bytes ''c''))
       (SExec [bytes ''d''])) False (bytes ''e'')) (SBack (SExec [bytes ''f'', bytes ''g'']))"
  have t: "cmd_text 0 ?c = bytes ''(a b <c |d )>e ;f g &''"
    by (simp add: paren_def redir_text_def bytes_def)
  have l: "length (bytes ''(a b <c |d )>e ;f g &'') = 21" by (simp add: bytes_def)
  show "scmd_ok ?c"
    by (simp add: MAXARGS_def is_word_def wordchar_def bytes_def whitespace_def symbols_def)
  show "(if i < 21 then bytes ''(a b <c |d )>e ;f g &'' ! i else 0) = cmd_text 0 ?c ! i"
    if "i < length (cmd_text 0 ?c)" for i using that unfolding t l by simp
  show "(if length (cmd_text 0 ?c) < 21 then bytes ''(a b <c |d )>e ;f g &'' ! length (cmd_text 0 ?c) else 0) = 0"
    unfolding t l by simp
qed

end
