(* ===== verification/Umalloc.thy ===== *)
theory Umalloc
  imports User
begin

text \<open>
  The memory allocator of the user programs (\<open>umalloc.c\<close>): \<open>free\<close>, \<open>morecore\<close> and \<open>malloc\<close> on the bytes of the process.
  A header is the word \<open>ptr\<close> and after it the word \<open>size\<close>; a pointer to a header is its address, and
  \<open>p + n\<close> on such pointers is \<open>p + 8 * n\<close>.  The system call \<open>sbrk\<close> is an argument.
\<close>

record uheap =
  umem :: memory
  hbase :: u32
  freep :: u32
  brk :: u32

definition hptr :: "'a uheap_scheme \<Rightarrow> u32 \<Rightarrow> u32" where
  "hptr h p = get32 (umem h) p"

definition hsize :: "'a uheap_scheme \<Rightarrow> u32 \<Rightarrow> u32" where
  "hsize h p = get32 (umem h) (p + 4)"

definition set_ptr :: "u32 \<Rightarrow> u32 \<Rightarrow> 'a uheap_scheme \<Rightarrow> 'a uheap_scheme" where
  "set_ptr p v h = h\<lparr>umem := put32 (umem h) p v\<rparr>"

definition set_size :: "u32 \<Rightarrow> u32 \<Rightarrow> 'a uheap_scheme \<Rightarrow> 'a uheap_scheme" where
  "set_size p v h = h\<lparr>umem := put32 (umem h) (p + 4) v\<rparr>"

text \<open>The search of \<open>free\<close> for the place of the block \<open>bp\<close>; it does not end if there is none.\<close>

partial_function (option) free_find :: "'a uheap_scheme \<Rightarrow> u32 \<Rightarrow> u32 \<Rightarrow> u32 option" where
  "free_find h bp p =
     (if p < bp \<and> bp < hptr h p then Some p
      else if p \<ge> hptr h p \<and> (bp > p \<or> bp < hptr h p) then Some p
      else free_find h bp (hptr h p))"

definition free_u :: "u32 \<Rightarrow> 'a uheap_scheme \<Rightarrow> 'a uheap_scheme option" where
  "free_u ap h =
     (let bp = ap - 8 in
      map_option (\<lambda>p.
        let h = (if bp + 8 * hsize h bp = hptr h p
                 then set_ptr bp (hptr h (hptr h p)) (set_size bp (hsize h bp + hsize h (hptr h p)) h)
                 else set_ptr bp (hptr h p) h);
            h = (if p + 8 * hsize h p = bp
                 then set_ptr p (hptr h bp) (set_size p (hsize h p + hsize h bp) h)
                 else set_ptr p bp h)
        in h\<lparr>freep := p\<rparr>) (free_find h bp (freep h)))"

text \<open>\<open>morecore\<close> yields 0 when there is no more memory.\<close>

definition morecore :: "(u32 \<Rightarrow> 'a uheap_scheme \<Rightarrow> u32 \<times> 'a uheap_scheme) \<Rightarrow> u32 \<Rightarrow> 'a uheap_scheme \<Rightarrow> (u32 \<times> 'a uheap_scheme) option" where
  "morecore sbrk nu h =
     (let nu = (if nu < 4096 then 4096 else nu);
          (p, h) = sbrk (nu * 8) h in
      if p = -1 then Some (0, h)
      else map_option (\<lambda>h. (freep h, h)) (free_u (p + 8) (set_size p nu h)))"

partial_function (option) malloc_loop ::
    "(u32 \<Rightarrow> 'a uheap_scheme \<Rightarrow> u32 \<times> 'a uheap_scheme) \<Rightarrow> u32 \<Rightarrow> u32 \<Rightarrow> u32 \<Rightarrow> 'a uheap_scheme \<Rightarrow> (u32 \<times> 'a uheap_scheme) option" where
  "malloc_loop sbrk nunits prevp p h =
     (if hsize h p \<ge> nunits then
        if hsize h p = nunits then Some (p + 8, (set_ptr prevp (hptr h p) h)\<lparr>freep := prevp\<rparr>)
        else
          let h = set_size p (hsize h p - nunits) h;
              p = p + 8 * hsize h p
          in Some (p + 8, (set_size p nunits h)\<lparr>freep := prevp\<rparr>)
      else if p = freep h then
        Option.bind (morecore sbrk nunits h) (\<lambda>(p, h).
          if p = 0 then Some (0, h) else malloc_loop sbrk nunits p (hptr h p) h)
      else malloc_loop sbrk nunits p (hptr h p) h)"

definition malloc :: "(u32 \<Rightarrow> 'a uheap_scheme \<Rightarrow> u32 \<times> 'a uheap_scheme) \<Rightarrow> u32 \<Rightarrow> 'a uheap_scheme \<Rightarrow> (u32 \<times> 'a uheap_scheme) option" where
  "malloc sbrk nbytes h =
     (let nunits = (nbytes + 8 - 1) div 8 + 1;
          h = (if freep h = 0 then set_size (hbase h) 0 ((set_ptr (hbase h) (hbase h) h)\<lparr>freep := hbase h\<rparr>) else h)
      in malloc_loop sbrk nunits (freep h) (hptr h (freep h)) h)"

end
