(* ===== verification/Umalloc_Props.thy ===== *)
theory Umalloc_Props
  imports Umalloc
begin

text \<open>
  Correctness of the user memory allocator: the free list is circular, sorted by address and has no two
  blocks that touch; \<open>free\<close> adds a block to the free memory and \<open>malloc\<close> takes one out of it.
\<close>

section \<open>Headers\<close>

definition fits :: "u32 \<Rightarrow> bool" where
  "fits a \<longleftrightarrow> unat a + 8 \<le> 2 ^ 32"

definition far :: "u32 \<Rightarrow> u32 \<Rightarrow> bool" where
  "far a b \<longleftrightarrow> unat a + 8 \<le> unat b \<or> unat b + 8 \<le> unat a"

lemma get32_put32_far:
  assumes "unat a + 4 \<le> 2 ^ 32" and "unat b + 4 \<le> 2 ^ 32" and "unat a + 4 \<le> unat b \<or> unat b + 4 \<le> unat a"
  shows "get32 (put32 m a w) b = get32 m b"
proof -
  have "put32 m a w (b + of_nat k) = m (b + of_nat k)" if "k < 4" for k
  proof -
    have "unat (b + of_nat k) = unat b + k" using assms(2) that by (intro unat_plus_nat) simp
    then show ?thesis using assms(1,3) that by (intro put32_outside) auto
  qed
  from this [of 0] this [of 1] this [of 2] this [of 3] show ?thesis by (simp add: get32_def)
qed

lemma fits_size: "fits a \<Longrightarrow> unat (a + 4) = unat a + 4"
  using unat_plus_nat [of a 4] by (simp add: fits_def)

lemma header_same [simp]: "hptr (set_ptr a v h) a = v" "hsize (set_size a v h) a = v"
  by (simp_all add: hptr_def hsize_def set_ptr_def set_size_def)

lemma header_other [simp]:
  "fits a \<Longrightarrow> hsize (set_ptr a v h) a = hsize h a" "fits a \<Longrightarrow> hptr (set_size a v h) a = hptr h a"
  using fits_size [of a] by (simp_all add: hptr_def hsize_def set_ptr_def set_size_def get32_put32_far fits_def)

lemma header_far:
  assumes "fits a" and "fits b" and "far a b"
  shows "hptr (set_ptr a v h) b = hptr h b" "hsize (set_ptr a v h) b = hsize h b"
    "hptr (set_size a v h) b = hptr h b" "hsize (set_size a v h) b = hsize h b"
  using assms fits_size [of a] fits_size [of b]
  by (auto simp: hptr_def hsize_def set_ptr_def set_size_def fits_def far_def intro!: get32_put32_far)

lemma header_freep [simp]:
  "hptr (h\<lparr>freep := p\<rparr>) a = hptr h a" "hsize (h\<lparr>freep := p\<rparr>) a = hsize h a"
  by (simp_all add: hptr_def hsize_def)

lemma set_fields [simp]:
  "freep (set_ptr a v h) = freep h" "freep (set_size a v h) = freep h" "hbase (set_ptr a v h) = hbase h"
  "hbase (set_size a v h) = hbase h" "brk (set_ptr a v h) = brk h" "brk (set_size a v h) = brk h"
  by (simp_all add: set_ptr_def set_size_def)

section \<open>The free list\<close>

text \<open>From \<open>p\<close> the pointers lead through the blocks \<open>xs\<close>, given by address and size, to \<open>q\<close>.\<close>

fun seg :: "'a uheap_scheme \<Rightarrow> u32 \<Rightarrow> (u32 \<times> u32) list \<Rightarrow> u32 \<Rightarrow> bool" where
  "seg h p [] q \<longleftrightarrow> p = q"
| "seg h p (x # xs) q \<longleftrightarrow> p = fst x \<and> hsize h p = snd x \<and> seg h (hptr h p) xs q"

lemma seg_append: "seg h p (xs @ ys) q \<longleftrightarrow> (\<exists>r. seg h p xs r \<and> seg h r ys q)"
  by (induction xs arbitrary: p) auto

lemma seg_frame:
  assumes "\<And>x. x \<in> set xs \<Longrightarrow> hptr h' (fst x) = hptr h (fst x) \<and> hsize h' (fst x) = hsize h (fst x)"
  shows "seg h' p xs q \<longleftrightarrow> seg h p xs q"
  using assms
proof (induction xs arbitrary: p)
  case (Cons x xs)
  have "seg h' r xs q \<longleftrightarrow> seg h r xs q" for r using Cons.prems by (intro Cons.IH) simp
  moreover have "hptr h' (fst x) = hptr h (fst x)" "hsize h' (fst x) = hsize h (fst x)" using Cons.prems [of x] by simp_all
  ultimately show ?case by (cases "p = fst x") simp_all
qed simp

lemma seg_hd: "seg h p xs q \<Longrightarrow> xs \<noteq> [] \<Longrightarrow> p = fst (hd xs)"
  by (cases xs) auto

lemma seg_last: "seg h p xs q \<Longrightarrow> xs \<noteq> [] \<Longrightarrow> hptr h (fst (last xs)) = q"
  by (induction xs arbitrary: p) (auto split: if_splits)

lemma seg_size: "seg h p xs q \<Longrightarrow> x \<in> set xs \<Longrightarrow> hsize h (fst x) = snd x"
  by (induction xs arbitrary: p) auto

text \<open>The block \<open>x\<close> ends before \<open>y\<close> starts, without touching it.\<close>

definition before :: "u32 \<times> u32 \<Rightarrow> u32 \<times> u32 \<Rightarrow> bool" where
  "before x y \<longleftrightarrow> unat (fst x) + 8 * unat (snd x) < unat (fst y) \<and> unat (fst x) + 8 \<le> unat (fst y)"

definition block_ok :: "u32 \<times> u32 \<Rightarrow> bool" where
  "block_ok x \<longleftrightarrow> unat (fst x) + 8 * unat (snd x) < 2 ^ 32 \<and> fits (fst x)"

text \<open>The blocks of a free list that starts at \<open>base\<close>, the only one with size 0.\<close>

definition blocks_ok :: "u32 \<Rightarrow> (u32 \<times> u32) list \<Rightarrow> bool" where
  "blocks_ok base xs \<longleftrightarrow> (\<exists>bs. xs = (base, 0) # bs \<and> (\<forall>x \<in> set bs. 0 < snd x)) \<and> 0 < base \<and>
     sorted_wrt before xs \<and> (\<forall>x \<in> set xs. block_ok x)"

definition free_list :: "(u32 \<times> u32) list \<Rightarrow> 'a uheap_scheme \<Rightarrow> bool" where
  "free_list xs h \<longleftrightarrow> blocks_ok (hbase h) xs \<and> seg h (hbase h) xs (hbase h) \<and> freep h \<in> fst ` set xs"

definition units :: "u32 \<times> u32 \<Rightarrow> nat set" where
  "units x = {unat (fst x)..<unat (fst x) + 8 * unat (snd x)}"

definition free_mem :: "(u32 \<times> u32) list \<Rightarrow> nat set" where
  "free_mem xs = (\<Union>x \<in> set xs. units x)"

lemma free_mem_simps [simp]:
  "free_mem [] = {}" "free_mem (x # xs) = units x \<union> free_mem xs" "free_mem (xs @ ys) = free_mem xs \<union> free_mem ys"
  by (auto simp: free_mem_def)

lemma before_far: "before x y \<Longrightarrow> far (fst x) (fst y)" "before x y \<Longrightarrow> far (fst y) (fst x)"
  by (auto simp: before_def far_def)

lemma before_trans: "before x y \<Longrightarrow> before y z \<Longrightarrow> before x z"
  by (auto simp: before_def)

section \<open>The search of free\<close>

text \<open>The block \<open>b\<close> lies between \<open>x\<close> and the blocks \<open>rs\<close>; it may touch its neighbours.\<close>

definition clear_of :: "u32 \<times> u32 \<Rightarrow> u32 \<times> u32 \<Rightarrow> bool" where
  "clear_of b x \<longleftrightarrow> unat (fst x) + 8 * unat (snd x) \<le> unat (fst b) \<and> unat (fst x) + 8 \<le> unat (fst b) \<or>
     unat (fst b) + 8 * unat (snd b) \<le> unat (fst x)"

lemma split_at:
  assumes "sorted_wrt before xs" and "P (hd xs)" and "xs \<noteq> []"
    and "\<And>x y. before x y \<Longrightarrow> P y \<Longrightarrow> P x"
  obtains ls p rs where "xs = ls @ p # rs" "\<forall>x \<in> set (ls @ [p]). P x" "\<forall>x \<in> set rs. \<not> P x"
proof -
  let ?ls = "takeWhile P xs" and ?rs = "dropWhile P xs"
  have ne: "?ls \<noteq> []" using assms(2,3) by (cases xs) auto
  have "\<not> P x" if "x \<in> set ?rs" for x
  proof -
    have "?rs \<noteq> []" using that by (metis empty_iff empty_set)
    then obtain y ys where r: "?rs = y # ys" by (meson list.exhaust)
    then have "\<not> P y" using hd_dropWhile [of P xs] by simp
    moreover have "sorted_wrt before ?rs" using assms(1) sorted_wrt_append [of before ?ls ?rs] by simp
    ultimately show ?thesis using that r assms(4) [of y x] by auto
  qed
  moreover have "xs = butlast ?ls @ last ?ls # ?rs"
    using append_butlast_last_id [OF ne] takeWhile_dropWhile_id [of P xs] by (metis append.assoc append_Cons append_Nil)
  moreover have "\<forall>x \<in> set (butlast ?ls @ [last ?ls]). P x" using ne by (auto dest: set_takeWhileD)
  ultimately show ?thesis using that by blast
qed

text \<open>Walking up the list from below \<open>b\<close> the search stops at the last block below it, whose successor is above or
  the first block \<open>base\<close>.\<close>

lemma free_find_up:
  assumes "seg h p0 (zs @ [x]) q" and "sorted_wrt before (zs @ [x])" and "\<forall>y \<in> set (zs @ [x]). fst y < b"
    and "b < q \<or> q \<le> fst x"
  shows "free_find h b p0 = Some (fst x)"
  using assms
proof (induction zs arbitrary: p0)
  case Nil
  then show ?case by (auto simp: free_find.simps [of h b "fst x"])
next
  case (Cons z zs)
  have p0: "p0 = fst z" "seg h (hptr h p0) (zs @ [x]) q" using Cons.prems(1) by auto
  then have n: "hptr h p0 = fst (hd (zs @ [x]))" using seg_hd by blast
  have "hd (zs @ [x]) \<in> set (zs @ [x])" by (rule hd_in_set) simp
  then have lt: "before z (hd (zs @ [x]))" "fst (hd (zs @ [x])) < b" using Cons.prems(2,3) by auto
  then have "fst z < hptr h p0" using n by (simp add: before_def word_less_nat_alt)
  then have "free_find h b p0 = free_find h b (hptr h p0)" using lt(2) n p0(1) by (auto simp: free_find.simps [of h b "fst z"])
  also have "\<dots> = Some (fst x)" using Cons.prems p0(2) by (intro Cons.IH) auto
  finally show ?case .
qed

lemma free_find_wrap:
  assumes "seg h p0 zs base" and "zs \<noteq> []" and "sorted_wrt before zs" and "\<forall>y \<in> set zs. b < fst y" and "base < b"
  shows "free_find h b p0 = free_find h b base"
  using assms
proof (induction zs arbitrary: p0)
  case (Cons z zs)
  have p0: "p0 = fst z" "seg h (hptr h p0) zs base" using Cons.prems(1) by auto
  have b: "b < p0" using Cons.prems(4) p0(1) by simp
  show ?case
  proof (cases "zs = []")
    case True
    then show ?thesis using p0 b Cons.prems(5) by (auto simp: free_find.simps [of h b "fst z"])
  next
    case False
    then have n: "hptr h p0 = fst (hd zs)" using seg_hd [OF p0(2)] by simp
    have "before z (hd zs)" using Cons.prems(3) hd_in_set [OF False] by simp
    then have "fst z < fst (hd zs)" by (simp add: before_def word_less_nat_alt)
    then have "free_find h b p0 = free_find h b (hptr h p0)" using b n p0(1) by (auto simp: free_find.simps [of h b "fst z"])
    also have "\<dots> = free_find h b base" using Cons.prems p0(2) False by (intro Cons.IH) auto
    finally show ?thesis .
  qed
qed simp

lemma free_list_base: "free_list xs h \<Longrightarrow> \<exists>bs. xs = (hbase h, 0) # bs"
  by (auto simp: free_list_def blocks_ok_def)

lemma free_list_empty: "free_list xs h \<Longrightarrow> x \<in> set xs \<Longrightarrow> \<not> 0 < snd x \<Longrightarrow> x = (hbase h, 0)"
  by (auto simp: free_list_def blocks_ok_def)

lemma free_find_place:
  assumes F: "free_list xs h" and xs: "xs = ls @ x # rs" and lo: "\<forall>y \<in> set (ls @ [x]). fst y < b" and hi: "\<forall>y \<in> set rs. b < fst y"
  shows "free_find h b (freep h) = Some (fst x)"
proof -
  have S: "sorted_wrt before xs" "seg h (hbase h) ((ls @ [x]) @ rs) (hbase h)" using F xs by (auto simp: free_list_def blocks_ok_def)
  then obtain q where q: "seg h (hbase h) (ls @ [x]) q" "seg h q rs (hbase h)" unfolding seg_append by blast
  obtain bs where "xs = (hbase h, 0) # bs" using free_list_base [OF F] by blast
  then have base: "hbase h = fst (hd (ls @ [x]))" using xs by (cases ls) auto
  moreover have "hd (ls @ [x]) \<in> set (ls @ [x])" by (rule hd_in_set) simp
  ultimately have "hbase h < b" using lo by metis
  have "hbase h \<le> fst x"
  proof (cases ls)
    case (Cons l ls')
    then have "before l x" using S(1) xs by simp
    then show ?thesis using base Cons by (simp add: before_def word_le_nat_alt)
  qed (use base in simp)
  have up: "free_find h b r = Some (fst x)" if "seg h r (zs @ [x]) q" "set zs \<subseteq> set ls" "sorted_wrt before (zs @ [x])" for r zs
  proof (rule free_find_up [OF that(1,3)])
    show "\<forall>y \<in> set (zs @ [x]). fst y < b" using that(2) lo by auto
    show "b < q \<or> q \<le> fst x"
    proof (cases "rs = []")
      case True
      then show ?thesis using q(2) \<open>hbase h \<le> fst x\<close> by simp
    next
      case False
      then show ?thesis using seg_hd [OF q(2) False] hi hd_in_set [OF False] by simp
    qed
  qed
  have so: "sorted_wrt before (ls @ [x])" "sorted_wrt before rs" using S(1) xs by (auto simp: sorted_wrt_append)
  obtain y where y: "y \<in> set xs" "fst y = freep h" using F by (auto simp: free_list_def)
  show ?thesis
  proof (cases "y \<in> set rs")
    case True
    then obtain us vs where r: "rs = us @ y # vs" by (auto dest: split_list)
    then have "seg h (freep h) (y # vs) (hbase h)" using q(2) y(2) by (auto simp: seg_append)
    moreover have "sorted_wrt before (y # vs)" "\<forall>z \<in> set (y # vs). b < fst z" using so(2) hi r by (auto simp: sorted_wrt_append)
    ultimately have "free_find h b (freep h) = free_find h b (hbase h)"
      using \<open>hbase h < b\<close> by (intro free_find_wrap) auto
    then show ?thesis using up [OF q(1)] so(1) by simp
  next
    case False
    then have "y \<in> set (ls @ [x])" using y(1) xs by auto
    then obtain us vs where l: "ls @ [x] = us @ y # vs" by (auto dest: split_list)
    have l': "y # vs = butlast (y # vs) @ [x]" using l by (metis append_butlast_last_id last_append last_snoc list.discI)
    have "seg h (freep h) (y # vs) q" using q(1) y(2) l by (auto simp: seg_append)
    moreover have "sorted_wrt before (y # vs)" using so(1) l by (auto simp: sorted_wrt_append)
    moreover have "ls = us @ butlast (y # vs)" using l by (metis butlast_append butlast_snoc list.discI)
    then have "set (butlast (y # vs)) \<subseteq> set ls" by (metis set_append Un_upper2)
    ultimately show ?thesis using up [of "freep h" "butlast (y # vs)"] unfolding l' [symmetric] by blast
  qed
qed

section \<open>Freeing a block\<close>

lemma unat_end: "block_ok (a, n) \<Longrightarrow> unat (a + 8 * n) = unat a + 8 * unat n"
  by (simp add: block_ok_def unat_word_ariths)

lemma seg_set_ptr:
  assumes "fits a" and "\<And>x. x \<in> set xs \<Longrightarrow> fits (fst x) \<and> far a (fst x)"
  shows "seg (set_ptr a v h) p xs q \<longleftrightarrow> seg h p xs q" "seg (set_size a v h) p xs q \<longleftrightarrow> seg h p xs q"
  using assms by (auto intro!: seg_frame simp: header_far)

lemma set_mem:
  assumes "fits a" and "unat x < unat a \<or> unat a + 8 \<le> unat x"
  shows "umem (set_ptr a v h) x = umem h x" "umem (set_size a v h) x = umem h x"
  using assms fits_size [OF assms(1)] by (auto simp: set_ptr_def set_size_def fits_def intro!: put32_outside)

lemma units_join:
  assumes "unat a + 8 * unat n = unat b" and "unat b + 8 * unat m < 2 ^ 32"
  shows "unat (n + m :: u32) = unat n + unat m" "units (a, n + m) = units (a, n) \<union> units (b, m)"
proof -
  show u: "unat (n + m) = unat n + unat m" using assms by (intro unat_plus_simple [THEN iffD1]) (simp add: no_olen_add_nat)
  show "units (a, n + m) = units (a, n) \<union> units (b, m)" using assms(1) u by (auto simp: units_def)
qed

lemma merge_next:
  assumes b: "block_ok (bp, n)" "0 < n" "hsize h bp = n"
    and S: "seg h q rs base" "sorted_wrt before rs" "\<forall>y \<in> set rs. block_ok y \<and> unat bp + 8 * unat n \<le> unat (fst y)" and "base < bp"
    and h1: "h1 = (if bp + 8 * hsize h bp = q then set_ptr bp (hptr h q) (set_size bp (hsize h bp + hsize h q) h) else set_ptr bp q h)"
  shows "\<exists>n1 rs1. seg h1 bp ((bp, n1) # rs1) base \<and> sorted_wrt before ((bp, n1) # rs1) \<and>
    (\<forall>y \<in> set ((bp, n1) # rs1). block_ok y) \<and> n \<le> n1 \<and> set rs1 \<subseteq> set rs \<and>
    free_mem ((bp, n1) # rs1) = units (bp, n) \<union> free_mem rs"
proof -
  have fb: "fits bp" using b(1) by (simp add: block_ok_def)
  have n8: "8 \<le> 8 * unat n" using b(2) by (simp add: word_less_nat_alt)
  have up: "fits (fst y) \<and> far bp (fst y)" if "y \<in> set rs" for y
    using S(3) n8 that by (force simp: block_ok_def far_def)
  have frame: "seg (set_ptr bp v g) p rs r \<longleftrightarrow> seg g p rs r" for v p r and g :: "'a uheap_scheme"
    by (rule seg_set_ptr(1) [OF fb up])
  show ?thesis
  proof (cases "bp + 8 * n = q")
    case False
    have "before (bp, n) y" if y: "y \<in> set rs" for y
    proof -
      obtain r rs' where rs: "rs = r # rs'" using y by (cases rs) auto
      then have "unat (fst r) \<noteq> unat (bp + 8 * n)" using S(1) False by (auto simp flip: word_unat_eq_iff)
      then have "unat bp + 8 * unat n < unat (fst r)" using S(3) rs unat_end [OF b(1)] by force
      moreover have "unat (fst r) \<le> unat (fst y)" using S(2) rs y by (auto simp: before_def)
      ultimately show ?thesis using n8 by (simp add: before_def)
    qed
    moreover have "seg h1 bp ((bp, n) # rs) base" using False b(3) S(1) fb frame by (simp add: h1)
    ultimately show ?thesis using b(1) S(2,3) by (intro exI [of _ n] exI [of _ rs]) auto
  next
    case True
    have e: "unat q = unat bp + 8 * unat n" using unat_end [OF b(1)] True by simp
    have "rs \<noteq> []"
    proof
      assume "rs = []"
      then have "q = base" using S(1) by simp
      then show False using e \<open>base < bp\<close> by (simp add: word_less_nat_alt)
    qed
    then obtain r rs' where rs: "rs = r # rs'" by (cases rs) auto
    have r: "q = fst r" "hsize h q = snd r" "seg h (hptr h q) rs' base" using S(1) rs by auto
    have rok: "unat (fst r) + 8 * unat (snd r) < 2 ^ 32" using S(3) rs by (simp add: block_ok_def)
    have j: "unat (n + snd r) = unat n + unat (snd r)" "units (bp, n + snd r) = units (bp, n) \<union> units r"
      using units_join [of bp n q "snd r"] e rok r(1) by auto
    have "before (bp, n + snd r) y" if "y \<in> set rs'" for y
      using S(2) rs that e r(1) n8 by (auto simp: before_def j(1))
    moreover have "seg h1 bp ((bp, n + snd r) # rs') base"
      using True b(3) r fb rs by (simp add: h1 seg_set_ptr [OF fb] up)
    moreover have "block_ok (bp, n + snd r)" using e rok fb r(1) by (simp add: block_ok_def j(1))
    moreover have "n \<le> n + snd r" using j(1) by (simp add: word_le_nat_alt)
    ultimately show ?thesis using S(2,3) rs j(2) by (intro exI [of _ "n + snd r"] exI [of _ rs']) auto
  qed
qed

lemma merge_prev:
  assumes S: "seg h base (ls @ [x]) q" "seg h bp ((bp, n) # rs) base" "sorted_wrt before (ls @ [x])" "sorted_wrt before ((bp, n) # rs)"
    and ok: "\<forall>y \<in> set (ls @ [x]). block_ok y \<and> unat (fst y) + 8 * unat (snd y) \<le> unat bp \<and> unat (fst y) + 8 \<le> unat bp"
      "\<forall>y \<in> set ((bp, n) # rs). block_ok y"
    and h1: "h1 = (if fst x + 8 * hsize h (fst x) = bp then set_ptr (fst x) (hptr h bp) (set_size (fst x) (hsize h (fst x) + hsize h bp) h)
      else set_ptr (fst x) bp h)"
  obtains mid where "seg h1 base (ls @ mid @ rs) base" "sorted_wrt before (ls @ mid @ rs)" "\<forall>y \<in> set mid. block_ok y"
    "free_mem mid = units x \<union> units (bp, n)" "mid = [x, (bp, n)] \<or> (mid = [(fst x, snd x + n)] \<and> 0 < snd x \<and> n \<le> snd x + n)"
proof -
  let ?p = "fst x" and ?k = "snd x"
  have fx: "fits ?p" using ok(1) by (simp add: block_ok_def)
  have k: "hsize h ?p = ?k" using seg_size [OF S(1), of x] by simp
  have n: "hsize h bp = n" "seg h (hptr h bp) rs base" using S(2) by auto
  have e: "unat (?p + 8 * ?k) = unat ?p + 8 * unat ?k" using ok(1) unat_end [of ?p ?k] by simp
  have low: "before y x" if "y \<in> set ls" for y using S(3) that by (simp add: sorted_wrt_append)
  have high: "before (bp, n) y" if "y \<in> set rs" for y using S(4) that by simp
  have lx: "fits (fst y) \<and> far ?p (fst y)" if "y \<in> set ls" for y using ok(1) that low [OF that] before_far(2) by (auto simp: block_ok_def)
  have xr: "fits (fst y) \<and> far ?p (fst y)" if "y \<in> set rs" for y
    using ok that high [OF that] by (force simp: block_ok_def far_def before_def)
  have xb: "fits bp" "far ?p bp" using ok by (auto simp: block_ok_def far_def)
  have frame: "seg (set_ptr ?p v g) r ls s \<longleftrightarrow> seg g r ls s" "seg (set_ptr ?p v g) r rs s \<longleftrightarrow> seg g r rs s"
    "seg (set_size ?p v g) r ls s \<longleftrightarrow> seg g r ls s" "seg (set_size ?p v g) r rs s \<longleftrightarrow> seg g r rs s"
    for v r s and g :: "'a uheap_scheme"
    by (rule seg_set_ptr [OF fx]; rule lx xr; assumption)+
  obtain l where l: "seg h base ls l" "l = ?p" using S(1) by (auto simp: seg_append)
  show ?thesis
  proof (cases "?p + 8 * ?k = bp")
    case False
    have "unat ?p + 8 * unat ?k \<noteq> unat bp" using False e by (auto simp: word_unat_eq_iff)
    then have xb': "before x (bp, n)" using ok(1) by (auto simp: before_def)
    have "seg h1 base (ls @ [x, (bp, n)] @ rs) base"
      using False l n k by (simp add: h1 seg_append frame fx header_far [OF fx xb])
    moreover have "sorted_wrt before (ls @ [x, (bp, n)] @ rs)"
    proof -
      have "before x y" if "y \<in> set rs" for y using xb' high [OF that] by (rule before_trans)
      moreover have "before z y" if "z \<in> set ls" "y \<in> insert (bp, n) (set rs)" for z y
        using before_trans [OF low [OF that(1)]] xb' before_trans [OF xb' high] that(2) by blast
      ultimately show ?thesis using S(3,4) xb' by (auto simp: sorted_wrt_append)
    qed
    ultimately show ?thesis using ok by (intro that [of "[x, (bp, n)]"]) auto
  next
    case True
    have e': "unat ?p + 8 * unat ?k = unat bp" using e True by simp
    have nok: "unat bp + 8 * unat n < 2 ^ 32" using ok(2) by (simp add: block_ok_def)
    note j = units_join [OF e' nok]
    have "seg h1 base (ls @ [(?p, ?k + n)] @ rs) base"
      using True l n k by (simp add: h1 seg_append frame fx header_far [OF fx xb])
    moreover have "sorted_wrt before (ls @ [(?p, ?k + n)] @ rs)"
    proof -
      have "before (?p, ?k + n) y" if "y \<in> set rs" for y using high [OF that] e' by (auto simp: before_def j(1))
      moreover have "before z (?p, ?k + n)" if "z \<in> set ls" for z using low [OF that] by (simp add: before_def)
      moreover have "before z y" if "z \<in> set ls" "y \<in> set rs" for z y
        using low [OF that(1)] high [OF that(2)] e' by (force simp: before_def)
      ultimately show ?thesis using S(3,4) by (auto simp: sorted_wrt_append)
    qed
    moreover have "block_ok (?p, ?k + n)" using e' nok fx by (simp add: block_ok_def j(1))
    moreover have "0 < ?k" using e' ok(1) by (auto simp: word_less_nat_alt)
    moreover have "n \<le> ?k + n" using j(1) by (simp add: word_le_nat_alt)
    ultimately show ?thesis using j(2) by (intro that [of "[(?p, ?k + n)]"]) auto
  qed
qed

lemma seg_freep [simp]: "seg (h\<lparr>freep := p\<rparr>) r xs q \<longleftrightarrow> seg h r xs q"
  by (rule seg_frame) simp

text \<open>The memory that the allocator may write: the free memory and the header \<open>base\<close>.\<close>

definition own_mem :: "(u32 \<times> u32) list \<Rightarrow> 'a uheap_scheme \<Rightarrow> nat set" where
  "own_mem xs h = free_mem xs \<union> {unat (hbase h)..<unat (hbase h) + 8}"

lemma header_in_own:
  assumes "free_list xs h" and "x \<in> set xs"
  shows "{unat (fst x)..<unat (fst x) + 8} \<subseteq> own_mem xs h"
proof (cases "0 < snd x")
  case True
  then have "{unat (fst x)..<unat (fst x) + 8} \<subseteq> units x" by (auto simp: units_def word_less_nat_alt)
  then show ?thesis using assms(2) by (auto simp: own_mem_def free_mem_def)
next
  case False
  then have "x = (hbase h, 0)" by (rule free_list_empty [OF assms])
  then show ?thesis by (simp add: own_mem_def)
qed

lemma free_u_frame:
  assumes "free_find h bp (freep h) = Some p" and "free_u (bp + 8) h = Some h'" and "fits p" and "fits bp"
    and "unat a < unat p \<or> unat p + 8 \<le> unat a" and "unat a < unat bp \<or> unat bp + 8 \<le> unat a"
  shows "umem h' a = umem h a" "hbase h' = hbase h" "brk h' = brk h" "freep h' = p"
  using assms by (auto simp: free_u_def Let_def set_mem)

lemma free_u_inserts:
  assumes F: "free_list xs h" and b: "block_ok (bp, n)" "0 < n" "hsize h bp = n" "hbase h < bp"
    and c: "\<forall>x \<in> set xs. clear_of (bp, n) x"
  shows "\<exists>h' xs'. free_u (bp + 8) h = Some h' \<and> free_list xs' h' \<and> free_mem xs' = free_mem xs \<union> units (bp, n) \<and>
    hbase h' = hbase h \<and> brk h' = brk h \<and> (\<exists>x \<in> set xs'. n \<le> snd x) \<and>
    (\<forall>a. unat a \<notin> own_mem xs h \<union> units (bp, n) \<longrightarrow> umem h' a = umem h a)"
proof -
  obtain bs where bs: "xs = (hbase h, 0) # bs" "\<forall>x \<in> set bs. 0 < snd x" and base: "0 < hbase h"
    and so: "sorted_wrt before xs" and ok: "\<forall>x \<in> set xs. block_ok x"
    using F by (auto simp: free_list_def blocks_ok_def)
  have "fst (hd xs) < bp" "xs \<noteq> []" using bs(1) b(4) by simp_all
  moreover have "fst x < bp" if "before x y" "fst y < bp" for x y using that by (simp add: before_def word_less_nat_alt)
  ultimately obtain ls x rs where xs: "xs = ls @ x # rs" and lo: "\<forall>y \<in> set (ls @ [x]). fst y < bp" and hi: "\<forall>y \<in> set rs. \<not> fst y < bp"
    using split_at [OF so, of "\<lambda>y. fst y < bp"] by blast
  have n8: "8 \<le> 8 * unat n" using b(2) by (simp add: word_less_nat_alt)
  have fb: "fits bp" using b(1) by (simp add: block_ok_def)
  have lo': "unat (fst y) + 8 * unat (snd y) \<le> unat bp \<and> unat (fst y) + 8 \<le> unat bp" if "y \<in> set (ls @ [x])" for y
  proof -
    have "clear_of (bp, n) y" "fst y < bp" using c lo that xs by auto
    then show ?thesis using n8 by (auto simp: clear_of_def word_less_nat_alt)
  qed
  have hi': "unat bp + 8 * unat n \<le> unat (fst y)" if "y \<in> set rs" for y
  proof -
    have "clear_of (bp, n) y" "\<not> fst y < bp" using c hi that xs by auto
    then show ?thesis by (auto simp: clear_of_def word_less_nat_alt)
  qed
  have "\<forall>y \<in> set rs. bp < fst y" using hi' n8 by (fastforce simp: word_less_nat_alt)
  from free_find_place [OF F xs lo this] have ff: "free_find h bp (freep h) = Some (fst x)" .
  obtain q where q: "seg h (hbase h) (ls @ [x]) q" "seg h q rs (hbase h)" using F xs by (auto simp: free_list_def seg_append)
  have hq: "hptr h (fst x) = q" using seg_last [OF q(1)] by simp
  define h1 where "h1 = (if bp + 8 * hsize h bp = q then set_ptr bp (hptr h q) (set_size bp (hsize h bp + hsize h q) h) else set_ptr bp q h)"
  have R: "sorted_wrt before rs" "\<forall>y \<in> set rs. block_ok y \<and> unat bp + 8 * unat n \<le> unat (fst y)"
    using so ok hi' xs by (auto simp: sorted_wrt_append)
  from merge_next [OF b(1-3) q(2) R b(4) h1_def] obtain n1 rs1 where
    m: "seg h1 bp ((bp, n1) # rs1) (hbase h)" "sorted_wrt before ((bp, n1) # rs1)" "\<forall>y \<in> set ((bp, n1) # rs1). block_ok y"
      "n \<le> n1" "set rs1 \<subseteq> set rs" "free_mem ((bp, n1) # rs1) = units (bp, n) \<union> free_mem rs" by blast
  have lf: "fits (fst y) \<and> far bp (fst y)" if "y \<in> set (ls @ [x])" for y
    using lo' [OF that] ok that xs by (auto simp: far_def block_ok_def)
  have fr: "seg (set_ptr bp v g) r (ls @ [x]) s \<longleftrightarrow> seg g r (ls @ [x]) s" "seg (set_size bp v g) r (ls @ [x]) s \<longleftrightarrow> seg g r (ls @ [x]) s"
    for v r s and g :: "'a uheap_scheme" by (rule seg_set_ptr [OF fb lf], assumption)+
  have L: "seg h1 (hbase h) (ls @ [x]) q" using q(1) by (simp only: h1_def fr split: if_split) simp
  have xf: "fits (fst x)" "far bp (fst x)" using lf by auto
  define h2 where "h2 = (if fst x + 8 * hsize h1 (fst x) = bp then set_ptr (fst x) (hptr h1 bp) (set_size (fst x) (hsize h1 (fst x) + hsize h1 bp) h1)
      else set_ptr (fst x) bp h1)"
  have so': "sorted_wrt before (ls @ [x])" "\<forall>y \<in> set (ls @ [x]). block_ok y \<and> unat (fst y) + 8 * unat (snd y) \<le> unat bp \<and> unat (fst y) + 8 \<le> unat bp"
    using so ok lo' xs by (auto simp: sorted_wrt_append)
  from merge_prev [OF L m(1) so'(1) m(2) so'(2) m(3) h2_def] obtain mid where
    d: "seg h2 (hbase h) (ls @ mid @ rs1) (hbase h)" "sorted_wrt before (ls @ mid @ rs1)" "\<forall>y \<in> set mid. block_ok y"
      "free_mem mid = units x \<union> units (bp, n1)" "mid = [x, (bp, n1)] \<or> (mid = [(fst x, snd x + n1)] \<and> 0 < snd x \<and> n1 \<le> snd x + n1)" .
  let ?h = "h2\<lparr>freep := fst x\<rparr>" and ?xs = "ls @ mid @ rs1"
  have fu: "free_u (bp + 8) h = Some ?h" unfolding free_u_def Let_def by (simp add: ff hq h1_def h2_def)
  have hb: "hbase h2 = hbase h" by (simp add: h2_def h1_def)
  have mid: "x \<in> set xs" "set ls \<subseteq> set xs" "set rs1 \<subseteq> set xs" "\<exists>y \<in> set mid. fst y = fst x" "\<exists>y \<in> set mid. n \<le> snd y"
    using d(5) m(4,5) xs by auto
  have n1: "0 < n1" using b(2) m(4) by simp
  have "\<exists>bs'. ?xs = (hbase h, 0) # bs' \<and> (\<forall>y \<in> set bs'. 0 < snd y)"
  proof (cases ls)
    case Nil
    then have "x = (hbase h, 0)" "set rs1 \<subseteq> set bs" using bs(1) xs m(5) by auto
    then show ?thesis using Nil d(5) bs(2) n1 by auto
  next
    case (Cons l ls')
    then have "l = (hbase h, 0)" "set ls' \<subseteq> set bs" "set rs1 \<subseteq> set bs" "x \<in> set bs" using bs(1) xs m(5) by auto
    moreover have "\<forall>y \<in> set mid. 0 < snd y" using d(5) n1 calculation(4) bs(2) by auto
    ultimately show ?thesis using Cons bs(2) by auto
  qed
  then have "blocks_ok (hbase h) ?xs" using d(2,3) ok mid(2,3) base unfolding blocks_ok_def by auto
  moreover have "fst x \<in> fst ` set ?xs" using mid(4) by (auto intro: rev_image_eqI)
  ultimately have "free_list ?xs ?h" using d(1) hb by (simp add: free_list_def)
  moreover have "free_mem ?xs = free_mem xs \<union> units (bp, n)" using d(4) m(6) xs by auto
  moreover have "umem ?h a = umem h a" if "unat a \<notin> own_mem xs h \<union> units (bp, n)" for a
  proof (rule free_u_frame(1) [OF ff fu xf(1) fb])
    have "unat a \<notin> {unat (fst x)..<unat (fst x) + 8}" using header_in_own [OF F mid(1)] that by blast
    then show "unat a < unat (fst x) \<or> unat (fst x) + 8 \<le> unat a" by auto
    show "unat a < unat bp \<or> unat bp + 8 \<le> unat a" using that n8 by (auto simp: units_def)
  qed
  moreover have "hbase ?h = hbase h" "brk ?h = brk h" by (simp_all add: h2_def h1_def)
  ultimately show ?thesis using fu mid(5) by (intro exI [of _ ?h] exI [of _ ?xs]) auto
qed

section \<open>The search of malloc\<close>

lemma malloc_scan_step:
  "hsize h p < n \<Longrightarrow> p \<noteq> freep h \<Longrightarrow> malloc_loop sbrk n prevp p h = malloc_loop sbrk n p (hptr h p) h"
  by (auto simp: malloc_loop.simps [of sbrk n prevp])

lemma malloc_at_freep:
  "hsize h (freep h) < n \<Longrightarrow> malloc_loop sbrk n prevp (freep h) h =
    Option.bind (morecore sbrk n h) (\<lambda>(p, h). if p = 0 then Some (0, h) else malloc_loop sbrk n p (hptr h p) h)"
  using malloc_loop.simps [of sbrk n prevp "freep h" h] by auto

lemma malloc_scan:
  assumes "seg h p (as @ bs) q" and "bs \<noteq> []" and "\<forall>z \<in> set as. snd z < n \<and> fst z \<noteq> freep h"
  shows "malloc_loop sbrk n prevp p h = malloc_loop sbrk n (if as = [] then prevp else fst (last as)) (fst (hd bs)) h"
  using assms
proof (induction as arbitrary: p prevp)
  case Nil
  then show ?case using seg_hd by fastforce
next
  case (Cons a as)
  then have a: "p = fst a" "hsize h p = snd a" "seg h (hptr h p) (as @ bs) q" "snd a < n" "p \<noteq> freep h" by auto
  then have "malloc_loop sbrk n prevp p h = malloc_loop sbrk n p (hptr h p) h" by (intro malloc_scan_step) simp_all
  then show ?case using Cons.IH [OF a(3) Cons.prems(2), of p] Cons.prems(3) a(1) by simp
qed

text \<open>The blocks in the order of the search, which starts after \<open>freep\<close> and ends with it.\<close>

lemma free_list_turn:
  assumes F: "free_list xs h"
  obtains ws f where "seg h (hptr h (freep h)) (ws @ [f]) (hptr h (freep h))" "fst f = freep h" "set (ws @ [f]) = set xs"
    "\<forall>z \<in> set ws. fst z \<noteq> freep h"
proof -
  obtain f where f: "f \<in> set xs" "fst f = freep h" using F by (auto simp: free_list_def)
  then obtain us vs where xs: "xs = us @ f # vs" by (auto dest: split_list)
  have so: "sorted_wrt before xs" using F by (simp add: free_list_def blocks_ok_def)
  have s: "seg h (hbase h) (us @ f # vs) (hbase h)" using F xs by (simp add: free_list_def)
  then have "seg h (hbase h) us (fst f)" "seg h (hptr h (freep h)) vs (hbase h)" "hsize h (freep h) = snd f"
    using f(2) by (auto simp: seg_append)
  then have "seg h (hptr h (freep h)) ((vs @ us) @ [f]) (hptr h (freep h))" using f(2) by (auto simp: seg_append)
  moreover have "\<forall>z \<in> set (vs @ us). fst z \<noteq> freep h"
    using so xs f(2) by (auto simp: sorted_wrt_append before_def)
  ultimately show ?thesis using that [of "vs @ us" f] f(2) xs by auto
qed

lemma malloc_finds:
  assumes F: "free_list xs h" and "\<exists>x \<in> set xs. n \<le> snd x"
  obtains y pr where "malloc_loop sbrk n (freep h) (hptr h (freep h)) h = malloc_loop sbrk n pr (fst y) h" "y \<in> set xs" "n \<le> snd y"
    "pr \<in> fst ` set xs" "hptr h pr = fst y"
proof -
  obtain ws f where w: "seg h (hptr h (freep h)) (ws @ [f]) (hptr h (freep h))" "fst f = freep h" "set (ws @ [f]) = set xs"
    "\<forall>z \<in> set ws. fst z \<noteq> freep h" by (rule free_list_turn [OF F])
  have "\<exists>x \<in> set (ws @ [f]). n \<le> snd x" using assms(2) w(3) by simp
  from split_list_first_prop [of "ws @ [f]" "\<lambda>x. n \<le> snd x", OF this]
  obtain as y bs where a: "ws @ [f] = as @ y # bs" "n \<le> snd y" "\<forall>z \<in> set as. \<not> n \<le> snd z" by blast
  have "set as \<subseteq> set ws" using a(1) by (cases bs rule: rev_cases) auto
  with w(4) a(3) have lt: "\<forall>z \<in> set as. snd z < n \<and> fst z \<noteq> freep h" by auto
  let ?pr = "if as = [] then freep h else fst (last as)"
  have s: "seg h (hptr h (freep h)) (as @ y # bs) (hptr h (freep h))" using w(1) a(1) by simp
  then have "malloc_loop sbrk n (freep h) (hptr h (freep h)) h = malloc_loop sbrk n ?pr (fst y) h"
    using malloc_scan [of h _ as "y # bs", OF s _ lt] by simp
  moreover have "hptr h ?pr = fst y"
  proof (cases "as = []")
    case False
    obtain r where "seg h (hptr h (freep h)) as r" "r = fst y" using s by (auto simp: seg_append)
    then show ?thesis using seg_last [OF _ False] False by auto
  qed (use s in simp)
  moreover have "?pr \<in> fst ` set xs"
  proof (cases "as = []")
    case False
    have "last as \<in> set (ws @ [f])" using \<open>set as \<subseteq> set ws\<close> last_in_set [OF False] by auto
    then have "last as \<in> set xs" unfolding w(3) .
    then show ?thesis using False by simp
  qed (use F in \<open>simp add: free_list_def\<close>)
  moreover have "y \<in> set xs" using a(1) w(3) by (metis in_set_conv_decomp)
  ultimately show ?thesis using that a(2) by blast
qed

lemma malloc_misses:
  assumes F: "free_list xs h" and "\<forall>x \<in> set xs. snd x < n"
  shows "malloc_loop sbrk n (freep h) (hptr h (freep h)) h =
    Option.bind (morecore sbrk n h) (\<lambda>(p, h). if p = 0 then Some (0, h) else malloc_loop sbrk n p (hptr h p) h)"
proof -
  obtain ws f where w: "seg h (hptr h (freep h)) (ws @ [f]) (hptr h (freep h))" "fst f = freep h" "set (ws @ [f]) = set xs"
    "\<forall>z \<in> set ws. fst z \<noteq> freep h" by (rule free_list_turn [OF F])
  have "\<forall>z \<in> set ws. snd z < n \<and> fst z \<noteq> freep h" using assms(2) w(3,4) by auto
  from malloc_scan [OF w(1) _ this, of sbrk "freep h"] have
    m: "malloc_loop sbrk n (freep h) (hptr h (freep h)) h = malloc_loop sbrk n (if ws = [] then freep h else fst (last ws)) (freep h) h"
    using w(2) by simp
  have "hsize h (freep h) < n" using seg_size [OF w(1), of f] w(2,3) assms(2) by auto
  then show ?thesis by (rule trans [OF m malloc_at_freep])
qed

section \<open>Taking a block\<close>

lemma seg_nth:
  assumes "seg h p xs q" and "i < length xs"
  shows "hptr h (fst (xs ! i)) = (if Suc i < length xs then fst (xs ! Suc i) else q)"
  using assms
proof (induction xs arbitrary: p i)
  case (Cons x xs)
  show ?case
  proof (cases i)
    case 0
    then show ?thesis using Cons.prems(1) by (cases xs) auto
  next
    case (Suc j)
    then show ?thesis using Cons.IH [of "hptr h p" j] Cons.prems by auto
  qed
qed simp

lemma free_list_pred:
  assumes F: "free_list xs h" and xs: "xs = ls @ y # rs" and "ls \<noteq> []" and "pr \<in> fst ` set xs" and "hptr h pr = fst y"
  shows "pr = fst (last ls)"
proof -
  have so: "sorted_wrt before xs" and s: "seg h (hbase h) xs (hbase h)" and base: "hbase h = fst (xs ! 0)"
    using F by (auto simp: free_list_def blocks_ok_def)
  have inj: "i = j" if "i < length xs" "j < length xs" "fst (xs ! i) = fst (xs ! j)" for i j
    using that sorted_wrt_nth_less [OF so, of i j] sorted_wrt_nth_less [OF so, of j i]
    by (cases i j rule: linorder_cases) (auto simp: before_def)
  obtain i where i: "i < length xs" "pr = fst (xs ! i)" using assms(4) by (auto simp: in_set_conv_nth)
  have y: "xs ! length ls = y" "length ls < length xs" using xs by simp_all
  have "(if Suc i < length xs then fst (xs ! Suc i) else hbase h) = fst y" using seg_nth [OF s i(1)] i(2) assms(5) by simp
  moreover have "0 < length xs" using i(1) by linarith
  ultimately have "Suc i = length ls"
    using inj [of "Suc i" "length ls"] inj [of 0 "length ls"] y base assms(3) by (auto split: if_splits)
  then have "i = length ls - 1" "i < length ls" by simp_all
  then show ?thesis using i(2) xs by (simp add: last_conv_nth [OF assms(3)] nth_append)
qed

text \<open>The result of taking a block \<open>(r, n)\<close> out of the free memory \<open>U\<close>.\<close>

definition taken :: "nat set \<Rightarrow> u32 \<Rightarrow> u32 \<Rightarrow> (u32 \<times> u32) list \<Rightarrow> 'a uheap_scheme \<Rightarrow> bool" where
  "taken U r n xs h \<longleftrightarrow> free_list xs h \<and> block_ok (r, n) \<and> hsize h r = n \<and> hbase h < r \<and>
     free_mem xs \<inter> units (r, n) = {} \<and> free_mem xs \<union> units (r, n) = U \<and> (\<forall>x \<in> set xs. clear_of (r, n) x)"

lemma units_split:
  assumes "unat n < unat k" and "unat p + 8 * unat k < 2 ^ 32"
  shows "unat (k - n :: u32) = unat k - unat n" "unat (p + 8 * (k - n)) = unat p + 8 * (unat k - unat n)"
    "units (p, k) = units (p, k - n) \<union> units (p + 8 * (k - n), n)" "units (p, k - n) \<inter> units (p + 8 * (k - n), n) = {}"
proof -
  show u: "unat (k - n) = unat k - unat n" using assms(1) by (simp add: unat_sub word_le_nat_alt)
  then show v: "unat (p + 8 * (k - n)) = unat p + 8 * (unat k - unat n)"
    using unat_end [of p "k - n"] assms by (simp add: block_ok_def fits_def unat_word_ariths)
  show "units (p, k) = units (p, k - n) \<union> units (p + 8 * (k - n), n)"
    unfolding units_def fst_conv snd_conv u v using assms(1) by auto
  show "units (p, k - n) \<inter> units (p + 8 * (k - n), n) = {}" unfolding units_def fst_conv snd_conv u v by auto
qed

lemma units_apart: "before x y \<Longrightarrow> units x \<inter> units y = {}"
  by (auto simp: before_def units_def)

lemma malloc_takes:
  assumes F: "free_list xs h" and y: "y \<in> set xs" "n \<le> snd y" "0 < n" and pr: "pr \<in> fst ` set xs" "hptr h pr = fst y"
  shows "\<exists>r h' xs'. malloc_loop sbrk n pr (fst y) h = Some (r + 8, h') \<and> taken (free_mem xs) r n xs' h' \<and>
    hbase h' = hbase h \<and> brk h' = brk h \<and> (\<forall>a. unat a \<notin> own_mem xs h \<longrightarrow> umem h' a = umem h a)"
proof -
  obtain bs where bs: "xs = (hbase h, 0) # bs" "\<forall>x \<in> set bs. 0 < snd x" and base: "0 < hbase h"
    and so: "sorted_wrt before xs" and ok: "\<forall>x \<in> set xs. block_ok x" and s: "seg h (hbase h) xs (hbase h)"
    using F by (auto simp: free_list_def blocks_ok_def)
  have k: "hsize h (fst y) = snd y" by (rule seg_size [OF s y(1)])
  obtain ls rs where xs: "xs = ls @ y # rs" using y(1) by (auto dest: split_list)
  have "ls \<noteq> []" using xs bs(1) y(2,3) by (cases ls) auto
  then obtain ls' where ls': "ls = (hbase h, 0) # ls'" using xs bs(1) by (cases ls) auto
  have prl: "pr = fst (last ls)" by (rule free_list_pred [OF F xs \<open>ls \<noteq> []\<close> pr])
  have lo: "before z y" if "z \<in> set ls" for z using so xs that by (simp add: sorted_wrt_append)
  have hi: "before y z" if "z \<in> set rs" for z using so xs that by (simp add: sorted_wrt_append)
  have yok: "fits (fst y)" "unat (fst y) + 8 * unat (snd y) < 2 ^ 32" using ok y(1) by (auto simp: block_ok_def)
  have by1: "hbase h < fst y" using lo [of "(hbase h, 0)"] ls' by (simp add: before_def word_less_nat_alt)
  have "units z \<inter> units y = {}" if "z \<in> set ls \<union> set rs" for z
    using that lo hi units_apart [of z y] units_apart [of y z] by blast
  then have apart: "(free_mem ls \<union> free_mem rs) \<inter> units y = {}" by (auto simp: free_mem_def)
  have cl: "clear_of w z" if "z \<in> set ls \<union> set rs" "unat (fst y) \<le> unat (fst w)"
      "unat (fst w) + 8 * unat (snd w) = unat (fst y) + 8 * unat (snd y)" for w z
    using that lo [of z] hi [of z] by (auto simp: clear_of_def before_def)
  have segs: "seg h (hbase h) ls (fst y)" "seg h (hptr h (fst y)) rs (hbase h)" using s xs by (auto simp: seg_append)
  have hdr: "unat a < unat (fst x) \<or> unat (fst x) + 8 \<le> unat a" if "unat a \<notin> own_mem xs h" "x \<in> set xs" for a x
  proof -
    have "unat a \<notin> {unat (fst x)..<unat (fst x) + 8}" using header_in_own [OF F that(2)] that(1) by blast
    then show ?thesis by auto
  qed
  show ?thesis
  proof (cases "snd y = n")
    case True
    let ?h = "(set_ptr pr (hptr h (fst y)) h)\<lparr>freep := pr\<rparr>" and ?xs = "ls @ rs"
    have e: "malloc_loop sbrk n pr (fst y) h = Some (fst y + 8, ?h)" using k True by (simp add: malloc_loop.simps [of sbrk n pr])
    define m where "m = last ls"
    have ls: "ls = butlast ls @ [m]" "m \<in> set xs" "pr = fst m" using \<open>ls \<noteq> []\<close> xs prl last_in_set [OF \<open>ls \<noteq> []\<close>] by (auto simp: m_def)
    have "sorted_wrt before (butlast ls @ m # y # rs)" using so xs ls(1) by (metis append.assoc append_Cons append_Nil)
    then have mb: "before z m" if "z \<in> set (butlast ls)" for z using that by (simp add: sorted_wrt_append)
    have mr: "before m z" if "z \<in> set (y # rs)" for z
      using \<open>sorted_wrt before (butlast ls @ m # y # rs)\<close> that by (auto simp: sorted_wrt_append)
    have pf: "fits pr" using ok ls(2,3) by (auto simp: block_ok_def)
    have far1: "fits (fst z) \<and> far pr (fst z)" if "z \<in> set (butlast ls) \<union> set rs" for z
    proof -
      have "z \<in> set xs" using that xs ls(1) by (metis Un_iff in_set_butlastD set_append list.set_intros(2))
      then show ?thesis using that mb [of z] mr [of z] before_far(2) [of z m] before_far(1) [of m z] ok ls(3) by (auto simp: block_ok_def)
    qed
    have fr: "seg (set_ptr pr v h) r (butlast ls) q \<longleftrightarrow> seg h r (butlast ls) q" "seg (set_ptr pr v h) r rs q \<longleftrightarrow> seg h r rs q" for v r q
      by (rule seg_set_ptr(1) [OF pf far1]; simp)+
    have "seg h (hbase h) (butlast ls) pr \<and> hsize h pr = snd m" using segs(1) ls(1,3) by (metis seg_append seg.simps)
    then have "seg ?h (hbase h) ((butlast ls @ [m]) @ rs) (hbase h)" using segs(2) ls(3) pf by (simp add: seg_append fr [unfolded ls(3)])
    then have sg: "seg ?h (hbase h) ?xs (hbase h)" using ls(1) by simp
    have "sorted_wrt before ?xs" using so xs by (auto simp: sorted_wrt_append)
    then have "blocks_ok (hbase h) ?xs" using bs xs ls' ok base by (auto simp: blocks_ok_def)
    moreover have "pr \<in> fst ` set ?xs" using prl \<open>ls \<noteq> []\<close> by simp
    ultimately have "free_list ?xs ?h" using sg by (simp add: free_list_def)
    moreover have "far pr (fst y)" using before_far(1) [OF mr [of y]] ls(3) by simp
    then have "hsize ?h (fst y) = n" using k True by (simp add: header_far pf yok(1))
    moreover have "(fst y, n) = y" using True by auto
    moreover have "\<forall>z \<in> set ?xs. clear_of y z" using cl [of _ y] by auto
    ultimately have "taken (free_mem xs) (fst y) n ?xs ?h"
      using ok y(1) by1 apart xs unfolding taken_def by auto
    moreover have "umem ?h a = umem h a" if "unat a \<notin> own_mem xs h" for a
      using set_mem(1) [OF pf] hdr [OF that ls(2)] ls(3) by simp
    ultimately show ?thesis using e by (intro exI [of _ "fst y"] exI [of _ ?h] exI [of _ ?xs]) simp
  next
    case False
    define k' where "k' = snd y - n"
    define r where "r = fst y + 8 * k'"
    let ?h = "(set_size r n (set_size (fst y) k' h))\<lparr>freep := pr\<rparr>" and ?xs = "ls @ (fst y, k') # rs"
    have lt: "unat n < unat (snd y)" using False y(2) by (metis word_less_nat_alt order_le_less)
    note u = units_split [OF lt yok(2), folded k'_def, folded r_def]
    have n1: "1 \<le> unat n" "1 \<le> unat k'" using y(3) lt u(1) by (auto simp: word_less_nat_alt)
    have re: "unat r + 8 * unat n = unat (fst y) + 8 * unat (snd y)" "unat (fst y) + 8 \<le> unat r" using u(1,2) lt n1 by auto
    have rf: "fits r" using re(1) yok(2) n1(1) by (simp add: fits_def)
    have ry: "far r (fst y)" using re(2) by (simp add: far_def)
    have far1: "fits (fst z) \<and> far r (fst z) \<and> far (fst y) (fst z)" if "z \<in> set ls \<union> set rs" for z
    proof -
      have "z \<in> set xs" using that xs by auto
      then have "fits (fst z)" using ok by (auto simp: block_ok_def)
      then show ?thesis using that lo [of z] hi [of z] re n1 by (auto simp: before_def far_def)
    qed
    have fr: "seg (set_size r v g) p ls q \<longleftrightarrow> seg g p ls q" "seg (set_size r v g) p rs q \<longleftrightarrow> seg g p rs q"
      "seg (set_size (fst y) v g) p ls q \<longleftrightarrow> seg g p ls q" "seg (set_size (fst y) v g) p rs q \<longleftrightarrow> seg g p rs q"
      for v p q and g :: "'a uheap_scheme"
      using far1 by (auto intro!: seg_set_ptr(2) rf yok(1))
    have e: "malloc_loop sbrk n pr (fst y) h = Some (r + 8, ?h)"
      using k False y(2) by (simp add: malloc_loop.simps [of sbrk n pr] Let_def k'_def r_def)
    have sg: "seg ?h (hbase h) ?xs (hbase h)" using segs yok(1) by (simp add: seg_append fr header_far [OF rf yok(1) ry])
    have "before z (fst y, k')" if "z \<in> set ls" for z using lo [OF that] by (simp add: before_def)
    moreover have "before (fst y, k') z" if "z \<in> set rs" for z using hi [OF that] u(1) by (auto simp: before_def)
    ultimately have "sorted_wrt before ?xs" using so xs by (auto simp: sorted_wrt_append)
    moreover have "block_ok (fst y, k')" using yok u(1) by (auto simp: block_ok_def)
    moreover have "0 < k'" using n1(2) by (simp add: word_less_nat_alt)
    ultimately have "blocks_ok (hbase h) ?xs" using bs xs ls' ok base by (auto simp: blocks_ok_def)
    moreover have "pr \<in> fst ` set ?xs" using prl \<open>ls \<noteq> []\<close> by simp
    ultimately have "free_list ?xs ?h" using sg by (simp add: free_list_def)
    moreover have "block_ok (r, n)" using re(1) yok(2) rf by (simp add: block_ok_def)
    moreover have "hbase h < r" using by1 re(2) by (simp add: word_less_nat_alt)
    moreover have "clear_of (r, n) z" if "z \<in> set ?xs" for z
    proof (cases "z = (fst y, k')")
      case True
      then show ?thesis using re(2) u(1,2) by (simp add: clear_of_def)
    next
      case False
      then show ?thesis using cl [of z "(r, n)"] that re by auto
    qed
    moreover have "free_mem ?xs \<inter> units (r, n) = {}" "free_mem ?xs \<union> units (r, n) = free_mem xs" using u(3,4) apart xs by auto
    ultimately have "taken (free_mem xs) r n ?xs ?h" unfolding taken_def by simp
    moreover have "umem ?h a = umem h a" if a: "unat a \<notin> own_mem xs h" for a
    proof -
      have "unat a \<notin> units y" using a y(1) by (auto simp: own_mem_def free_mem_def)
      then have "unat a < unat r \<or> unat r + 8 \<le> unat a" using re n1 by (auto simp: units_def)
      then show ?thesis using hdr [OF a y(1)] by (simp add: set_mem(2) rf yok(1))
    qed
    ultimately show ?thesis using e by (intro exI [of _ r] exI [of _ ?h] exI [of _ ?xs]) simp
  qed
qed

section \<open>More memory\<close>

text \<open>What the allocator relies on: \<open>sbrk\<close> of a number of bytes that is not negative fails and changes nothing, or it
  returns the old end of the memory of the process and moves the end up; the memory below keeps its contents.\<close>

definition sbrk_grows :: "(u32 \<Rightarrow> 'a uheap_scheme \<Rightarrow> u32 \<times> 'a uheap_scheme) \<Rightarrow> bool" where
  "sbrk_grows sbrk \<longleftrightarrow> (\<forall>n h. unat n < 2 ^ 31 \<longrightarrow> sbrk n h = (-1, h) \<or>
     (\<exists>m. sbrk n h = (brk h, h\<lparr>umem := m, brk := brk h + n\<rparr>) \<and> brk h \<noteq> -1 \<and> unat (brk h) + unat n < 2 ^ 32 \<and>
       (\<forall>x. unat x < unat (brk h) \<longrightarrow> m x = umem h x)))"

text \<open>Everything that the allocator knows lies below the end of the memory.\<close>

definition below_brk :: "(u32 \<times> u32) list \<Rightarrow> 'a uheap_scheme \<Rightarrow> bool" where
  "below_brk xs h \<longleftrightarrow> unat (hbase h) + 8 \<le> unat (brk h) \<and> (\<forall>x \<in> set xs. unat (fst x) + 8 * unat (snd x) \<le> unat (brk h))"

lemma below_brk_header:
  assumes "free_list xs h" and "below_brk xs h" and "x \<in> set xs"
  shows "unat (fst x) + 8 \<le> unat (brk h)"
proof (cases "0 < snd x")
  case True
  then have "8 \<le> 8 * unat (snd x)" by (simp add: word_less_nat_alt)
  then show ?thesis using assms(2,3) by (force simp: below_brk_def)
next
  case False
  then have "x = (hbase h, 0)" by (rule free_list_empty [OF assms(1,3)])
  then show ?thesis using assms(2) by (simp add: below_brk_def)
qed

lemma header_below:
  assumes "unat p + 8 \<le> e" and "e \<le> 2 ^ 32" and "\<forall>x. unat x < e \<longrightarrow> m x = umem h x"
  shows "get32 m p = hptr h p" "get32 m (p + 4) = hsize h p"
proof -
  have b: "unat (p + of_nat k) = unat p + k" if "k < 8" for k using assms(1,2) that by (intro unat_plus_nat) simp
  have "m (p + of_nat k) = umem h (p + of_nat k)" if "k < 8" for k using assms b [OF that] that by simp
  from this [of 0] this [of 1] this [of 2] this [of 3] this [of 4] this [of 5] this [of 6] this [of 7]
  show "get32 m p = hptr h p" "get32 m (p + 4) = hsize h p" by (simp_all add: hptr_def hsize_def get32_def add.assoc)
qed

lemma free_list_cong:
  assumes "free_list xs h" and "hbase h' = hbase h" "freep h' = freep h"
    and "\<And>x. x \<in> set xs \<Longrightarrow> hptr h' (fst x) = hptr h (fst x) \<and> hsize h' (fst x) = hsize h (fst x)"
  shows "free_list xs h'"
  using assms seg_frame [of xs h' h] by (simp add: free_list_def)

lemma morecore_adds:
  assumes F: "free_list xs h" and B: "below_brk xs h" and S: "sbrk_grows sbrk" and n: "unat n < 2 ^ 28"
  shows "morecore sbrk n h = Some (0, h) \<or>
    (\<exists>h' xs'. morecore sbrk n h = Some (freep h', h') \<and> free_list xs' h' \<and> hbase h' = hbase h \<and> brk h \<le> brk h' \<and>
      free_mem xs' = free_mem xs \<union> {unat (brk h)..<unat (brk h')} \<and> (\<exists>x \<in> set xs'. n \<le> snd x) \<and>
      (\<forall>a. unat a < unat (brk h) \<longrightarrow> unat a \<notin> own_mem xs h \<longrightarrow> umem h' a = umem h a))"
proof -
  define nu where "nu = (if n < 4096 then 4096 else n)"
  have nu: "n \<le> nu" "4096 \<le> unat nu" "unat nu < 2 ^ 28" "0 < nu" using n by (auto simp: nu_def word_less_nat_alt word_le_nat_alt)
  have n8: "unat (nu * 8) = 8 * unat nu" using nu(3) by (simp add: unat_word_ariths)
  show ?thesis
  proof (cases "sbrk (nu * 8) h = (-1, h)")
    case True
    then show ?thesis by (simp add: morecore_def Let_def flip: nu_def)
  next
    case False
    moreover have "unat (nu * 8) < 2 ^ 31" using n8 nu(3) by simp
    ultimately obtain m where m: "sbrk (nu * 8) h = (brk h, h\<lparr>umem := m, brk := brk h + nu * 8\<rparr>)" "brk h \<noteq> -1"
      "unat (brk h) + unat (nu * 8) < 2 ^ 32" "\<forall>x. unat x < unat (brk h) \<longrightarrow> m x = umem h x"
      using S unfolding sbrk_grows_def by blast
    define g where "g = set_size (brk h) nu (h\<lparr>umem := m, brk := brk h + nu * 8\<rparr>)"
    have ok: "block_ok (brk h, nu)" using m(3) n8 nu(2) by (simp add: block_ok_def fits_def)
    then have fb: "fits (brk h)" by (simp add: block_ok_def)
    have le: "unat (brk h) \<le> 2 ^ 32" using m(3) by simp
    have hdr: "hptr g (fst x) = hptr h (fst x) \<and> hsize g (fst x) = hsize h (fst x)" if "x \<in> set xs" for x
    proof -
      have b: "unat (fst x) + 8 \<le> unat (brk h)" by (rule below_brk_header [OF F B that])
      then have "far (brk h) (fst x)" "fits (fst x)" using fb by (auto simp: far_def fits_def)
      then show ?thesis using header_below [OF b le m(4)] by (simp add: g_def header_far fb) (simp add: hptr_def hsize_def)
    qed
    have G: "free_list xs g" by (rule free_list_cong [OF F _ _ hdr]) (simp_all add: g_def)
    have "hsize g (brk h) = nu" "hbase g < brk h" using B by (auto simp: g_def below_brk_def word_less_nat_alt)
    moreover have "\<forall>x \<in> set xs. clear_of (brk h, nu) x"
      using B below_brk_header [OF F B] by (auto simp: clear_of_def below_brk_def)
    ultimately obtain h' xs' where
      r: "free_u (brk h + 8) g = Some h'" "free_list xs' h'" "free_mem xs' = free_mem xs \<union> units (brk h, nu)"
        "hbase h' = hbase g" "brk h' = brk g" "\<exists>x \<in> set xs'. nu \<le> snd x"
        "\<forall>a. unat a \<notin> own_mem xs g \<union> units (brk h, nu) \<longrightarrow> umem h' a = umem g a"
      using free_u_inserts [OF G ok nu(4)] by metis
    have b': "unat (brk h') = unat (brk h) + 8 * unat nu"
      using m(3) n8 unat_plus_nat [of "brk h" "unat (nu * 8)"] by (simp add: r(5) g_def mult.commute)
    have "morecore sbrk n h = Some (freep h', h')"
      using m(1,2) r(1) by (simp add: morecore_def Let_def g_def flip: nu_def)
    moreover have "free_mem xs' = free_mem xs \<union> {unat (brk h)..<unat (brk h')}" using r(3) b' by (simp add: units_def)
    moreover have "umem h' a = umem h a" if "unat a < unat (brk h)" "unat a \<notin> own_mem xs h" for a
    proof -
      have "umem h' a = umem g a" using r(7) that by (auto simp: own_mem_def units_def g_def)
      also have "\<dots> = m a" using set_mem(2) [OF fb, of a nu "h\<lparr>umem := m, brk := brk h + nu * 8\<rparr>"] that(1) by (simp add: g_def)
      finally show ?thesis using m(4) that(1) by simp
    qed
    moreover have "\<exists>x \<in> set xs'. n \<le> snd x" using r(6) nu(1) by force
    moreover have "brk h \<le> brk h'" using b' by (simp add: word_le_nat_alt)
    ultimately show ?thesis using r(2,4) by (intro disjI2 exI [of _ h'] exI [of _ xs']) (simp add: g_def)
  qed
qed

section \<open>The allocator\<close>

text \<open>The number of units for \<open>nbytes\<close> bytes, with the header.\<close>

lemma nunits:
  assumes "unat nbytes < 2 ^ 30"
  shows "unat ((nbytes + 8 - 1) div 8 + 1 :: u32) = (unat nbytes + 7) div 8 + 1"
proof -
  have "unat (nbytes + 7) = unat nbytes + 7" using assms unat_plus_nat [of nbytes 7] by simp
  then have d: "unat ((nbytes + 7) div 8) = (unat nbytes + 7) div 8" by (simp add: unat_div_distrib)
  have "(unat nbytes + 7) div 8 < 2 ^ 31" using assms by simp
  then have "unat ((nbytes + 7) div 8 + 1) = (unat nbytes + 7) div 8 + 1" using d unat_plus_nat [of "(nbytes + 7) div 8" 1] by simp
  moreover have "nbytes + 8 - 1 = nbytes + 7" by simp
  ultimately show ?thesis by (simp only:)
qed

text \<open>Before the first call the list does not exist; then \<open>malloc\<close> makes one that consists of \<open>base\<close>.\<close>

definition heap_ok :: "(u32 \<times> u32) list \<Rightarrow> 'a uheap_scheme \<Rightarrow> bool" where
  "heap_ok xs h \<longleftrightarrow> below_brk xs h \<and> (if freep h = 0 then xs = [] \<and> 0 < hbase h else free_list xs h)"

lemma free_list_freep: "free_list xs h \<Longrightarrow> freep h \<noteq> 0"
proof
  assume F: "free_list xs h" and "freep h = 0"
  then obtain x where x: "x \<in> set xs" "fst x = 0" by (auto simp: free_list_def)
  obtain bs where "xs = (hbase h, 0) # bs" "0 < hbase h" "sorted_wrt before xs" using F by (auto simp: free_list_def blocks_ok_def)
  then show False using x by (auto simp: before_def)
qed

definition malloc_start :: "'a uheap_scheme \<Rightarrow> 'a uheap_scheme" where
  "malloc_start h = (if freep h = 0 then set_size (hbase h) 0 ((set_ptr (hbase h) (hbase h) h)\<lparr>freep := hbase h\<rparr>) else h)"

lemma malloc_start_ok:
  assumes "heap_ok xs h"
  obtains ys where "free_list ys (malloc_start h)" "below_brk ys (malloc_start h)" "free_mem ys = free_mem xs"
    "hbase (malloc_start h) = hbase h" "brk (malloc_start h) = brk h" "own_mem ys (malloc_start h) = own_mem xs h"
    "\<forall>a. unat a \<notin> own_mem xs h \<longrightarrow> umem (malloc_start h) a = umem h a"
proof (cases "freep h = 0")
  case False
  then show ?thesis using assms that [of xs] by (simp add: malloc_start_def heap_ok_def)
next
  case True
  let ?h = "malloc_start h" and ?ys = "[(hbase h, 0)]"
  have B: "xs = []" "0 < hbase h" "unat (hbase h) + 8 \<le> unat (brk h)" using assms True by (auto simp: heap_ok_def below_brk_def)
  have "unat (brk h) < 2 ^ 32" using unsigned_less [where ?'a = nat, of "brk h"] by simp
  then have f: "fits (hbase h)" using B(3) by (simp add: fits_def)
  have "free_list ?ys ?h" using B f True by (simp add: free_list_def blocks_ok_def block_ok_def malloc_start_def fits_def)
  moreover have "free_mem ?ys = {}" by (simp add: units_def)
  moreover have "umem ?h a = umem h a" if "unat a \<notin> own_mem xs h" for a
  proof -
    have "unat a < unat (hbase h) \<or> unat (hbase h) + 8 \<le> unat a" using that by (auto simp: own_mem_def)
    then show ?thesis using True by (simp add: malloc_start_def set_mem f)
  qed
  ultimately show ?thesis using B(1,3) True that [of ?ys] by (simp add: malloc_start_def below_brk_def own_mem_def)
qed

lemma mem_below_brk:
  assumes "free_list xs h" and "free_mem xs \<subseteq> {..<unat (brk h)}" and "unat (hbase h) + 8 \<le> unat (brk h)"
  shows "below_brk xs h"
proof -
  have "unat (fst x) + 8 * unat (snd x) \<le> unat (brk h)" if x: "x \<in> set xs" for x
  proof (cases "snd x = 0")
    case True
    then have "x = (hbase h, 0)" by (intro free_list_empty [OF assms(1) x]) simp
    then show ?thesis using assms(3) by simp
  next
    case False
    then have "0 < unat (snd x)" by (simp add: unat_gt_0)
    then have "unat (fst x) + 8 * unat (snd x) - 1 \<in> units x" by (auto simp: units_def)
    then have "unat (fst x) + 8 * unat (snd x) - 1 \<in> free_mem xs" using x by (auto simp: free_mem_def)
    then show ?thesis using assms(2) by auto
  qed
  then show ?thesis using assms(3) by (simp add: below_brk_def)
qed

lemma free_mem_below: "below_brk xs h \<Longrightarrow> free_mem xs \<subseteq> {..<unat (brk h)}"
  by (force simp: below_brk_def free_mem_def units_def)

lemma malloc_loop_ok:
  assumes F: "free_list xs h" and B: "below_brk xs h" and S: "sbrk_grows sbrk" and n: "0 < n" "unat n < 2 ^ 28"
  shows "\<exists>r h' xs'. malloc_loop sbrk n (freep h) (hptr h (freep h)) h = Some (r, h') \<and> hbase h' = hbase h \<and> brk h \<le> brk h' \<and>
    (\<forall>a. unat a < unat (brk h) \<longrightarrow> unat a \<notin> own_mem xs h \<longrightarrow> umem h' a = umem h a) \<and>
    (r = 0 \<and> h' = h \<and> (\<forall>x \<in> set xs. snd x < n) \<or>
     r \<noteq> 0 \<and> taken (free_mem xs \<union> {unat (brk h)..<unat (brk h')}) (r - 8) n xs' h')"
proof (cases "\<exists>x \<in> set xs. n \<le> snd x")
  case True
  from malloc_finds [OF F True] obtain y pr where
    f: "malloc_loop sbrk n (freep h) (hptr h (freep h)) h = malloc_loop sbrk n pr (fst y) h" "y \<in> set xs" "n \<le> snd y"
      "pr \<in> fst ` set xs" "hptr h pr = fst y" by metis
  from malloc_takes [OF F f(2,3) n(1) f(4,5), of sbrk] obtain r h' xs' where
    t: "malloc_loop sbrk n pr (fst y) h = Some (r + 8, h')" "taken (free_mem xs) r n xs' h'" "hbase h' = hbase h" "brk h' = brk h"
      "\<forall>a. unat a \<notin> own_mem xs h \<longrightarrow> umem h' a = umem h a" by blast
  have "unat (r + 8) = unat r + 8" using t(2) n(1) unat_plus_nat [of r 8] by (simp add: taken_def block_ok_def word_less_nat_alt)
  then have "r + 8 \<noteq> 0" by auto
  then show ?thesis using f(1) t by (intro exI [of _ "r + 8"] exI [of _ h'] exI [of _ xs']) simp
next
  case False
  then have miss: "\<forall>x \<in> set xs. snd x < n" by auto
  note e = malloc_misses [OF F miss, of sbrk]
  from morecore_adds [OF F B S n(2)] show ?thesis
  proof
    assume "morecore sbrk n h = Some (0, h)"
    then show ?thesis using e miss by (intro exI [of _ 0] exI [of _ h]) simp
  next
    assume "\<exists>h' xs'. morecore sbrk n h = Some (freep h', h') \<and> free_list xs' h' \<and> hbase h' = hbase h \<and> brk h \<le> brk h' \<and>
      free_mem xs' = free_mem xs \<union> {unat (brk h)..<unat (brk h')} \<and> (\<exists>x \<in> set xs'. n \<le> snd x) \<and>
      (\<forall>a. unat a < unat (brk h) \<longrightarrow> unat a \<notin> own_mem xs h \<longrightarrow> umem h' a = umem h a)"
    then obtain g ys where m: "morecore sbrk n h = Some (freep g, g)" "free_list ys g" "hbase g = hbase h" "brk h \<le> brk g"
      "free_mem ys = free_mem xs \<union> {unat (brk h)..<unat (brk g)}" "\<exists>x \<in> set ys. n \<le> snd x"
      "\<forall>a. unat a < unat (brk h) \<longrightarrow> unat a \<notin> own_mem xs h \<longrightarrow> umem g a = umem h a" by blast
    from malloc_finds [OF m(2,6)] obtain y pr where
      f: "malloc_loop sbrk n (freep g) (hptr g (freep g)) g = malloc_loop sbrk n pr (fst y) g" "y \<in> set ys" "n \<le> snd y"
        "pr \<in> fst ` set ys" "hptr g pr = fst y" by metis
    from malloc_takes [OF m(2) f(2,3) n(1) f(4,5), of sbrk] obtain r h' xs' where
      t: "malloc_loop sbrk n pr (fst y) g = Some (r + 8, h')" "taken (free_mem ys) r n xs' h'" "hbase h' = hbase g" "brk h' = brk g"
        "\<forall>a. unat a \<notin> own_mem ys g \<longrightarrow> umem h' a = umem g a" by blast
    have "unat (r + 8) = unat r + 8" using t(2) n(1) unat_plus_nat [of r 8] by (simp add: taken_def block_ok_def word_less_nat_alt)
    then have r: "r + 8 \<noteq> 0" by auto
    have "umem h' a = umem h a" if "unat a < unat (brk h)" "unat a \<notin> own_mem xs h" for a
      using that m(5,7) t(5) by (auto simp: own_mem_def m(3))
    then show ?thesis using e m(1,3,4,5) free_list_freep [OF m(2)] f(1) t(1-4) r
      by (intro exI [of _ "r + 8"] exI [of _ h'] exI [of _ xs']) simp
  qed
qed

lemma malloc_eq:
  "malloc sbrk nbytes h = malloc_loop sbrk ((nbytes + 8 - 1) div 8 + 1) (freep (malloc_start h)) (hptr (malloc_start h) (freep (malloc_start h)))
     (malloc_start h)"
  by (simp add: malloc_def malloc_start_def Let_def)

text \<open>C20. \<open>malloc\<close> always ends.  For fewer than 2^30 bytes it returns a null pointer and the free memory is as before, or it returns
  the start of \<open>nbytes\<close> bytes inside a block that was taken out of the free memory or out of memory that \<open>sbrk\<close>
  has just added: the block and the memory that is free afterwards are disjoint, and together they are the memory that was
  free before and what was added.  The header in front of the block holds its size, the free list is circular, sorted
  and coalesced again, and no byte that was in use is written.\<close>

theorem malloc_gives_block:
  assumes "heap_ok xs h" and "sbrk_grows sbrk" and "unat nbytes < 2 ^ 30"
  shows "\<exists>r h' xs'. malloc sbrk nbytes h = Some (r, h') \<and> heap_ok xs' h' \<and> freep h' \<noteq> 0 \<and> hbase h' = hbase h \<and>
    (\<forall>a. unat a < unat (brk h) \<longrightarrow> unat a \<notin> own_mem xs h \<longrightarrow> umem h' a = umem h a) \<and>
    (r = 0 \<and> brk h' = brk h \<and> free_mem xs' = free_mem xs \<or>
     (\<exists>B. B = {unat r - 8..<unat r + 8 * ((unat nbytes + 7) div 8)} \<and> unat (hbase h) + 16 \<le> unat r \<and>
       {unat r..<unat r + unat nbytes} \<subseteq> B \<and> B \<inter> free_mem xs' = {} \<and>
       B \<union> free_mem xs' = free_mem xs \<union> {unat (brk h)..<unat (brk h')} \<and>
       unat (hsize h' (r - 8)) = (unat nbytes + 7) div 8 + 1))"
proof -
  let ?n = "(nbytes + 8 - 1) div 8 + 1 :: u32" and ?h = "malloc_start h"
  note n = nunits [OF assms(3)]
  have n1: "0 < ?n" "unat ?n < 2 ^ 28" using assms(3) by (simp_all only: word_less_nat_alt n) simp_all
  obtain ys where y: "free_list ys ?h" "below_brk ys ?h" "free_mem ys = free_mem xs" "hbase ?h = hbase h" "brk ?h = brk h"
    "own_mem ys ?h = own_mem xs h" "\<forall>a. unat a \<notin> own_mem xs h \<longrightarrow> umem ?h a = umem h a"
    by (rule malloc_start_ok [OF assms(1)])
  from malloc_loop_ok [OF y(1,2) assms(2) n1] obtain r h' xs' where
    m: "malloc sbrk nbytes h = Some (r, h')" "hbase h' = hbase h" "brk h \<le> brk h'"
      "\<forall>a. unat a < unat (brk h) \<longrightarrow> unat a \<notin> own_mem xs h \<longrightarrow> umem h' a = umem ?h a"
      "r = 0 \<and> h' = ?h \<or> r \<noteq> 0 \<and> taken (free_mem xs \<union> {unat (brk h)..<unat (brk h')}) (r - 8) ?n xs' h'"
    unfolding malloc_eq [symmetric] y(3-6) by blast
  have frame: "\<forall>a. unat a < unat (brk h) \<longrightarrow> unat a \<notin> own_mem xs h \<longrightarrow> umem h' a = umem h a" using m(4) y(7) by simp
  from m(5) show ?thesis
  proof
    assume z: "r = 0 \<and> h' = ?h"
    then have "heap_ok ys h'" "freep h' \<noteq> 0" using y(1,2) free_list_freep [OF y(1)] by (simp_all add: heap_ok_def)
    then show ?thesis using m(1,2) frame z y(3,5) by (intro exI [of _ r] exI [of _ h'] exI [of _ ys]) simp
  next
    assume "r \<noteq> 0 \<and> taken (free_mem xs \<union> {unat (brk h)..<unat (brk h')}) (r - 8) ?n xs' h'"
    then have T: "taken (free_mem xs \<union> {unat (brk h)..<unat (brk h')}) (r - 8) ?n xs' h'" by blast
    have below: "free_mem xs \<subseteq> {..<unat (brk h)}" "unat (hbase h) + 8 \<le> unat (brk h)"
      using free_mem_below assms(1) by (auto simp: heap_ok_def below_brk_def)
    have le: "unat (brk h) \<le> unat (brk h')" using m(3) by (simp add: word_le_nat_alt)
    have F: "free_list xs' h'" "free_mem xs' \<subseteq> free_mem xs \<union> {unat (brk h)..<unat (brk h')}" using T by (auto simp: taken_def)
    have "free_mem xs' \<subseteq> {..<unat (brk h')}" using F(2) below(1) le by fastforce
    then have "below_brk xs' h'" by (rule mem_below_brk [OF F(1)]) (use below(2) le m(2) in simp)
    then have ok: "heap_ok xs' h'" "freep h' \<noteq> 0" using F(1) free_list_freep [OF F(1)] by (simp_all add: heap_ok_def)
    have "block_ok (r - 8, ?n)" "clear_of (r - 8, ?n) (hbase h', 0)" "hbase h' < r - 8"
      using T free_list_base [OF F(1)] by (auto simp: taken_def)
    then have b: "unat (r - 8) + 8 < 2 ^ 32" "unat (hbase h) + 8 \<le> unat (r - 8)" using m(2) n1(1)
      by (auto simp: block_ok_def clear_of_def word_less_nat_alt)
    have r8: "unat r = unat (r - 8) + 8" using b(1) unat_plus_nat [of "r - 8" 8] by simp
    let ?B = "{unat r - 8..<unat r + 8 * ((unat nbytes + 7) div 8)}"
    have B: "units (r - 8, ?n) = ?B" using r8 by (simp only: units_def n fst_conv snd_conv) auto
    have "unat nbytes \<le> 8 * ((unat nbytes + 7) div 8)" by presburger
    then have "{unat r..<unat r + unat nbytes} \<subseteq> ?B" by auto
    moreover have "?B \<inter> free_mem xs' = {}" "?B \<union> free_mem xs' = free_mem xs \<union> {unat (brk h)..<unat (brk h')}"
      using T unfolding taken_def B by (simp_all add: Int_commute Un_commute)
    moreover have "unat (hsize h' (r - 8)) = (unat nbytes + 7) div 8 + 1" using T n by (simp add: taken_def)
    ultimately show ?thesis using m(1,2) frame ok b(2) r8
      by (intro exI [of _ r] exI [of _ h'] exI [of _ xs'] conjI disjI2 exI [of _ ?B]) auto
  qed
qed

text \<open>A kernel with room for 1 MB, and a process that has not allocated yet.\<close>

definition sbrk_room :: "u32 \<Rightarrow> uheap \<Rightarrow> u32 \<times> uheap" where
  "sbrk_room n h = (if unat (brk h) + unat n \<le> 0x100000 then (brk h, h\<lparr>brk := brk h + n\<rparr>) else (-1, h))"

definition heap_bss :: uheap where
  "heap_bss = \<lparr>umem = (\<lambda>_. 0), hbase = 0x1000, freep = 0, brk = 0x2000\<rparr>"

lemma sbrk_room_grows: "sbrk_grows sbrk_room"
  unfolding sbrk_grows_def
proof (intro allI impI)
  fix n and h :: uheap
  show "sbrk_room n h = (-1, h) \<or> (\<exists>m. sbrk_room n h = (brk h, h\<lparr>umem := m, brk := brk h + n\<rparr>) \<and> brk h \<noteq> -1 \<and>
    unat (brk h) + unat n < 2 ^ 32 \<and> (\<forall>x. unat x < unat (brk h) \<longrightarrow> m x = umem h x))"
  proof (cases "unat (brk h) + unat n \<le> 0x100000")
    case True
    moreover have "brk h \<noteq> -1"
    proof
      assume "brk h = -1"
      then have "unat (brk h) = 4294967295" by (simp add: unat_m1)
      then show False using True by simp
    qed
    ultimately show ?thesis by (intro disjI2 exI [of _ "umem h"]) (simp add: sbrk_room_def)
  qed (simp add: sbrk_room_def)
qed

theorem malloc_gives_block_witness:
  "\<exists>r h' xs'. malloc sbrk_room 100 heap_bss = Some (r, h') \<and> heap_ok xs' h' \<and>
    (r = 0 \<or> {unat r..<unat r + 100} \<inter> free_mem xs' = {} \<and> {unat r..<unat r + 100} \<subseteq> {0x2000..<unat (brk h')})"
proof -
  have H: "heap_ok [] heap_bss" by (simp add: heap_ok_def heap_bss_def below_brk_def)
  have "unat (100 :: u32) < 2 ^ 30" by simp
  from malloc_gives_block [OF H sbrk_room_grows this] obtain r h' xs' where
    m: "malloc sbrk_room 100 heap_bss = Some (r, h')" "heap_ok xs' h'"
      "r = 0 \<or> (\<exists>B. {unat r..<unat r + unat (100 :: u32)} \<subseteq> B \<and> B \<inter> free_mem xs' = {} \<and>
         B \<union> free_mem xs' = free_mem [] \<union> {unat (brk heap_bss)..<unat (brk h')})" by blast
  from m(3) have "r = 0 \<or> {unat r..<unat r + 100} \<inter> free_mem xs' = {} \<and> {unat r..<unat r + 100} \<subseteq> {0x2000..<unat (brk h')}"
  proof
    assume "\<exists>B. {unat r..<unat r + unat (100 :: u32)} \<subseteq> B \<and> B \<inter> free_mem xs' = {} \<and>
      B \<union> free_mem xs' = free_mem [] \<union> {unat (brk heap_bss)..<unat (brk h')}"
    then obtain B where B: "{unat r..<unat r + 100} \<subseteq> B" "B \<inter> free_mem xs' = {}" "B \<subseteq> {0x2000..<unat (brk h')}"
      by (auto simp: heap_bss_def)
    then show ?thesis by blast
  qed simp
  with m(1,2) show ?thesis by blast
qed

text \<open>C21. \<open>free\<close> gives a block back: if the block in front of which the header stands is disjoint from the free memory and
  below the end of the memory, the search for its place ends, the free memory afterwards is what it was and the block,
  the list is circular, sorted and coalesced again, and no other byte is written.\<close>

theorem free_returns_block:
  assumes "heap_ok xs h" and "freep h \<noteq> 0" and "unat (hbase h) + 16 \<le> unat r" and "B = {unat r - 8..<unat r - 8 + 8 * unat (hsize h (r - 8))}"
    and "B \<noteq> {}" and "B \<subseteq> {..<unat (brk h)}" and "B \<inter> free_mem xs = {}"
  shows "\<exists>h' xs'. free_u r h = Some h' \<and> heap_ok xs' h' \<and> freep h' \<noteq> 0 \<and> hbase h' = hbase h \<and> brk h' = brk h \<and>
    free_mem xs' = free_mem xs \<union> B \<and> (\<forall>a. unat a \<notin> own_mem xs h \<union> B \<longrightarrow> umem h' a = umem h a)"
proof -
  let ?n = "hsize h (r - 8)"
  have F: "free_list xs h" and L: "below_brk xs h" using assms(1,2) by (auto simp: heap_ok_def)
  have r8: "unat (r - 8) = unat r - 8" using assms(3) by (simp add: unat_sub word_le_nat_alt)
  have n: "0 < unat ?n" using assms(4,5) by auto
  have U: "units (r - 8, ?n) = B" using assms(4) r8 by (simp add: units_def)
  have e: "unat r - 8 + 8 * unat ?n \<le> unat (brk h)"
  proof -
    have "unat r - 8 + 8 * unat ?n - 1 \<in> B" using n assms(4) by auto
    then show ?thesis using assms(6) n by auto
  qed
  have "unat (brk h) < 2 ^ 32" using unsigned_less [where ?'a = nat, of "brk h"] by simp
  then have ok: "block_ok (r - 8, ?n)" using e n r8 by (simp add: block_ok_def fits_def)
  have c: "clear_of (r - 8, ?n) x" if x: "x \<in> set xs" for x
  proof (cases "0 < snd x")
    case True
    have "units x \<inter> units (r - 8, ?n) = {}" using assms(7) x U by (auto simp: free_mem_def)
    moreover have "unat (fst x) \<in> units x" "unat (r - 8) \<in> units (r - 8, ?n)" using True n by (auto simp: units_def word_less_nat_alt)
    moreover have "8 \<le> 8 * unat (snd x)" using True by (simp add: word_less_nat_alt)
    ultimately show ?thesis by (fastforce simp: units_def clear_of_def)
  next
    case False
    then have "x = (hbase h, 0)" by (rule free_list_empty [OF F x])
    then show ?thesis using assms(3) r8 by (auto simp: clear_of_def)
  qed
  have "0 < ?n" "hbase h < r - 8" using n assms(3) r8 by (simp_all add: word_less_nat_alt)
  from free_u_inserts [OF F ok this(1) refl this(2)] c obtain h' xs' where
    f: "free_u (r - 8 + 8) h = Some h'" "free_list xs' h'" "free_mem xs' = free_mem xs \<union> units (r - 8, ?n)" "hbase h' = hbase h" "brk h' = brk h"
      "\<forall>a. unat a \<notin> own_mem xs h \<union> units (r - 8, ?n) \<longrightarrow> umem h' a = umem h a" by blast
  have "below_brk xs' h'"
  proof (rule mem_below_brk)
    show "free_mem xs' \<subseteq> {..<unat (brk h')}" using f(3,5) U assms(6) free_mem_below [OF L] by simp
  qed (use f L in \<open>simp_all add: below_brk_def\<close>)
  then have "heap_ok xs' h'" "freep h' \<noteq> 0" using f(2) free_list_freep [OF f(2)] by (simp_all add: heap_ok_def)
  then show ?thesis using f U by (intro exI [of _ h'] exI [of _ xs']) simp
qed

text \<open>A process whose free list is empty, with a block of four units at \<open>0x2000\<close>.\<close>

definition heap_one :: uheap where
  "heap_one = \<lparr>umem = put32 (put32 (\<lambda>_. 0) 0x1000 0x1000) 0x2004 4, hbase = 0x1000, freep = 0x1000, brk = 0x3000\<rparr>"

theorem free_returns_block_witness:
  "\<exists>h' xs'. free_u 0x2008 heap_one = Some h' \<and> heap_ok xs' h' \<and> free_mem xs' = {0x2000..<0x2020}"
proof -
  have e: "hptr heap_one 0x1000 = 0x1000" "hsize heap_one 0x1000 = 0" "hsize heap_one 0x2000 = 4"
    by (simp_all add: hptr_def hsize_def heap_one_def get32_put32_far) (simp add: get32_def le32_def)
  have H: "heap_ok [(0x1000, 0)] heap_one"
    using e by (simp add: heap_ok_def below_brk_def free_list_def blocks_ok_def block_ok_def fits_def heap_one_def)
  have r: "(0x2008 :: u32) - 8 = 0x2000" by simp
  have c: "freep heap_one \<noteq> 0" "unat (hbase heap_one) + 16 \<le> unat (0x2008 :: u32)"
    "{0x2000..<0x2020} = {unat (0x2008 :: u32) - 8..<unat (0x2008 :: u32) - 8 + 8 * unat (hsize heap_one (0x2008 - 8))}"
    "{0x2000..<0x2020 :: nat} \<noteq> {}" "{0x2000..<0x2020} \<subseteq> {..<unat (brk heap_one)}" "{0x2000..<0x2020} \<inter> free_mem [(0x1000, 0)] = {}"
    unfolding r e(3) by (auto simp: heap_one_def units_def)
  from free_returns_block [OF H c] show ?thesis by (auto simp: units_def)
qed

end
