(* ===== verification/Spec2Isabelle.thy ===== *)
theory Spec2Isabelle
  imports Log_Crash Trap Console_Props Pipe_Sched Vm_Copy Utils_Props Sh_Props Umalloc_Props
begin

text \<open>
  A verification development for xv6, a small Unix-like teaching kernel for x86, and for the
  user programs that come with it.

  \<^bold>\<open>The program.\<close>  The kernel has a page allocator and page tables, a process table with a scheduler,
  spin locks and sleep locks, a buffer cache over a disk, a write-ahead log, a file system with
  inodes, directories and path names, pipes and a file table, a console with keyboard and serial
  line, and the system calls that traps lead to.  The user programs call the kernel through
  system calls only: a library, a shell, \<open>grep\<close>, a memory allocator and a dozen small tools.

  \<^bold>\<open>The model.\<close>  Machine integers are words of their C width, memory is a function from 32 bit
  addresses to bytes.  A kernel routine is a function from the state to a \<open>kresult\<close>: it returns a
  value and a new state, or it ends with a panic, a bad access, a wait that no one in
  the model ends (\<open>Blocked\<close>) or a loop that does not end (\<open>Diverges\<close>).  The state is a record that each component
  extends: locks, process table, console, memory, buffer cache, log, file system, file table, kernel.
  A routine that sleeps is cut at the sleep into the atomic sections that the scheduler interleaves.
  A user program is a function of a record of system calls on an arbitrary world; its
  result is \<open>None\<close> when a loop of it never ends.

  \<^bold>\<open>Kernel theories.\<close>
  \<^item> \<open>Prelude\<close>: word types, results, list and word lemmas.  \<open>Interfaces\<close>: the locales of a resource
    pool, a bounded channel and a transition system with an invariant.  \<open>Ring\<close>: ring buffers with
    counters that wrap around.
  \<^item> \<open>Spinlock\<close> (\<open>spinlock.c\<close>): \<open>acquire\<close> and \<open>release\<close> over several CPUs; mutual exclusion in every
    interleaving, and on one CPU a refinement of a set of held locks, which is what the other
    theories use.  \<open>Ptable\<close>, \<open>Proc\<close> (\<open>proc.c\<close>): scheduling, sleep and wakeup; creation and end of
    processes.  \<open>Sleeplock\<close> (\<open>sleeplock.c\<close>): the lock protocol as a locale, interpreted for
    buffers and for inodes.
  \<^item> \<open>Cstring\<close> (\<open>string.c\<close>): \<open>memmove\<close> on overlapping ranges and \<open>safestrcpy\<close>.
  \<^item> \<open>Kalloc\<close> (\<open>kalloc.c\<close>): the free list as a pool of pages, and what the boot sequence puts into it.
    \<open>Vm\<close> (\<open>vm.c\<close>): page tables in byte memory; \<open>Vm_Props\<close>, \<open>Vm_Fork\<close> and \<open>Vm_Copy\<close> show what \<open>mappages\<close>, \<open>setupkvm\<close>
    and \<open>copyuvm\<close> map and copy, and that nothing else is written.
  \<^item> \<open>Bio\<close> (\<open>bio.c\<close>, \<open>memide.c\<close>): the buffer cache down to its list pointers; reads after writes, and the list
    in order of use.  \<open>Log\<close> (\<open>log.c\<close>): the write-ahead log; \<open>Log_Crash\<close>
    shows that a crash between any two block writes leaves all or nothing of a transaction.
    \<open>Fs\<close> (\<open>fs.c\<close>): blocks, inodes, contents, directories, paths.
  \<^item> \<open>Console\<close>, \<open>Kbd\<close>, \<open>Consdev\<close> (\<open>console.c\<close>, \<open>uart.c\<close>, \<open>ioapic.c\<close>, \<open>picirq.c\<close>, \<open>kbd.c\<close>): output, scan codes, input; \<open>Console_Props\<close> relates
    the interrupt handler to a line discipline over two queues, and shows which bytes \<open>consoleread\<close> delivers and how \<open>cgaputc\<close> moves the cursor.
  \<^item> \<open>File\<close> (\<open>pipe.c\<close>, \<open>file.c\<close>); \<open>Pipe_Props\<close> shows that \<open>pipewrite\<close> and \<open>piperead\<close> implement a bounded first-in first-out
    channel, and \<open>Pipe_Sched\<close> that under the scheduler every byte written arrives in order and no wakeup is lost.
  \<^item> \<open>Exec\<close> (\<open>exec.c\<close>, argument fetching of \<open>syscall.c\<close>), \<open>Sysfile\<close> (\<open>sysfile.c\<close>), \<open>Trap\<close> (\<open>trap.c\<close>, \<open>sysproc.c\<close>, dispatch of \<open>syscall.c\<close>, writes of
    \<open>lapic.c\<close>): loader, system calls and traps.  \<open>Boot\<close>: the state of a kernel that starts, from which witnesses are built.

  \<^bold>\<open>User theories.\<close>  \<open>User\<close> (\<open>ulib.c\<close>, \<open>printf.c\<close>); \<open>Grep\<close> and \<open>Grep_Props\<close> (\<open>grep.c\<close>): the matcher decides a regular language and the program
  prints the matching lines; \<open>Utils\<close> and \<open>Utils_Props\<close>: the small programs; \<open>Sh\<close> and \<open>Sh_Props\<close> (\<open>sh.c\<close>): the parser ends
  and inverts the text of a command; \<open>Umalloc\<close> and \<open>Umalloc_Props\<close> (\<open>umalloc.c\<close>): the circular free list, sorted and coalesced,
  and the blocks that \<open>malloc\<close> and \<open>free\<close> move in and out of the free memory.

  \<^bold>\<open>Bounds and fuel.\<close>  The shell parser takes fuel \<open>4 * es + 5\<close> for a line of \<open>es\<close> characters: each character is passed at most once
  and at most four calls nest between two characters; that it is never used up is proved as the
  termination of the parser.  Other loops that may not end are partial functions into option types
  or yield \<open>Diverges\<close>, and the theorems about them include that they return.  The theorem on \<open>malloc\<close> is for fewer
  than $2^{30}$ bytes, where the number of units and the argument of \<open>sbrk\<close> do not overflow.  Page-table theorems
  ask for 1026 free pages besides the copied ones: a directory and 1024 tables, and one left over.

  \<^bold>\<open>Not modelled.\<close>  Assembly code (\<open>entry.S\<close>, \<open>entryother.S\<close>, \<open>bootasm.S\<close>, \<open>trapasm.S\<close>, \<open>swtch.S\<close>, \<open>initcode.S\<close>, \<open>usys.S\<close>, \<open>vectors.pl\<close>), whose effect is the
  change of the running process and the trap frame; the boot loader \<open>bootmain.c\<close> and \<open>main.c\<close>, a sequence of calls of
  modelled routines; \<open>ide.c\<close> and \<open>mp.c\<close>, input and output on hardware registers and firmware tables (the model uses
  the memory disk of \<open>memide.c\<close>, which has the same interface); of \<open>lapic.c\<close> the routines that only read the hardware; \<open>mkfs.c\<close>, a
  program of the host; the test program \<open>usertests.c\<close>; header files with declarations only.  Caches,
  weak memory order and the time that hardware takes are not part of the model.
\<close>

end
